(* ===== verification/Prelude.thy ===== *)
theory Prelude
  imports Main "HOL-Library.Word" "HOL-Library.Monad_Syntax" "HOL-Library.Multiset"
begin

text \<open>
  Shared vocabulary of the development: C integers, bounds-checked memory access, and the
  generic facts on lists and words that the component theories use.

  \<^item> A C \<open>int\<close> is an \<open>int\<close>; where the code can leave the 32-bit range the wrap-around
    of the kernel's build (\<open>-fno-strict-overflow\<close>) is written out with \<open>int32\<close>.
  \<^item> A computation that may touch memory is an \<open>option\<close>: \<open>None\<close> is an access the C
    abstract machine gives no meaning to (a NULL or dangling pointer, an index outside its
    array, a double free) or a loop that does not come back. Error \<^emph>\<open>returns\<close> of the code
    are ordinary values (negative errno numbers).
\<close>

unbundle bit_operations_syntax

named_theorems cint \<open>evaluation and bounds of C integers\<close>
named_theorems mem \<open>bounds-checked memory accesses that succeed\<close>
named_theorems wordframe \<open>bytes, words and their frames\<close>

section \<open>C integers\<close>

type_synonym byte = "8 word"
type_synonym u16 = "16 word"
type_synonym s32 = "32 word"
type_synonym u64 = "64 word"

definition int32 :: "int \<Rightarrow> int" where
  "int32 x = signed_take_bit 31 x"

lemma int32_id [cint]: "- (2 ^ 31) \<le> x \<Longrightarrow> x < 2 ^ 31 \<Longrightarrow> int32 x = x"
  by (simp add: int32_def signed_take_bit_int_eq_self)

lemma int32_plus_left [simp]: "int32 (int32 x + y) = int32 (x + y)"
proof -
  have "signed_take_bit 31 (signed_take_bit 31 x + signed_take_bit 31 y)
          = signed_take_bit 31 (x + y)"
    by (rule signed_take_bit_add)
  moreover have "signed_take_bit 31 (signed_take_bit 31 (signed_take_bit 31 x) + signed_take_bit 31 y)
          = signed_take_bit 31 (signed_take_bit 31 x + y)"
    by (rule signed_take_bit_add)
  ultimately show ?thesis by (simp add: int32_def)
qed

lemma int32_plus_right [simp]: "int32 (y + int32 x) = int32 (y + x)"
  using int32_plus_left [of x y] by (simp add: add.commute)

lemma int32_minus_left [simp]: "int32 (int32 x - y) = int32 (x - y)"
  using int32_plus_left [of x "- y"] by simp

lemma int32_bounds: "- (2 ^ 31) \<le> int32 x \<and> int32 x < 2 ^ 31"
  unfolding int32_def
  by (intro conjI signed_take_bit_int_less_exp signed_take_bit_int_greater_eq_minus_exp)

text \<open>The cast \<open>(int)\<close> of an \<open>unsigned long\<close>: the low 32 bits, read as two's complement.\<close>

definition c_int_of_ulong :: "u64 \<Rightarrow> int" where
  "c_int_of_ulong x = sint (ucast x :: s32)"

section \<open>Error numbers of the kernel\<close>

definition EINTR :: int where "EINTR = 4"
definition ENOMEM :: int where "ENOMEM = 12"
definition EFAULT :: int where "EFAULT = 14"
definition EBUSY :: int where "EBUSY = 16"
definition ENODEV :: int where "ENODEV = 19"
definition EINVAL :: int where "EINVAL = 22"
definition ENOTTY :: int where "ENOTTY = 25"

lemmas errno_defs = EINTR_def ENOMEM_def EFAULT_def EBUSY_def ENODEV_def EINVAL_def ENOTTY_def

section \<open>Bounds-checked access\<close>

definition nth_opt :: "'a list \<Rightarrow> nat \<Rightarrow> 'a option" where
  "nth_opt xs i = (if i < length xs then Some (xs ! i) else None)"

definition upd_opt :: "'a list \<Rightarrow> nat \<Rightarrow> 'a \<Rightarrow> 'a list option" where
  "upd_opt xs i v = (if i < length xs then Some (xs[i := v]) else None)"

text \<open>\<open>memset (buf, 0, n)\<close>; the length is converted to \<open>size_t\<close>, so a negative one
  is far beyond any buffer.\<close>

definition memset0 :: "byte list \<Rightarrow> int \<Rightarrow> byte list option" where
  "memset0 buf n =
     (if 0 \<le> n \<and> nat n \<le> length buf then Some (replicate (nat n) 0 @ drop (nat n) buf) else None)"

lemma nth_opt_Some [mem]: "i < length xs \<Longrightarrow> nth_opt xs i = Some (xs ! i)"
  by (simp add: nth_opt_def)

lemma upd_opt_Some [mem]: "i < length xs \<Longrightarrow> upd_opt xs i v = Some (xs[i := v])"
  by (simp add: upd_opt_def)

lemma memset0_Some [mem]:
  "0 \<le> n \<Longrightarrow> nat n \<le> length buf \<Longrightarrow> memset0 buf n = Some (replicate (nat n) 0 @ drop (nat n) buf)"
  by (simp add: memset0_def)

lemma upd_opt_append_right [simp]:
  "upd_opt (xs @ ys) (length xs + i) v = map_option ((@) xs) (upd_opt ys i v)"
  by (simp add: upd_opt_def list_update_append)

section \<open>Options and lists\<close>

lemma bind_Some_eq [simp]: "(Some x \<bind> f) = f x"
  by simp

lemma bind_SomeE:
  assumes "(m \<bind> f) = Some y"
  obtains x where "m = Some x" and "f x = Some y"
  using assms by (auto simp: Option.bind_eq_Some_conv)

text \<open>A counted loop over a fallible body.\<close>

fun for_each :: "('a \<Rightarrow> 's \<Rightarrow> 's option) \<Rightarrow> 'a list \<Rightarrow> 's \<Rightarrow> 's option" where
  "for_each f [] s = Some s"
| "for_each f (x # xs) s = do { s \<leftarrow> f x s; for_each f xs s }"

lemma for_each_rule:
  assumes "P [] s" and "\<And>ys x zs s. xs = ys @ x # zs \<Longrightarrow> P ys s \<Longrightarrow> \<exists>t. f x s = Some t \<and> P (ys @ [x]) t"
  shows "\<exists>t. for_each f xs s = Some t \<and> P xs t"
proof -
  have "\<exists>t. for_each f zs s = Some t \<and> P (ys @ zs) t" if "xs = ys @ zs" "P ys s" for ys zs s
    using that
  proof (induction zs arbitrary: ys s)
    case Nil
    then show ?case by simp
  next
    case (Cons z zs)
    from assms(2) [OF Cons.prems] obtain t where t: "f z s = Some t" "P (ys @ [z]) t" by blast
    with Cons.IH [of "ys @ [z]" t] Cons.prems(1) show ?case by simp
  qed
  from this [of "[]" xs s] assms(1) show ?thesis by simp
qed

definition first_or :: "'a list \<Rightarrow> 'a option \<Rightarrow> 'a option" where
  "first_or xs q = (case xs of [] \<Rightarrow> q | x # _ \<Rightarrow> Some x)"

definition last_or :: "'a option \<Rightarrow> 'a list \<Rightarrow> 'a option" where
  "last_or p xs = (if xs = [] then p else Some (last xs))"

lemma first_or_simps [simp]:
  "first_or [] q = q" "first_or (x # xs) q = Some x"
  by (simp_all add: first_or_def)

lemma last_or_simps [simp]:
  "last_or p [] = p" "last_or p (x # xs) = last_or (Some x) xs"
  by (simp_all add: last_or_def)

lemma first_or_append [simp]: "first_or (xs @ ys) q = first_or xs (first_or ys q)"
  by (cases xs) simp_all

lemma last_or_append [simp]: "last_or p (xs @ ys) = last_or (last_or p xs) ys"
  by (simp add: last_or_def)

lemma first_or_None_iff [simp]: "(first_or xs None = None) = (xs = [])"
  by (cases xs) simp_all

lemma last_or_None_iff [simp]: "(last_or None xs = None) = (xs = [])"
  by (simp add: last_or_def)

text \<open>A C function as the list of its statements, where others may run between them.\<close>

primrec run_stmts :: "('s \<Rightarrow> 's option) list \<Rightarrow> 's \<Rightarrow> 's option" where
  "run_stmts [] s = Some s"
| "run_stmts (f # fs) s = do { s \<leftarrow> f s; run_stmts fs s }"

end
