(* ===== verification/Fifo_Interface.thy ===== *)
theory Fifo_Interface
  imports Prelude
begin

text \<open>
  What the driver relies on when it keeps its buffers on lists (\<open>list_append\<close>,
  \<open>list_fetch\<close>, \<open>list_get_cnt\<close> of \<open>src/list.h\<close>): a family of sequences, appended to
  at the tail and fetched from at the head, elements that are loose between a fetch and an
  append, and nothing else of the state touched. \<open>src/list.c\<close> provides the interface
  (theory Linked_List).
\<close>

locale fifo_lists =
  fixes rep :: "'s \<Rightarrow> ('l \<Rightarrow> 'a list option) \<Rightarrow> bool"
    and free :: "'s \<Rightarrow> 'a \<Rightarrow> bool"
    and same :: "'s \<Rightarrow> 's \<Rightarrow> bool"
    and append :: "'l option \<Rightarrow> 'a option \<Rightarrow> 's \<Rightarrow> 's option"
    and fetch :: "'l option \<Rightarrow> 's \<Rightarrow> ('a option \<times> 's) option"
    and cnt :: "'l option \<Rightarrow> 's \<Rightarrow> int option"
  assumes same_trans: "same s t \<Longrightarrow> same t u \<Longrightarrow> same s u"
    and free_notin: "rep s L \<Longrightarrow> free s a \<Longrightarrow> L l = Some xs \<Longrightarrow> a \<notin> set xs"
    and append_law: "rep s L \<Longrightarrow> L l = Some xs \<Longrightarrow> free s a \<Longrightarrow>
      \<exists>t. append (Some l) (Some a) s = Some t \<and> rep t (L(l \<mapsto> xs @ [a])) \<and> same s t \<and>
          (\<forall>b. free t b \<longleftrightarrow> free s b \<and> b \<noteq> a)"
    and fetch_law: "rep s L \<Longrightarrow> L l = Some (x # xs) \<Longrightarrow>
      \<exists>t. fetch (Some l) s = Some (Some x, t) \<and> rep t (L(l \<mapsto> xs)) \<and> same s t \<and>
          (\<forall>b. free t b \<longleftrightarrow> free s b \<or> b = x)"
    and fetch_empty: "rep s L \<Longrightarrow> L l = Some [] \<Longrightarrow> fetch (Some l) s = Some (None, s)"
    and cnt_law: "rep s L \<Longrightarrow> L l = Some xs \<Longrightarrow> cnt (Some l) s = Some (int32 (int (length xs)))"
begin

text \<open>Moving the head of one list to the tail of another.\<close>

lemma move:
  assumes R: "rep s L" and k: "L k = Some (x # xs)" and l: "L l = Some ys" and kl: "k \<noteq> l"
  obtains t u where "fetch (Some k) s = Some (Some x, t)" "append (Some l) (Some x) t = Some u"
    and "rep u (L(k \<mapsto> xs, l \<mapsto> ys @ [x]))" "same s u" "\<forall>b. free u b \<longleftrightarrow> free s b"
proof -
  from fetch_law [OF R k] obtain t where f: "fetch (Some k) s = Some (Some x, t)"
    and Rt: "rep t (L(k \<mapsto> xs))" and st: "same s t" and ft: "\<forall>b. free t b \<longleftrightarrow> free s b \<or> b = x"
    by blast
  have lt: "(L(k \<mapsto> xs)) l = Some ys" and "free t x" using l kl ft by auto
  from append_law [OF Rt this] obtain u where a: "append (Some l) (Some x) t = Some u"
    and Ru: "rep u (L(k \<mapsto> xs, l \<mapsto> ys @ [x]))" and tu: "same t u"
    and fu: "\<forall>b. free u b \<longleftrightarrow> free t b \<and> b \<noteq> x"
    by blast
  have "\<not> free s x" using free_notin [OF R _ k] by auto
  with ft fu have "\<forall>b. free u b \<longleftrightarrow> free s b" by blast
  with f a Ru same_trans [OF st tu] show thesis by (intro that)
qed

end

text \<open>A client session on one list, over any implementation of put and get, and what it
  returns on a sequence.\<close>

datatype 'a fifo_op = Put 'a | Get

fun fifo_exec ::
  "('a \<Rightarrow> 's \<Rightarrow> 's option) \<Rightarrow> ('s \<Rightarrow> ('a option \<times> 's) option) \<Rightarrow> 'a fifo_op list \<Rightarrow> 's
     \<Rightarrow> ('a option list \<times> 's) option" where
  "fifo_exec put get [] s = Some ([], s)"
| "fifo_exec put get (Put a # ops) s = do { s \<leftarrow> put a s; fifo_exec put get ops s }"
| "fifo_exec put get (Get # ops) s = do {
     (r, s) \<leftarrow> get s;
     (rs, s) \<leftarrow> fifo_exec put get ops s;
     Some (r # rs, s) }"

fun fifo_spec :: "'a fifo_op list \<Rightarrow> 'a list \<Rightarrow> 'a option list \<times> 'a list" where
  "fifo_spec [] q = ([], q)"
| "fifo_spec (Put a # ops) q = fifo_spec ops (q @ [a])"
| "fifo_spec (Get # ops) q =
     (first_or q None # fst (fifo_spec ops (tl q)), snd (fifo_spec ops (tl q)))"

text \<open>An element is put only while it is not on the list (an intrusive list has one
  link per element).\<close>

fun fifo_ok :: "'a fifo_op list \<Rightarrow> 'a list \<Rightarrow> bool" where
  "fifo_ok [] q = True"
| "fifo_ok (Put a # ops) q = (a \<notin> set q \<and> fifo_ok ops (q @ [a]))"
| "fifo_ok (Get # ops) q = fifo_ok ops (tl q)"

fun fifo_puts :: "'a fifo_op list \<Rightarrow> 'a set" where
  "fifo_puts [] = {}"
| "fifo_puts (Put a # ops) = insert a (fifo_puts ops)"
| "fifo_puts (Get # ops) = fifo_puts ops"

fun fifo_put_count :: "'a fifo_op list \<Rightarrow> nat" where
  "fifo_put_count [] = 0"
| "fifo_put_count (Put a # ops) = Suc (fifo_put_count ops)"
| "fifo_put_count (Get # ops) = fifo_put_count ops"

context fifo_lists
begin

lemma session:
  assumes "rep s L" "L l = Some q" "fifo_ok ops q"
    and "\<forall>a \<in> fifo_puts ops. free s a \<or> a \<in> set q"
  shows "\<exists>t. fifo_exec (\<lambda>a. append (Some l) (Some a)) (fetch (Some l)) ops s
               = Some (fst (fifo_spec ops q), t) \<and>
             rep t (L(l \<mapsto> snd (fifo_spec ops q))) "
  using assms
proof (induction ops q arbitrary: s L rule: fifo_ok.induct)
  case (1 q)
  then show ?case by (simp add: fun_upd_idem)
next
  case (2 a ops q)
  then have "free s a" by auto
  from append_law [OF 2(2,3) this] obtain t where
    t: "append (Some l) (Some a) s = Some t" "rep t (L(l \<mapsto> q @ [a]))"
    and f: "\<forall>b. free t b \<longleftrightarrow> free s b \<and> b \<noteq> a" by blast
  have "\<exists>u. fifo_exec (\<lambda>a. append (Some l) (Some a)) (fetch (Some l)) ops t
      = Some (fst (fifo_spec ops (q @ [a])), u) \<and>
      rep u (L(l \<mapsto> q @ [a], l \<mapsto> snd (fifo_spec ops (q @ [a]))))"
    by (rule 2(1), rule t(2)) (use 2(4,5) f in auto)
  with t(1) show ?case by (simp only: fun_upd_upd) (simp add: fun_upd_def)
next
  case (3 ops q)
  show ?case
  proof (cases q)
    case Nil
    have "\<exists>t. fifo_exec (\<lambda>a. append (Some l) (Some a)) (fetch (Some l)) ops s
        = Some (fst (fifo_spec ops (tl q)), t) \<and> rep t (L(l \<mapsto> snd (fifo_spec ops (tl q))))"
      by (rule 3(1), rule 3(2)) (use 3(3-5) Nil in auto)
    with 3(2,3) Nil fetch_empty [of s L l] show ?thesis by (auto simp: fun_upd_def)
  next
    case (Cons x xs)
    with 3(3) have "L l = Some (x # xs)" by simp
    from fetch_law [OF 3(2) this] obtain t where
      t: "fetch (Some l) s = Some (Some x, t)" "rep t (L(l \<mapsto> xs))"
      and f: "\<forall>b. free t b \<longleftrightarrow> free s b \<or> b = x" by blast
    have "\<exists>u. fifo_exec (\<lambda>a. append (Some l) (Some a)) (fetch (Some l)) ops t
        = Some (fst (fifo_spec ops (tl q)), u) \<and>
        rep u (L(l \<mapsto> xs, l \<mapsto> snd (fifo_spec ops (tl q))))"
      by (rule 3(1), rule t(2)) (use 3(4,5) f Cons in auto)
    with t(1) Cons show ?thesis by (simp only: fun_upd_upd) (auto simp: fun_upd_def)
  qed
qed

end

end
