(* ===== verification/Linked_List.thy ===== *)
theory Linked_List
  imports Fifo_Interface
begin

text \<open>
  The intrusive doubly linked list of \<open>src/list.c\<close> and \<open>src/list.h\<close>, at the level of its
  pointers. The heap maps the addresses of elements and of list headers to their contents;
  an address without an entry is not allocated, and going through it is a fault. The
  spinlocks are not data here: the body of a locked section is one atomic operation.
\<close>

section \<open>Memory\<close>

record ('l, 'a) list_elm =
  e_parent :: "'l option"
  e_prev :: "'a option"
  e_next :: "'a option"

record 'a list_hdr =
  l_count :: int
  l_head :: "'a option"
  l_tail :: "'a option"

record ('l, 'a) lheap =
  elms :: "'a \<Rightarrow> ('l, 'a) list_elm option"
  hdrs :: "'l \<Rightarrow> 'a list_hdr option"

definition zero_elm :: "('l, 'a) list_elm" where
  "zero_elm = \<lparr>e_parent = None, e_prev = None, e_next = None\<rparr>"

definition zero_hdr :: "'a list_hdr" where
  "zero_hdr = \<lparr>l_count = 0, l_head = None, l_tail = None\<rparr>"

text \<open>Stores through a pointer: a store through NULL or a dangling pointer faults.\<close>

definition upd_elm ::
  "'a \<Rightarrow> (('l, 'a) list_elm \<Rightarrow> ('l, 'a) list_elm) \<Rightarrow> ('l, 'a, 'z) lheap_scheme
     \<Rightarrow> ('l, 'a, 'z) lheap_scheme option" where
  "upd_elm a f h = (case elms h a of None \<Rightarrow> None | Some e \<Rightarrow> Some (h\<lparr>elms := (elms h)(a \<mapsto> f e)\<rparr>))"

definition upd_hdr ::
  "'l \<Rightarrow> ('a list_hdr \<Rightarrow> 'a list_hdr) \<Rightarrow> ('l, 'a, 'z) lheap_scheme
     \<Rightarrow> ('l, 'a, 'z) lheap_scheme option" where
  "upd_hdr l f h = (case hdrs h l of None \<Rightarrow> None | Some d \<Rightarrow> Some (h\<lparr>hdrs := (hdrs h)(l \<mapsto> f d)\<rparr>))"

definition kfree_elm :: "'a \<Rightarrow> ('l, 'a, 'z) lheap_scheme \<Rightarrow> ('l, 'a, 'z) lheap_scheme option" where
  "kfree_elm a h = (case elms h a of None \<Rightarrow> None | Some _ \<Rightarrow> Some (h\<lparr>elms := (elms h)(a := None)\<rparr>))"

section \<open>Operations\<close>

definition list_append ::
  "'l option \<Rightarrow> 'a option \<Rightarrow> ('l, 'a, 'z) lheap_scheme \<Rightarrow> ('l, 'a, 'z) lheap_scheme option" where
  "list_append list elm h =
     (case (list, elm) of
        (Some l, Some a) \<Rightarrow> do {
          h \<leftarrow> upd_elm a (\<lambda>e. e\<lparr>e_parent := Some l, e_next := None\<rparr>) h;
          d \<leftarrow> hdrs h l;
          h \<leftarrow> (if l_head d = None then do {
                  h \<leftarrow> upd_elm a (\<lambda>e. e\<lparr>e_prev := None\<rparr>) h;
                  upd_hdr l (\<lambda>d. d\<lparr>l_head := Some a, l_tail := Some a\<rparr>) h
                } else do {
                  h \<leftarrow> upd_elm a (\<lambda>e. e\<lparr>e_prev := l_tail d\<rparr>) h;
                  t \<leftarrow> l_tail d;
                  h \<leftarrow> upd_elm t (\<lambda>e. e\<lparr>e_next := Some a\<rparr>) h;
                  upd_hdr l (\<lambda>d. d\<lparr>l_tail := Some a\<rparr>) h
                });
          upd_hdr l (\<lambda>d. d\<lparr>l_count := int32 (l_count d + 1)\<rparr>) h
        }
      | _ \<Rightarrow> Some h)"

definition list_insert ::
  "'l option \<Rightarrow> 'a option \<Rightarrow> 'a option \<Rightarrow> ('l, 'a, 'z) lheap_scheme
     \<Rightarrow> ('l, 'a, 'z) lheap_scheme option" where
  "list_insert list prev_elem elem h =
     (case (list, elem) of
        (Some l, Some a) \<Rightarrow> do {
          h \<leftarrow> upd_elm a (\<lambda>e. e\<lparr>e_parent := Some l\<rparr>) h;
          d \<leftarrow> hdrs h l;
          h \<leftarrow> (case l_head d of
                 None \<Rightarrow> do {
                   h \<leftarrow> upd_elm a (\<lambda>e. e\<lparr>e_prev := None, e_next := None\<rparr>) h;
                   upd_hdr l (\<lambda>d. d\<lparr>l_head := Some a, l_tail := Some a\<rparr>) h }
               | Some hd0 \<Rightarrow>
                   (case prev_elem of
                      None \<Rightarrow> do {
                        h \<leftarrow> upd_elm a (\<lambda>e. e\<lparr>e_prev := None, e_next := Some hd0\<rparr>) h;
                        h \<leftarrow> upd_elm hd0 (\<lambda>e. e\<lparr>e_prev := Some a\<rparr>) h;
                        upd_hdr l (\<lambda>d. d\<lparr>l_head := Some a\<rparr>) h }
                    | Some p \<Rightarrow> do {
                        h \<leftarrow> upd_elm a (\<lambda>e. e\<lparr>e_prev := Some p\<rparr>) h;
                        pe \<leftarrow> elms h p;
                        h \<leftarrow> upd_elm a (\<lambda>e. e\<lparr>e_next := e_next pe\<rparr>) h;
                        h \<leftarrow> upd_elm p (\<lambda>e. e\<lparr>e_next := Some a\<rparr>) h;
                        ae \<leftarrow> elms h a;
                        (case e_next ae of
                           None \<Rightarrow> upd_hdr l (\<lambda>d. d\<lparr>l_tail := Some a\<rparr>) h
                         | Some n \<Rightarrow> upd_elm n (\<lambda>e. e\<lparr>e_prev := Some a\<rparr>) h) }));
          upd_hdr l (\<lambda>d. d\<lparr>l_count := int32 (l_count d + 1)\<rparr>) h
        }
      | _ \<Rightarrow> Some h)"

definition list_fetch ::
  "'l option \<Rightarrow> ('l, 'a, 'z) lheap_scheme \<Rightarrow> ('a option \<times> ('l, 'a, 'z) lheap_scheme) option" where
  "list_fetch list h =
     (case list of
        None \<Rightarrow> Some (None, h)
      | Some l \<Rightarrow> do {
          d \<leftarrow> hdrs h l;
          (case l_head d of
             None \<Rightarrow> Some (None, h)
           | Some r \<Rightarrow> do {
               e \<leftarrow> elms h r;
               h \<leftarrow> upd_hdr l (\<lambda>d. d\<lparr>l_head := e_next e\<rparr>) h;
               h \<leftarrow> (case e_next e of
                      Some n \<Rightarrow> upd_elm n (\<lambda>e. e\<lparr>e_prev := None\<rparr>) h
                    | None \<Rightarrow> upd_hdr l (\<lambda>d. d\<lparr>l_tail := None\<rparr>) h);
               h \<leftarrow> upd_hdr l (\<lambda>d. d\<lparr>l_count := int32 (l_count d - 1)\<rparr>) h;
               h \<leftarrow> upd_elm r (\<lambda>e. e\<lparr>e_parent := None, e_prev := None, e_next := None\<rparr>) h;
               Some (Some r, h)
             })
        })"

definition list_iter ::
  "'l option \<Rightarrow> 'a option \<Rightarrow> ('l, 'a, 'z) lheap_scheme \<Rightarrow> 'a option option" where
  "list_iter list prev h =
     (case list of
        None \<Rightarrow> Some None
      | Some l \<Rightarrow>
          (case prev of
             None \<Rightarrow> map_option l_head (hdrs h l)
           | Some p \<Rightarrow> map_option e_next (elms h p)))"

definition list_get_last_elm ::
  "'l option \<Rightarrow> ('l, 'a, 'z) lheap_scheme \<Rightarrow> 'a option option" where
  "list_get_last_elm list h =
     (case list of None \<Rightarrow> Some None | Some l \<Rightarrow> map_option l_tail (hdrs h l))"

definition list_get_first_elm ::
  "'l option \<Rightarrow> ('l, 'a, 'z) lheap_scheme \<Rightarrow> 'a option option" where
  "list_get_first_elm list h =
     (case list of None \<Rightarrow> Some None | Some l \<Rightarrow> map_option l_head (hdrs h l))"

definition list_get_cnt :: "'l option \<Rightarrow> ('l, 'a, 'z) lheap_scheme \<Rightarrow> int option" where
  "list_get_cnt list h = (case list of None \<Rightarrow> Some 0 | Some l \<Rightarrow> map_option l_count (hdrs h l))"

text \<open>\<open>list_new\<close>: \<open>fresh\<close> is the result of \<open>devm_kzalloc\<close>, NULL when memory is short.\<close>

definition list_new ::
  "'l option \<Rightarrow> ('l, 'a, 'z) lheap_scheme \<Rightarrow> 'l option \<times> ('l, 'a, 'z) lheap_scheme" where
  "list_new fresh h =
     (case fresh of
        None \<Rightarrow> (None, h)
      | Some l \<Rightarrow> (Some l, h\<lparr>hdrs := (hdrs h)(l \<mapsto> zero_hdr)\<rparr>))"

text \<open>\<open>list_alloc_elm\<close>: a zeroed element, or NULL.\<close>

definition list_alloc_elm ::
  "'a option \<Rightarrow> ('l, 'a, 'z) lheap_scheme \<Rightarrow> 'a option \<times> ('l, 'a, 'z) lheap_scheme" where
  "list_alloc_elm fresh h =
     (case fresh of
        None \<Rightarrow> (None, h)
      | Some a \<Rightarrow> (Some a, h\<lparr>elms := (elms h)(a \<mapsto> zero_elm)\<rparr>))"

definition list_del_elm ::
  "'a option \<Rightarrow> bool \<Rightarrow> ('l, 'a, 'z) lheap_scheme \<Rightarrow> ('l, 'a, 'z) lheap_scheme option" where
  "list_del_elm elem free_elm h =
     (case elem of
        None \<Rightarrow> Some h
      | Some a \<Rightarrow> do {
          e \<leftarrow> elms h a;
          (case e_parent e of
             None \<Rightarrow> (if free_elm then kfree_elm a h else Some h)
           | Some l \<Rightarrow> do {
               h \<leftarrow> (case e_prev e of
                      Some p \<Rightarrow> upd_elm p (\<lambda>x. x\<lparr>e_next := e_next e\<rparr>) h
                    | None \<Rightarrow> upd_hdr l (\<lambda>d. d\<lparr>l_head := e_next e\<rparr>) h);
               h \<leftarrow> (case e_next e of
                      Some n \<Rightarrow> upd_elm n (\<lambda>x. x\<lparr>e_prev := e_prev e\<rparr>) h
                    | None \<Rightarrow> upd_hdr l (\<lambda>d. d\<lparr>l_tail := e_prev e\<rparr>) h);
               h \<leftarrow> upd_elm a (\<lambda>x. x\<lparr>e_prev := None, e_next := None, e_parent := None\<rparr>) h;
               h \<leftarrow> upd_hdr l (\<lambda>d. d\<lparr>l_count := int32 (l_count d - 1)\<rparr>) h;
               (if free_elm then kfree_elm a h else Some h)
             })
        })"

text \<open>The loops follow pointers the heap holds, so they need not come back on a heap
  that is not a list: \<open>None\<close> then.\<close>

partial_function (option) search_loop ::
  "('a \<Rightarrow> bool) \<Rightarrow> 'a option \<Rightarrow> ('l, 'a, 'z) lheap_scheme \<Rightarrow> 'a option option" where
  "search_loop cmp nxt h =
     (case nxt of
        None \<Rightarrow> Some None
      | Some a \<Rightarrow> (if cmp a then Some (Some a)
                  else (case elms h a of None \<Rightarrow> None | Some e \<Rightarrow> search_loop cmp (e_next e) h)))"

definition list_search ::
  "'l option \<Rightarrow> 'b \<Rightarrow> ('b \<Rightarrow> 'a \<Rightarrow> bool) option \<Rightarrow> ('l, 'a, 'z) lheap_scheme
     \<Rightarrow> 'a option option" where
  "list_search list arg comp_func h =
     (case (list, comp_func) of
        (Some l, Some cmp) \<Rightarrow> do { d \<leftarrow> hdrs h l; search_loop (cmp arg) (l_head d) h }
      | _ \<Rightarrow> Some None)"

fun get_idx_loop :: "nat \<Rightarrow> 'a option \<Rightarrow> ('l, 'a, 'z) lheap_scheme \<Rightarrow> 'a option option" where
  "get_idx_loop 0 nxt h = Some nxt"
| "get_idx_loop (Suc cnt) None h = Some None"
| "get_idx_loop (Suc cnt) (Some a) h =
     (case elms h a of None \<Rightarrow> None | Some e \<Rightarrow> get_idx_loop cnt (e_next e) h)"

definition list_get_idx ::
  "'l option \<Rightarrow> int \<Rightarrow> ('l, 'a, 'z) lheap_scheme \<Rightarrow> 'a option option" where
  "list_get_idx list idx h =
     (case list of
        None \<Rightarrow> Some None
      | Some l \<Rightarrow>
          (if idx < 0 then Some None
           else do {
             d \<leftarrow> hdrs h l;
             (if idx < l_count d then get_idx_loop (nat idx) (l_head d) h else Some None)
           }))"

partial_function (option) insert_sort_loop ::
  "'l option \<Rightarrow> ('a \<Rightarrow> 'a \<Rightarrow> bool) \<Rightarrow> 'a \<Rightarrow> 'a option \<Rightarrow> ('l, 'a, 'z) lheap_scheme
     \<Rightarrow> ('l, 'a, 'z) lheap_scheme option" where
  "insert_sort_loop list cmp new prev h =
     (case list_iter list prev h of
        None \<Rightarrow> None
      | Some None \<Rightarrow> list_append list (Some new) h
      | Some (Some nxt) \<Rightarrow>
          (if cmp nxt new then list_insert list prev (Some new) h
           else insert_sort_loop list cmp new (Some nxt) h))"

definition list_insert_sort ::
  "'l option \<Rightarrow> 'a option \<Rightarrow> ('a \<Rightarrow> 'a \<Rightarrow> bool) option \<Rightarrow> ('l, 'a, 'z) lheap_scheme
     \<Rightarrow> ('l, 'a, 'z) lheap_scheme option" where
  "list_insert_sort list new comp_func h =
     (case (list, new, comp_func) of
        (Some l, Some a, Some cmp) \<Rightarrow> do {
          la \<leftarrow> list_get_last_elm list h;
          (if (case la of Some x \<Rightarrow> \<not> cmp x a | None \<Rightarrow> False)
           then list_append list (Some a) h
           else insert_sort_loop list cmp a None h)
        }
      | _ \<Rightarrow> Some h)"

text \<open>\<open>list_cleanup\<close> and \<open>list_iter_do\<close> call back into their client, so they act on
  whatever state extends the heap. \<open>list_cleanup\<close> without a callback uses \<open>kfree\<close>.\<close>

partial_function (option) cleanup_loop ::
  "'l option \<Rightarrow> ('a \<Rightarrow> ('l, 'a, 'z) lheap_scheme \<Rightarrow> ('l, 'a, 'z) lheap_scheme option)
     \<Rightarrow> ('l, 'a, 'z) lheap_scheme \<Rightarrow> ('l, 'a, 'z) lheap_scheme option" where
  "cleanup_loop list free_func h =
     (case list_fetch list h of
        None \<Rightarrow> None
      | Some (r, h1) \<Rightarrow>
          (case r of
             None \<Rightarrow> Some h1
           | Some a \<Rightarrow> (case free_func a h1 of None \<Rightarrow> None | Some h2 \<Rightarrow> cleanup_loop list free_func h2)))"

definition list_cleanup ::
  "'l option \<Rightarrow> ('a \<Rightarrow> ('l, 'a, 'z) lheap_scheme \<Rightarrow> ('l, 'a, 'z) lheap_scheme option) option
     \<Rightarrow> ('l, 'a, 'z) lheap_scheme \<Rightarrow> ('l, 'a, 'z) lheap_scheme option" where
  "list_cleanup list free_elm h =
     (case list of
        None \<Rightarrow> Some h
      | Some l \<Rightarrow> cleanup_loop list (case free_elm of None \<Rightarrow> kfree_elm | Some f \<Rightarrow> f) h)"

partial_function (option) iter_do_loop ::
  "('a \<Rightarrow> ('l, 'a, 'z) lheap_scheme \<Rightarrow> ('l, 'a, 'z) lheap_scheme option) \<Rightarrow> 'a option
     \<Rightarrow> ('l, 'a, 'z) lheap_scheme \<Rightarrow> ('l, 'a, 'z) lheap_scheme option" where
  "iter_do_loop action elm h =
     (case elm of
        None \<Rightarrow> Some h
      | Some a \<Rightarrow>
          (case elms h a of
             None \<Rightarrow> None
           | Some e \<Rightarrow> (case action a h of None \<Rightarrow> None | Some h1 \<Rightarrow> iter_do_loop action (e_next e) h1)))"

definition list_iter_do ::
  "'l option \<Rightarrow> ('a \<Rightarrow> ('l, 'a, 'z) lheap_scheme \<Rightarrow> ('l, 'a, 'z) lheap_scheme option) option
     \<Rightarrow> ('l, 'a, 'z) lheap_scheme \<Rightarrow> ('l, 'a, 'z) lheap_scheme option" where
  "list_iter_do list action h =
     (case (list, action) of
        (Some l, Some act) \<Rightarrow> do {
          d \<leftarrow> hdrs h l;
          h \<leftarrow> iter_do_loop act (l_head d) h;
          upd_hdr l (\<lambda>d. d\<lparr>l_head := None, l_tail := None, l_count := 0\<rparr>) h
        }
      | _ \<Rightarrow> Some h)"

section \<open>Abstraction: the heap as a family of sequences\<close>

text \<open>\<open>seg E l p xs q\<close>: the addresses \<open>xs\<close> are linked in this order, both ways, as
  elements of list \<open>l\<close>, between the predecessor \<open>p\<close> and the successor \<open>q\<close>.\<close>

primrec seg ::
  "('a \<Rightarrow> ('l, 'a) list_elm option) \<Rightarrow> 'l \<Rightarrow> 'a option \<Rightarrow> 'a list \<Rightarrow> 'a option \<Rightarrow> bool" where
  "seg E l p [] q \<longleftrightarrow> True"
| "seg E l p (x # xs) q \<longleftrightarrow>
     E x = Some \<lparr>e_parent = Some l, e_prev = p, e_next = first_or xs q\<rparr> \<and> seg E l (Some x) xs q"

definition dlist ::
  "('a \<Rightarrow> ('l, 'a) list_elm option) \<Rightarrow> ('l \<Rightarrow> 'a list_hdr option) \<Rightarrow> 'l \<Rightarrow> 'a list \<Rightarrow> bool" where
  "dlist E D l xs \<longleftrightarrow>
     distinct xs \<and> seg E l None xs None \<and>
     D l = Some \<lparr>l_count = int32 (int (length xs)), l_head = first_or xs None, l_tail = last_or None xs\<rparr>"

text \<open>\<open>rep E D L\<close>: every list header of the heap is the list that \<open>L\<close> says, and an element
  that names a parent is on that list.\<close>

definition rep ::
  "('a \<Rightarrow> ('l, 'a) list_elm option) \<Rightarrow> ('l \<Rightarrow> 'a list_hdr option) \<Rightarrow> ('l \<Rightarrow> 'a list option) \<Rightarrow> bool" where
  "rep E D L \<longleftrightarrow>
     (\<forall>l. case L l of None \<Rightarrow> D l = None | Some xs \<Rightarrow> dlist E D l xs) \<and>
     (\<forall>a e l. E a = Some e \<longrightarrow> e_parent e = Some l \<longrightarrow> (\<exists>xs. L l = Some xs \<and> a \<in> set xs))"

abbreviation heap_rep :: "('l, 'a, 'z) lheap_scheme \<Rightarrow> ('l \<Rightarrow> 'a list option) \<Rightarrow> bool" where
  "heap_rep h L \<equiv> rep (elms h) (hdrs h) L"

text \<open>A loose element: allocated and on no list.\<close>

definition loose :: "('a \<Rightarrow> ('l, 'a) list_elm option) \<Rightarrow> 'a \<Rightarrow> bool" where
  "loose E a \<longleftrightarrow> (\<exists>e. E a = Some e \<and> e_parent e = None)"

lemma seg_append [simp]:
  "seg E l p (xs @ ys) q \<longleftrightarrow> seg E l p xs (first_or ys q) \<and> seg E l (last_or p xs) ys q"
  by (induction xs arbitrary: p) auto

lemma seg_cong: "(\<And>x. x \<in> set xs \<Longrightarrow> E' x = E x) \<Longrightarrow> seg E' l p xs q = seg E l p xs q"
  by (induction xs arbitrary: p) auto

lemma seg_upd_notin [simp]: "a \<notin> set xs \<Longrightarrow> seg (E(a := v)) l p xs q = seg E l p xs q"
  by (rule seg_cong) auto

lemma seg_in: "seg E l p xs q \<Longrightarrow> x \<in> set xs \<Longrightarrow> \<exists>e. E x = Some e \<and> e_parent e = Some l"
  by (induction xs arbitrary: p) auto

lemma looseE:
  assumes "loose E a"
  obtains p n where "E a = Some \<lparr>e_parent = None, e_prev = p, e_next = n\<rparr>"
proof -
  from assms obtain e where "E a = Some e" "e_parent e = None" by (auto simp: loose_def)
  then show thesis by (cases e) (auto intro: that)
qed

lemma rep_dlist: "rep E D L \<Longrightarrow> L l = Some xs \<Longrightarrow> dlist E D l xs"
  by (auto simp: rep_def split: option.splits dest: spec [where x = l])

lemma rep_None_iff: "rep E D L \<Longrightarrow> L l = None \<longleftrightarrow> D l = None"
  by (cases "L l") (auto simp: rep_def dlist_def split: option.splits dest!: spec [where x = l])

lemma rep_hdr:
  "rep E D L \<Longrightarrow> L l = Some xs \<Longrightarrow>
     D l = Some \<lparr>l_count = int32 (int (length xs)), l_head = first_or xs None, l_tail = last_or None xs\<rparr>"
  by (drule (1) rep_dlist) (simp add: dlist_def)

lemma rep_distinct: "rep E D L \<Longrightarrow> L l = Some xs \<Longrightarrow> distinct xs"
  by (drule (1) rep_dlist) (simp add: dlist_def)

lemma rep_seg: "rep E D L \<Longrightarrow> L l = Some xs \<Longrightarrow> seg E l None xs None"
  by (drule (1) rep_dlist) (simp add: dlist_def)

lemma rep_in_parent:
  "rep E D L \<Longrightarrow> L l = Some xs \<Longrightarrow> x \<in> set xs \<Longrightarrow> \<exists>e. E x = Some e \<and> e_parent e = Some l"
  by (drule (1) rep_seg) (rule seg_in)

lemma rep_disjoint:
  assumes "rep E D L" "L l = Some xs" "L l' = Some ys" "x \<in> set xs" "x \<in> set ys"
  shows "l = l'"
  using rep_in_parent [OF assms(1,2,4)] rep_in_parent [OF assms(1,3,5)] by auto

lemma loose_notin: "rep E D L \<Longrightarrow> loose E a \<Longrightarrow> L l = Some xs \<Longrightarrow> a \<notin> set xs"
  unfolding loose_def by (metis option.inject option.distinct(1) rep_in_parent)

lemma loose_iff:
  "rep E D L \<Longrightarrow> loose E a \<longleftrightarrow> a \<in> dom E \<and> (\<forall>l xs. L l = Some xs \<longrightarrow> a \<notin> set xs)"
proof
  assume R: "rep E D L" and lo: "loose E a"
  then show "a \<in> dom E \<and> (\<forall>l xs. L l = Some xs \<longrightarrow> a \<notin> set xs)"
    using loose_notin [OF R lo] by (auto simp: loose_def)
next
  assume R: "rep E D L" and A: "a \<in> dom E \<and> (\<forall>l xs. L l = Some xs \<longrightarrow> a \<notin> set xs)"
  then obtain e where e: "E a = Some e" by auto
  have "e_parent e = None"
  proof (rule ccontr)
    assume "e_parent e \<noteq> None"
    then obtain l where "e_parent e = Some l" by auto
    with R e A show False unfolding rep_def by blast
  qed
  with e show "loose E a" by (simp add: loose_def)
qed

text \<open>One list changes; the others keep their elements.\<close>

text \<open>Rewriting one list: the elements of another one are not touched.\<close>

lemma rep_other:
  assumes R: "rep E D L" and xs: "L l = Some xs" and ys: "L k = Some ys" and ne: "k \<noteq> l"
    and added: "\<And>b. b \<in> set xs' \<Longrightarrow> b \<notin> set xs \<Longrightarrow> loose E b" and b: "b \<in> set ys"
  shows "b \<notin> set xs \<union> set xs'"
proof -
  have "b \<notin> set xs" using rep_disjoint [OF R ys xs b] ne by blast
  moreover from this have "b \<notin> set xs'" using added [of b] loose_notin [OF R _ ys] b by blast
  ultimately show ?thesis by simp
qed

lemma rep_update:
  assumes R: "rep E D L" and xs: "L l = Some xs"
    and new: "dlist E' D' l xs'"
    and frameE: "\<And>b. b \<notin> set xs \<union> set xs' \<Longrightarrow> E' b = E b"
    and frameD: "\<And>k. k \<noteq> l \<Longrightarrow> D' k = D k"
    and gone: "\<And>b e. b \<in> set xs \<Longrightarrow> b \<notin> set xs' \<Longrightarrow> E' b = Some e \<Longrightarrow> e_parent e = None"
    and added: "\<And>b. b \<in> set xs' \<Longrightarrow> b \<notin> set xs \<Longrightarrow> loose E b"
  shows "rep E' D' (L(l \<mapsto> xs'))"
  unfolding rep_def
proof (intro conjI allI impI)
  fix k
  show "case (L(l \<mapsto> xs')) k of None \<Rightarrow> D' k = None | Some ys \<Rightarrow> dlist E' D' k ys"
  proof (cases "k = l")
    case True
    with new show ?thesis by simp
  next
    case False
    show ?thesis
    proof (cases "L k")
      case None
      with R False show ?thesis
        by (auto simp: rep_def frameD split: option.splits dest!: spec [where x = k])
    next
      case (Some ys)
      have same: "E' b = E b" if "b \<in> set ys" for b
        by (rule frameE, rule rep_other [OF R xs Some False added that])
      have "dlist E D k ys" by (rule rep_dlist [OF R Some])
      with same Some False show ?thesis
        by (auto simp: dlist_def frameD cong: seg_cong intro: seg_cong [THEN iffD2])
    qed
  qed
next
  fix b e k
  assume e: "E' b = Some e" and p: "e_parent e = Some k"
  show "\<exists>ys. (L(l \<mapsto> xs')) k = Some ys \<and> b \<in> set ys"
  proof (cases "b \<in> set xs'")
    case True
    then have "e_parent e = Some l"
      using seg_in [of E' l None xs' None b] new e by (auto simp: dlist_def)
    with p True show ?thesis by auto
  next
    case False
    with gone e p have "b \<notin> set xs" by force
    with False e have "E b = Some e" using frameE [of b] by simp
    with R p obtain ys where "L k = Some ys" "b \<in> set ys"
      unfolding rep_def by blast
    with \<open>b \<notin> set xs\<close> xs show ?thesis by (cases "k = l") auto
  qed
qed

section \<open>Functional behaviour of the operations\<close>

lemma list_append_rep:
  assumes R: "heap_rep h L" and xs: "L l = Some xs" and a: "loose (elms h) a"
  obtains E D where "list_append (Some l) (Some a) h = Some (h\<lparr>elms := E, hdrs := D\<rparr>)"
    and "rep E D (L(l \<mapsto> xs @ [a]))" and "dom E = dom (elms h)"
proof -
  from a obtain ap an where e: "elms h a = Some \<lparr>e_parent = None, e_prev = ap, e_next = an\<rparr>"
    by (rule looseE)
  have notin: "a \<notin> set xs" by (rule loose_notin [OF R a xs])
  have D: "hdrs h l = Some \<lparr>l_count = int32 (int (length xs)), l_head = first_or xs None,
      l_tail = last_or None xs\<rparr>" by (rule rep_hdr [OF R xs])
  have S: "seg (elms h) l None xs None" and dist: "distinct xs"
    using rep_seg [OF R xs] rep_distinct [OF R xs] by auto
  let ?D = "(hdrs h)(l \<mapsto> \<lparr>l_count = int32 (int (length (xs @ [a]))),
      l_head = first_or (xs @ [a]) None, l_tail = Some a\<rparr>)"
  let ?n = "\<lparr>e_parent = Some l, e_prev = last_or None xs, e_next = None\<rparr>"
  obtain E where op: "list_append (Some l) (Some a) h = Some (h\<lparr>elms := E, hdrs := ?D\<rparr>)"
    and seg: "seg E l None (xs @ [a]) None" and dom: "dom E = dom (elms h)"
    and frame: "\<And>b. b \<notin> set xs \<union> set (xs @ [a]) \<Longrightarrow> E b = elms h b"
  proof (cases xs rule: rev_cases)
    case Nil
    show ?thesis
      by (rule that [of "(elms h)(a \<mapsto> ?n)"])
        (use Nil e D in \<open>auto simp: list_append_def upd_elm_def upd_hdr_def add.commute\<close>)
  next
    case (snoc ys t)
    with S have t: "elms h t = Some \<lparr>e_parent = Some l, e_prev = last_or None ys, e_next = None\<rparr>"
      by simp
    from snoc notin have at: "a \<noteq> t" by auto
    from snoc dist have tys: "t \<notin> set ys" by simp
    let ?E = "(elms h)(a \<mapsto> ?n, t \<mapsto> \<lparr>e_parent = Some l, e_prev = last_or None ys, e_next = Some a\<rparr>)"
    have "list_append (Some l) (Some a) h = Some (h\<lparr>elms := ?E, hdrs := ?D\<rparr>)"
      using e D t at snoc
      by (cases ys) (auto simp: list_append_def upd_elm_def upd_hdr_def add.commute fun_upd_twist)
    moreover have "seg ?E l None (xs @ [a]) None"
      using S snoc notin tys at by (auto simp: first_or_def split: list.splits)
    ultimately show ?thesis
      by (rule that) (use snoc e t in auto)
  qed
  have "rep E ?D (L(l \<mapsto> xs @ [a]))"
  proof (rule rep_update [OF R xs])
    show "dlist E ?D l (xs @ [a])"
      using seg dist notin by (simp add: dlist_def)
  qed (use frame a in auto)
  with op dom show thesis by (intro that)
qed

lemma list_append_NULL [simp]:
  "list_append None x h = Some h" "list_append l None h = Some h"
  by (cases x; cases l; simp add: list_append_def)+

lemma list_fetch_empty:
  assumes "heap_rep h L" "L l = Some []"
  shows "list_fetch (Some l) h = Some (None, h)"
  using rep_hdr [OF assms] by (simp add: list_fetch_def)

lemma list_fetch_NULL [simp]: "list_fetch None h = Some (None, h)"
  by (simp add: list_fetch_def)

lemma list_fetch_rep:
  assumes R: "heap_rep h L" and xs: "L l = Some (x # xs)"
  obtains E D where "list_fetch (Some l) h = Some (Some x, h\<lparr>elms := E, hdrs := D\<rparr>)"
    and "rep E D (L(l \<mapsto> xs))" and "dom E = dom (elms h)" and "E x = Some zero_elm"
proof -
  have D: "hdrs h l = Some \<lparr>l_count = int32 (int (Suc (length xs))), l_head = Some x,
      l_tail = last_or None (x # xs)\<rparr>" using rep_hdr [OF R xs] by simp
  have S: "seg (elms h) l None (x # xs) None" and dist: "distinct (x # xs)"
    using rep_seg [OF R xs] rep_distinct [OF R xs] by auto
  let ?D = "(hdrs h)(l \<mapsto> \<lparr>l_count = int32 (int (length xs)), l_head = first_or xs None,
      l_tail = last_or None xs\<rparr>)"
  obtain E where op: "list_fetch (Some l) h = Some (Some x, h\<lparr>elms := E, hdrs := ?D\<rparr>)"
    and seg: "seg E l None xs None" and dom: "dom E = dom (elms h)" and x: "E x = Some zero_elm"
    and frame: "\<And>b. b \<notin> set (x # xs) \<union> set xs \<Longrightarrow> E b = elms h b"
  proof (cases xs)
    case Nil
    show ?thesis
      by (rule that [of "(elms h)(x \<mapsto> zero_elm)"])
        (use Nil S D in \<open>auto simp: list_fetch_def upd_elm_def upd_hdr_def zero_elm_def\<close>)
  next
    case (Cons y ys)
    let ?E = "(elms h)(y \<mapsto> \<lparr>e_parent = Some l, e_prev = None, e_next = first_or ys None\<rparr>, x \<mapsto> zero_elm)"
    have "list_fetch (Some l) h = Some (Some x, h\<lparr>elms := ?E, hdrs := ?D\<rparr>)"
      using S D Cons dist by (auto simp: list_fetch_def upd_elm_def upd_hdr_def zero_elm_def)
    then show ?thesis
      by (rule that) (use Cons S dist in auto)
  qed
  have "rep E ?D (L(l \<mapsto> xs))"
  proof (rule rep_update [OF R xs])
    show "dlist E ?D l xs" using seg dist by (simp add: dlist_def)
  qed (use frame x dist in \<open>auto simp: zero_elm_def\<close>)
  with op dom x show thesis by (intro that)
qed

lemma list_new_rep:
  assumes R: "heap_rep h L" and l: "L l = None"
  shows "list_new (Some l) h = (Some l, h\<lparr>hdrs := (hdrs h)(l \<mapsto> zero_hdr)\<rparr>)"
    and "rep (elms h) ((hdrs h)(l \<mapsto> zero_hdr)) (L(l \<mapsto> []))"
proof -
  show "list_new (Some l) h = (Some l, h\<lparr>hdrs := (hdrs h)(l \<mapsto> zero_hdr)\<rparr>)"
    by (simp add: list_new_def)
  have "case (L(l \<mapsto> [])) k of None \<Rightarrow> ((hdrs h)(l \<mapsto> zero_hdr)) k = None
      | Some xs \<Rightarrow> dlist (elms h) ((hdrs h)(l \<mapsto> zero_hdr)) k xs" for k
    using R by (cases "k = l")
      (auto simp: rep_def dlist_def zero_hdr_def int32_def split: option.splits dest!: spec [where x = k])
  moreover have "\<exists>xs. (L(l \<mapsto> [])) k = Some xs \<and> a \<in> set xs"
    if "elms h a = Some e" "e_parent e = Some k" for a e k
  proof -
    from R that obtain xs where "L k = Some xs" "a \<in> set xs" unfolding rep_def by blast
    with l show ?thesis by (cases "k = l") auto
  qed
  ultimately show "rep (elms h) ((hdrs h)(l \<mapsto> zero_hdr)) (L(l \<mapsto> []))"
    unfolding rep_def by blast
qed

text \<open>The same two facts as existence statements.\<close>

lemma list_append_ex:
  assumes "heap_rep h L" "L l = Some xs" "loose (elms h) a"
  shows "\<exists>E D. list_append (Some l) (Some a) h = Some (h\<lparr>elms := E, hdrs := D\<rparr>) \<and>
    rep E D (L(l \<mapsto> xs @ [a])) \<and> dom E = dom (elms h)"
  using assms by (rule list_append_rep) blast

lemma list_fetch_ex:
  assumes "heap_rep h L" "L l = Some (x # xs)"
  shows "\<exists>E D. list_fetch (Some l) h = Some (Some x, h\<lparr>elms := E, hdrs := D\<rparr>) \<and>
    rep E D (L(l \<mapsto> xs)) \<and> dom E = dom (elms h)"
  using assms by (rule list_fetch_rep) blast

lemma list_get_cnt_rep:
  assumes "heap_rep h L" "L l = Some xs"
  shows "list_get_cnt (Some l) h = Some (int32 (int (length xs)))"
  using rep_hdr [OF assms] by (simp add: list_get_cnt_def)

lemma list_get_ends_rep:
  assumes "heap_rep h L" "L l = Some xs"
  shows "list_get_first_elm (Some l) h = Some (first_or xs None)"
    and "list_get_last_elm (Some l) h = Some (last_or None xs)"
  using rep_hdr [OF assms] by (simp_all add: list_get_first_elm_def list_get_last_elm_def)

lemma list_iter_rep:
  assumes R: "heap_rep h L" and xs: "L l = Some (us @ vs)"
  shows "list_iter (Some l) (last_or None us) h = Some (first_or vs None)"
proof (cases us rule: rev_cases)
  case Nil
  with rep_hdr [OF R xs] show ?thesis by (simp add: list_iter_def)
next
  case (snoc ws u)
  with rep_seg [OF R xs] show ?thesis by (simp add: list_iter_def)
qed

lemma list_insert_front_rep:
  assumes R: "heap_rep h L" and xs: "L l = Some xs" and a: "loose (elms h) a"
  obtains E D where "list_insert (Some l) None (Some a) h = Some (h\<lparr>elms := E, hdrs := D\<rparr>)"
    and "rep E D (L(l \<mapsto> a # xs))" and "dom E = dom (elms h)"
proof -
  from a obtain ap an where e: "elms h a = Some \<lparr>e_parent = None, e_prev = ap, e_next = an\<rparr>"
    by (rule looseE)
  have notin: "a \<notin> set xs" by (rule loose_notin [OF R a xs])
  have D: "hdrs h l = Some \<lparr>l_count = int32 (int (length xs)), l_head = first_or xs None,
      l_tail = last_or None xs\<rparr>" by (rule rep_hdr [OF R xs])
  have S: "seg (elms h) l None xs None" and dist: "distinct xs"
    using rep_seg [OF R xs] rep_distinct [OF R xs] by auto
  let ?D = "(hdrs h)(l \<mapsto> \<lparr>l_count = int32 (int (length (a # xs))), l_head = Some a,
      l_tail = last_or None (a # xs)\<rparr>)"
  let ?n = "\<lparr>e_parent = Some l, e_prev = None, e_next = first_or xs None\<rparr>"
  obtain E where op: "list_insert (Some l) None (Some a) h = Some (h\<lparr>elms := E, hdrs := ?D\<rparr>)"
    and seg: "seg E l None (a # xs) None" and dom: "dom E = dom (elms h)"
    and frame: "\<And>b. b \<notin> set xs \<union> set (a # xs) \<Longrightarrow> E b = elms h b"
  proof (cases xs)
    case Nil
    show ?thesis
      by (rule that [of "(elms h)(a \<mapsto> ?n)"])
        (use Nil e D in \<open>auto simp: list_insert_def upd_elm_def upd_hdr_def add.commute\<close>)
  next
    case (Cons y ys)
    let ?E = "(elms h)(a \<mapsto> ?n, y \<mapsto> \<lparr>e_parent = Some l, e_prev = Some a, e_next = first_or ys None\<rparr>)"
    have "list_insert (Some l) None (Some a) h = Some (h\<lparr>elms := ?E, hdrs := ?D\<rparr>)"
      using e D S Cons notin by (auto simp: list_insert_def upd_elm_def upd_hdr_def add.commute)
    then show ?thesis
      by (rule that) (use Cons S dist notin e in auto)
  qed
  have "rep E ?D (L(l \<mapsto> a # xs))"
  proof (rule rep_update [OF R xs])
    show "dlist E ?D l (a # xs)" using seg dist notin by (simp add: dlist_def)
  qed (use frame a in auto)
  with op dom show thesis by (intro that)
qed

lemma list_insert_after_rep:
  assumes R: "heap_rep h L" and xs: "L l = Some (us @ p # vs)" and a: "loose (elms h) a"
  obtains E D where "list_insert (Some l) (Some p) (Some a) h = Some (h\<lparr>elms := E, hdrs := D\<rparr>)"
    and "rep E D (L(l \<mapsto> us @ p # a # vs))" and "dom E = dom (elms h)"
proof -
  from a obtain ap an where e: "elms h a = Some \<lparr>e_parent = None, e_prev = ap, e_next = an\<rparr>"
    by (rule looseE)
  have notin: "a \<notin> set (us @ p # vs)" by (rule loose_notin [OF R a xs])
  have D: "hdrs h l = Some \<lparr>l_count = int32 (int (length (us @ p # vs))),
      l_head = first_or (us @ p # vs) None, l_tail = last_or None (us @ p # vs)\<rparr>"
    by (rule rep_hdr [OF R xs])
  obtain hd0 where hd0: "first_or (us @ p # vs) None = Some hd0" by (cases us) auto
  have S: "seg (elms h) l None (us @ p # vs) None" and dist: "distinct (us @ p # vs)"
    using rep_seg [OF R xs] rep_distinct [OF R xs] by auto
  then have ep: "elms h p = Some \<lparr>e_parent = Some l, e_prev = last_or None us, e_next = first_or vs None\<rparr>"
    by simp
  let ?D = "(hdrs h)(l \<mapsto> \<lparr>l_count = int32 (int (length (us @ p # a # vs))), l_head = Some hd0,
      l_tail = last_or None (us @ p # a # vs)\<rparr>)"
  let ?E1 = "(elms h)(a \<mapsto> \<lparr>e_parent = Some l, e_prev = Some p, e_next = first_or vs None\<rparr>,
      p \<mapsto> \<lparr>e_parent = Some l, e_prev = last_or None us, e_next = Some a\<rparr>)"
  obtain E where op: "list_insert (Some l) (Some p) (Some a) h = Some (h\<lparr>elms := E, hdrs := ?D\<rparr>)"
    and seg: "seg E l None (us @ p # a # vs) None" and dom: "dom E = dom (elms h)"
    and frame: "\<And>b. b \<notin> set (us @ p # vs) \<union> set (us @ p # a # vs) \<Longrightarrow> E b = elms h b"
  proof (cases vs)
    case Nil
    have "list_insert (Some l) (Some p) (Some a) h = Some (h\<lparr>elms := ?E1, hdrs := ?D\<rparr>)"
      using Nil e ep D hd0 notin
      by (auto simp: list_insert_def upd_elm_def upd_hdr_def add.commute fun_upd_twist)
    then show ?thesis
      by (rule that) (use Nil e ep S dist notin in auto)
  next
    case (Cons v ws)
    let ?E = "?E1(v \<mapsto> \<lparr>e_parent = Some l, e_prev = Some a, e_next = first_or ws None\<rparr>)"
    have "list_insert (Some l) (Some p) (Some a) h = Some (h\<lparr>elms := ?E, hdrs := ?D\<rparr>)"
      using Cons e ep D hd0 notin S dist
      by (auto simp: list_insert_def upd_elm_def upd_hdr_def add.commute fun_upd_twist)
    then show ?thesis
      by (rule that) (use Cons e ep S dist notin in auto)
  qed
  have "rep E ?D (L(l \<mapsto> us @ p # a # vs))"
  proof (rule rep_update [OF R xs])
    show "dlist E ?D l (us @ p # a # vs)"
      using seg dist notin hd0 by (cases us) (auto simp: dlist_def)
  qed (use frame a in auto)
  with op dom show thesis by (intro that)
qed

lemma list_del_elm_rep:
  assumes R: "heap_rep h L" and xs: "L l = Some (us @ a # vs)"
  obtains E D where "list_del_elm (Some a) fr h = Some (h\<lparr>elms := E, hdrs := D\<rparr>)"
    and "rep E D (L(l \<mapsto> us @ vs))"
    and "E a = (if fr then None else Some zero_elm)"
    and "dom E = (if fr then dom (elms h) - {a} else dom (elms h))"
proof -
  have D: "hdrs h l = Some \<lparr>l_count = int32 (int (length (us @ a # vs))),
      l_head = first_or (us @ a # vs) None, l_tail = last_or None (us @ a # vs)\<rparr>"
    by (rule rep_hdr [OF R xs])
  have S: "seg (elms h) l None (us @ a # vs) None" and dist: "distinct (us @ a # vs)"
    using rep_seg [OF R xs] rep_distinct [OF R xs] by auto
  then have ea: "elms h a = Some \<lparr>e_parent = Some l, e_prev = last_or None us, e_next = first_or vs None\<rparr>"
    by simp
  let ?D = "(hdrs h)(l \<mapsto> \<lparr>l_count = int32 (int (length (us @ vs))), l_head = first_or (us @ vs) None,
      l_tail = last_or None (us @ vs)\<rparr>)"
  let ?E1 = "(if us = [] then elms h else (elms h)(last us \<mapsto>
      \<lparr>e_parent = Some l, e_prev = last_or None (butlast us), e_next = first_or vs None\<rparr>))"
  let ?E2 = "(case vs of [] \<Rightarrow> ?E1 | v # ws \<Rightarrow> ?E1(v \<mapsto>
      \<lparr>e_parent = Some l, e_prev = last_or None us, e_next = first_or ws None\<rparr>))"
  let ?E = "?E2(a := if fr then None else Some zero_elm)"
  have op: "list_del_elm (Some a) fr h = Some (h\<lparr>elms := ?E, hdrs := ?D\<rparr>)"
    using S D ea dist
    by (cases us rule: rev_cases; cases vs)
      (auto simp: list_del_elm_def upd_elm_def upd_hdr_def kfree_elm_def zero_elm_def
         add.commute fun_upd_twist split: list.splits)
  have seg: "seg ?E l None (us @ vs) None"
    using S dist by (cases us rule: rev_cases; cases vs) (auto split: list.splits)
  have frame: "?E b = elms h b" if "b \<notin> set (us @ a # vs) \<union> set (us @ vs)" for b
    using that by (auto split: list.splits)
  have dom: "dom ?E = (if fr then dom (elms h) - {a} else dom (elms h))"
    using S by (cases us rule: rev_cases; cases vs) (auto split: list.splits if_splits)
  have rp: "rep ?E ?D (L(l \<mapsto> us @ vs))"
  proof (rule rep_update [OF R xs])
    show "dlist ?E ?D l (us @ vs)" using seg dist by (simp add: dlist_def)
  qed (use frame in \<open>auto simp: zero_elm_def split: if_splits\<close>)
  have "?E a = (if fr then None else Some zero_elm)" by simp
  from op rp this dom show thesis by (rule that)
qed

section \<open>The lists as a provider of the FIFO interface\<close>

definition heap_only :: "('l, 'a, 'z) lheap_scheme \<Rightarrow> ('l, 'a, 'z) lheap_scheme \<Rightarrow> bool" where
  "heap_only h h' \<longleftrightarrow> lheap.more h' = lheap.more h"

lemma heap_onlyE:
  assumes "heap_only h h'"
  obtains E D where "h' = h\<lparr>elms := E, hdrs := D\<rparr>"
proof -
  have "h' = h\<lparr>elms := elms h', hdrs := hdrs h'\<rparr>"
    using assms by (cases h; cases h') (simp add: heap_only_def)
  then show thesis by (rule that)
qed

lemma loose_after_append:
  assumes R: "rep E D L" and R': "rep E' D' (L(l \<mapsto> xs @ [a]))" and l: "L l = Some xs"
    and a: "loose E a" and dom: "dom E' = dom E"
  shows "loose E' b \<longleftrightarrow> loose E b \<and> b \<noteq> a"
  using loose_notin [OF R a] l unfolding loose_iff [OF R] loose_iff [OF R'] dom by auto

lemma loose_after_fetch:
  assumes R: "rep E D L" and R': "rep E' D' (L(l \<mapsto> xs))" and l: "L l = Some (x # xs)"
    and dom: "dom E' = dom E" and x: "E' x = Some zero_elm"
  shows "loose E' b \<longleftrightarrow> loose E b \<or> b = x"
proof (cases "b = x")
  case True
  with x show ?thesis by (simp add: loose_def zero_elm_def)
next
  case False
  have "(\<forall>k ys. (L(l \<mapsto> xs)) k = Some ys \<longrightarrow> b \<notin> set ys) \<longleftrightarrow> (\<forall>k ys. L k = Some ys \<longrightarrow> b \<notin> set ys)"
    using l False by (metis fun_upd_apply list.set_intros(2) option.inject set_ConsD)
  with False show ?thesis unfolding loose_iff [OF R] loose_iff [OF R'] dom by blast
qed

interpretation lq: fifo_lists
  "heap_rep :: ('l, 'a, 'z) lheap_scheme \<Rightarrow> _" "\<lambda>h. loose (elms h)" heap_only list_append list_fetch list_get_cnt
proof unfold_locales
  fix h h' h'' :: "('l, 'a, 'z) lheap_scheme"
  show "heap_only h h' \<Longrightarrow> heap_only h' h'' \<Longrightarrow> heap_only h h''" by (simp add: heap_only_def)
next
  fix h :: "('l, 'a, 'z) lheap_scheme" and L l xs a
  assume "heap_rep h L" "loose (elms h) a" "L l = Some xs"
  then show "a \<notin> set xs" by (rule loose_notin)
next
  fix h :: "('l, 'a, 'z) lheap_scheme" and L l xs a
  assume R: "heap_rep h L" and l: "L l = Some xs" and a: "loose (elms h) a"
  from R l a obtain E D where op: "list_append (Some l) (Some a) h = Some (h\<lparr>elms := E, hdrs := D\<rparr>)"
    and R': "rep E D (L(l \<mapsto> xs @ [a]))" and dom: "dom E = dom (elms h)"
    by (rule list_append_rep)
  have "\<forall>b. loose E b \<longleftrightarrow> loose (elms h) b \<and> b \<noteq> a"
    using loose_after_append [OF R R' l a dom] by blast
  with op R' show "\<exists>t. list_append (Some l) (Some a) h = Some t \<and> heap_rep t (L(l \<mapsto> xs @ [a])) \<and>
      heap_only h t \<and> (\<forall>b. loose (elms t) b \<longleftrightarrow> loose (elms h) b \<and> b \<noteq> a)"
    by (auto simp: heap_only_def)
next
  fix h :: "('l, 'a, 'z) lheap_scheme" and L l x xs
  assume R: "heap_rep h L" and l: "L l = Some (x # xs)"
  from R l obtain E D where op: "list_fetch (Some l) h = Some (Some x, h\<lparr>elms := E, hdrs := D\<rparr>)"
    and R': "rep E D (L(l \<mapsto> xs))" and dom: "dom E = dom (elms h)" and x: "E x = Some zero_elm"
    by (rule list_fetch_rep)
  have "\<forall>b. loose E b \<longleftrightarrow> loose (elms h) b \<or> b = x"
    using loose_after_fetch [OF R R' l dom x] by blast
  with op R' show "\<exists>t. list_fetch (Some l) h = Some (Some x, t) \<and> heap_rep t (L(l \<mapsto> xs)) \<and>
      heap_only h t \<and> (\<forall>b. loose (elms t) b \<longleftrightarrow> loose (elms h) b \<or> b = x)"
    by (auto simp: heap_only_def)
qed (rule list_fetch_empty list_get_cnt_rep; assumption)+

section \<open>Loops over a list\<close>

lemma search_loop_seg:
  "seg (elms h) l p xs None \<Longrightarrow> search_loop cmp (first_or xs None) h = Some (find cmp xs)"
  by (induction xs arbitrary: p) (auto simp: search_loop.simps)

lemma list_search_rep:
  assumes "heap_rep h L" "L l = Some xs"
  shows "list_search (Some l) arg (Some cmp) h = Some (find (cmp arg) xs)"
  using rep_hdr [OF assms] search_loop_seg [OF rep_seg [OF assms]]
  by (simp add: list_search_def)

lemma get_idx_loop_None [simp]: "get_idx_loop n None h = Some None"
  by (cases n) simp_all

lemma get_idx_loop_seg:
  "seg (elms h) l p xs None \<Longrightarrow>
     get_idx_loop n (first_or xs None) h = Some (if n < length xs then Some (xs ! n) else None)"
proof (induction xs arbitrary: n p)
  case Nil
  then show ?case by simp
next
  case (Cons x xs)
  then show ?case by (cases n) auto
qed

lemma list_get_idx_rep:
  assumes R: "heap_rep h L" and l: "L l = Some xs" and len: "length xs < 2 ^ 31"
  shows "list_get_idx (Some l) idx h =
    Some (if 0 \<le> idx \<and> nat idx < length xs then Some (xs ! nat idx) else None)"
proof -
  have "int32 (int (length xs)) = int (length xs)"
    using len by (intro int32_id) auto
  then show ?thesis
    using rep_hdr [OF R l] get_idx_loop_seg [OF rep_seg [OF R l]]
    by (auto simp: list_get_idx_def)
qed

text \<open>\<open>list_cleanup\<close>: the callback sees every element once, in order; \<open>P\<close> relates what is
  still on the list to the state.\<close>

lemma cleanup_loop_rule:
  assumes "P xs h"
    and "\<And>x ys h. P (x # ys) h \<Longrightarrow>
      \<exists>h1 h2. list_fetch l h = Some (Some x, h1) \<and> f x h1 = Some h2 \<and> P ys h2"
    and "\<And>h. P [] h \<Longrightarrow> list_fetch l h = Some (None, h)"
  shows "\<exists>h'. cleanup_loop l f h = Some h' \<and> P [] h'"
  using assms(1)
proof (induction xs arbitrary: h)
  case Nil
  with assms(3) show ?case by (auto simp: cleanup_loop.simps)
next
  case (Cons x ys)
  from assms(2) [OF Cons.prems] obtain h1 h2 where
    h1: "list_fetch l h = Some (Some x, h1)" "f x h1 = Some h2" and P: "P ys h2" by blast
  from Cons.IH [OF P] h1 show ?case by (subst cleanup_loop.simps) auto
qed

text \<open>The loop of \<open>list_insert_sort\<close>: the new element goes before the first element that
  \<open>cmp\<close> accepts.\<close>

lemma insert_sort_loop_rep:
  assumes R: "heap_rep h L" and a: "loose (elms h) a"
  shows "L l = Some (us @ vs) \<Longrightarrow>
    \<exists>E D. insert_sort_loop (Some l) cmp a (last_or None us) h = Some (h\<lparr>elms := E, hdrs := D\<rparr>) \<and>
      rep E D (L(l \<mapsto> us @ takeWhile (\<lambda>x. \<not> cmp x a) vs @ a # dropWhile (\<lambda>x. \<not> cmp x a) vs))
      \<and> dom E = dom (elms h)"
proof (induction vs arbitrary: us)
  case Nil
  then have l: "L l = Some us" by simp
  from R l a obtain E D where "list_append (Some l) (Some a) h = Some (h\<lparr>elms := E, hdrs := D\<rparr>)"
    "rep E D (L(l \<mapsto> us @ [a]))" "dom E = dom (elms h)" by (rule list_append_rep)
  with list_iter_rep [OF R, of l us "[]"] l show ?case
    by (subst insert_sort_loop.simps) auto
next
  case (Cons v vs)
  have it: "list_iter (Some l) (last_or None us) h = Some (Some v)"
    using list_iter_rep [OF R Cons.prems] by simp
  show ?case
  proof (cases "cmp v a")
    case False
    from Cons.IH [of "us @ [v]"] Cons.prems False it show ?thesis
      by (subst insert_sort_loop.simps) (simp add: fun_upd_def)
  next
    case True
    obtain E D where ins: "list_insert (Some l) (last_or None us) (Some a) h = Some (h\<lparr>elms := E, hdrs := D\<rparr>)"
      and "rep E D (L(l \<mapsto> us @ a # v # vs))" "dom E = dom (elms h)"
    proof (cases us rule: rev_cases)
      case Nil
      then have "L l = Some (v # vs)" using Cons.prems by simp
      with R obtain E D where "list_insert (Some l) None (Some a) h = Some (h\<lparr>elms := E, hdrs := D\<rparr>)"
        "rep E D (L(l \<mapsto> a # v # vs))" "dom E = dom (elms h)"
        using a by (rule list_insert_front_rep)
      with Nil show ?thesis by (intro that [of D E]) simp_all
    next
      case (snoc ws u)
      then have "L l = Some (ws @ u # v # vs)" using Cons.prems by simp
      with R obtain E D where "list_insert (Some l) (Some u) (Some a) h = Some (h\<lparr>elms := E, hdrs := D\<rparr>)"
        "rep E D (L(l \<mapsto> ws @ u # a # v # vs))" "dom E = dom (elms h)"
        using a by (rule list_insert_after_rep)
      with snoc show ?thesis by (intro that [of D E]) simp_all
    qed
    with True it show ?thesis by (subst insert_sort_loop.simps) auto
  qed
qed

lemma list_insert_sort_rep:
  assumes R: "heap_rep h L" and l: "L l = Some xs" and a: "loose (elms h) a"
  obtains E D where
    "list_insert_sort (Some l) (Some a) (Some cmp) h = Some (h\<lparr>elms := E, hdrs := D\<rparr>)"
    and "rep E D (L(l \<mapsto> (if xs \<noteq> [] \<and> \<not> cmp (last xs) a then xs @ [a]
            else takeWhile (\<lambda>x. \<not> cmp x a) xs @ a # dropWhile (\<lambda>x. \<not> cmp x a) xs)))"
    and "dom E = dom (elms h)"
proof (cases "xs \<noteq> [] \<and> \<not> cmp (last xs) a")
  case True
  from R l a obtain E D where "list_append (Some l) (Some a) h = Some (h\<lparr>elms := E, hdrs := D\<rparr>)"
    "rep E D (L(l \<mapsto> xs @ [a]))" "dom E = dom (elms h)" by (rule list_append_rep)
  with True list_get_ends_rep(2) [OF R l] that show thesis
    by (auto simp: list_insert_sort_def last_or_def)
next
  case False
  from insert_sort_loop_rep [OF R a, of l "[]" xs cmp] l obtain E D where
    "insert_sort_loop (Some l) cmp a None h = Some (h\<lparr>elms := E, hdrs := D\<rparr>)"
    "rep E D (L(l \<mapsto> takeWhile (\<lambda>x. \<not> cmp x a) xs @ a # dropWhile (\<lambda>x. \<not> cmp x a) xs))"
    "dom E = dom (elms h)" by auto
  with False list_get_ends_rep(2) [OF R l] that show thesis
    by (auto simp: list_insert_sort_def last_or_def)
qed

text \<open>The macro \<open>list_foreach\<close>: the elements in the order \<open>list_iter\<close> visits them.\<close>

partial_function (option) list_foreach ::
  "'l option \<Rightarrow> 'a option \<Rightarrow> ('l, 'a, 'z) lheap_scheme \<Rightarrow> 'a list option" where
  "list_foreach list prev h =
     (case list_iter list prev h of
        None \<Rightarrow> None
      | Some None \<Rightarrow> Some []
      | Some (Some a) \<Rightarrow> do { r \<leftarrow> list_foreach list (Some a) h; Some (a # r) })"

lemma list_foreach_rep:
  "heap_rep h L \<Longrightarrow> L l = Some (us @ vs) \<Longrightarrow> list_foreach (Some l) (last_or None us) h = Some vs"
proof (induction vs arbitrary: us)
  case Nil
  with list_iter_rep [OF Nil.prems] show ?case by (subst list_foreach.simps) simp
next
  case (Cons v vs)
  from Cons.IH [of "us @ [v]"] Cons.prems list_iter_rep [OF Cons.prems]
  show ?case by (subst list_foreach.simps) simp
qed

corollary rep_foreach:
  "heap_rep h L \<Longrightarrow> L l = Some xs \<Longrightarrow> list_foreach (Some l) None h = Some xs"
  using list_foreach_rep [of h L l "[]" xs] by simp

text \<open>\<open>list_print\<close>: the line handed to \<open>pr_info\<close>. \<open>hdr\<close> and \<open>item\<close> stand for \<open>%p\<close>, the text of the head
  and of an element. The header's length is what \<open>snprintf\<close> returns, stored or not; \<open>scnprintf\<close>
  returns what it stored.\<close>

partial_function (option) list_print_loop ::
  "'l option \<Rightarrow> ('a \<Rightarrow> string) \<Rightarrow> 'a option \<Rightarrow> nat \<Rightarrow> string \<Rightarrow> ('l, 'a, 'z) lheap_scheme \<Rightarrow> string option" where
  "list_print_loop list item node idx print_buf h =
     (case list_iter list node h of
        None \<Rightarrow> None
      | Some None \<Rightarrow> Some print_buf
      | Some (Some a) \<Rightarrow>
          (if idx < 512
           then let s = take (511 - idx) (item a) in
             list_print_loop list item (Some a) (idx + length s) (print_buf @ s) h
           else Some print_buf))"

definition list_print ::
  "'l option \<Rightarrow> ('l option \<Rightarrow> int \<Rightarrow> string) \<Rightarrow> ('a \<Rightarrow> string) \<Rightarrow> ('l, 'a, 'z) lheap_scheme \<Rightarrow> string option" where
  "list_print list hdr item h = do {
     n \<leftarrow> list_get_cnt list h;
     list_print_loop list item None (length (hdr list n)) (take 511 (hdr list n)) h }"

lemma list_print_loop_rep:
  "heap_rep h L \<Longrightarrow> L l = Some (us @ vs) \<Longrightarrow> length buf \<le> 511 \<Longrightarrow>
     list_print_loop (Some l) item (last_or None us) (length buf) buf h = Some (take 511 (buf @ concat (map item vs)))"
proof (induction vs arbitrary: us buf)
  case Nil
  with list_iter_rep [OF Nil.prems(1,2)] show ?case by (subst list_print_loop.simps) simp
next
  case (Cons v vs)
  let ?b = "buf @ take (511 - length buf) (item v)"
  have "list_print_loop (Some l) item (last_or None us) (length buf) buf h
      = list_print_loop (Some l) item (Some v) (length ?b) ?b h"
    using list_iter_rep [OF Cons.prems(1,2)] Cons.prems(3) by (subst list_print_loop.simps) (simp add: Let_def)
  also have "\<dots> = Some (take 511 (?b @ concat (map item vs)))"
    using Cons.IH [of "us @ [v]" ?b] Cons.prems by simp
  also have "take 511 (?b @ concat (map item vs)) = take 511 (buf @ concat (map item (v # vs)))"
    using Cons.prems(3) by (simp add: min_def)
  finally show ?case .
qed

text \<open>It walks the whole list, stays within its 512 bytes, and prints as much as fits.\<close>

lemma list_print_rep:
  assumes R: "heap_rep h L" and l: "L l = Some xs"
  shows "list_print (Some l) hdr item h
    = Some (take 511 (hdr (Some l) (int32 (int (length xs))) @ concat (map item xs)))"
proof -
  let ?t = "hdr (Some l) (int32 (int (length xs)))"
  have n: "list_print (Some l) hdr item h = list_print_loop (Some l) item None (length ?t) (take 511 ?t) h"
    using list_get_cnt_rep [OF R l] by (simp add: list_print_def)
  show ?thesis
  proof (cases "length ?t \<le> 511")
    case True
    with list_print_loop_rep [of h L l "[]" xs ?t item] R l n show ?thesis by simp
  next
    case False
    with list_iter_rep [of h L l "[]" xs] R l n show ?thesis
      by (subst n, subst list_print_loop.simps) (simp split: option.split)
  qed
qed

lemma rep_unique:
  assumes R: "heap_rep h L" and R': "heap_rep h L'"
  shows "L = L'"
proof
  fix l
  show "L l = L' l"
  proof (cases "hdrs h l")
    case None
    with rep_None_iff [OF R, of l] rep_None_iff [OF R', of l] show ?thesis by simp
  next
    case (Some d)
    then obtain xs ys where "L l = Some xs" "L' l = Some ys"
      using rep_None_iff [OF R, of l] rep_None_iff [OF R', of l] by auto
    with rep_foreach [OF R, of l xs] rep_foreach [OF R', of l ys] show ?thesis by simp
  qed
qed

text \<open>\<open>list_iter_do\<close> reads the successor before the callback runs and empties the header
  afterwards.\<close>

lemma iter_do_kfree_seg:
  "seg (elms h) l p xs None \<Longrightarrow> distinct xs \<Longrightarrow>
     iter_do_loop kfree_elm (first_or xs None) h
       = Some (h\<lparr>elms := \<lambda>b. if b \<in> set xs then None else elms h b\<rparr>)"
proof (induction xs arbitrary: h p)
  case Nil
  then show ?case by (simp add: iter_do_loop.simps)
next
  case (Cons x xs)
  let ?h = "h\<lparr>elms := (elms h)(x := None)\<rparr>"
  have "seg (elms ?h) l (Some x) xs None" using Cons.prems by simp
  moreover have "distinct xs" using Cons.prems by simp
  ultimately have "iter_do_loop kfree_elm (first_or xs None) ?h
      = Some (?h\<lparr>elms := \<lambda>b. if b \<in> set xs then None else elms ?h b\<rparr>)"
    by (rule Cons.IH)
  moreover have "(\<lambda>b. if b \<in> set xs then None else elms ?h b)
      = (\<lambda>b. if b \<in> set (x # xs) then None else elms h b)" by auto
  moreover have "iter_do_loop kfree_elm (first_or (x # xs) None) h
      = iter_do_loop kfree_elm (first_or xs None) ?h"
    using Cons.prems by (subst iter_do_loop.simps) (simp add: kfree_elm_def)
  ultimately have "iter_do_loop kfree_elm (first_or (x # xs) None) h
      = Some (?h\<lparr>elms := \<lambda>b. if b \<in> set (x # xs) then None else elms h b\<rparr>)" by metis
  then show ?case by simp
qed

lemma iter_do_skip_seg:
  "seg (elms h) l p xs None \<Longrightarrow> iter_do_loop (\<lambda>_. Some) (first_or xs None) h = Some h"
  by (induction xs arbitrary: p) (auto simp: iter_do_loop.simps)

section \<open>Cleaning up without a callback\<close>

lemma rep_kfree:
  assumes R: "rep E D L" and a: "loose E a"
  shows "rep (E(a := None)) D L"
proof -
  have n: "a \<notin> set xs" if "L l = Some xs" for l xs by (rule loose_notin [OF R a that])
  have "dlist (E(a := None)) D l xs" if "L l = Some xs" for l xs
    using rep_dlist [OF R that] n [OF that] by (simp add: dlist_def)
  moreover have "D l = None" if "L l = None" for l using rep_None_iff [OF R] that by blast
  moreover have "\<exists>xs. L l = Some xs \<and> b \<in> set xs"
    if "(E(a := None)) b = Some e" "e_parent e = Some l" for b e l
    using that R unfolding rep_def by (cases "b = a") auto
  ultimately show ?thesis by (auto simp: rep_def split: option.splits)
qed

lemma cleanup_kfree_loop:
  "heap_rep h L \<Longrightarrow> L l = Some xs \<Longrightarrow>
     \<exists>E D. cleanup_loop (Some l) kfree_elm h = Some (h\<lparr>elms := E, hdrs := D\<rparr>) \<and> rep E D (L(l \<mapsto> [])) \<and>
       dom E = dom (elms h) - set xs"
proof (induction xs arbitrary: h L)
  case Nil
  from list_fetch_empty [OF Nil] have "cleanup_loop (Some l) kfree_elm h = Some h"
    by (simp add: cleanup_loop.simps)
  with Nil show ?case
    by (intro exI [of _ "elms h"] exI [of _ "hdrs h"]) (auto simp: fun_upd_idem)
next
  case (Cons x xs)
  from Cons.prems obtain E D where
    f: "list_fetch (Some l) h = Some (Some x, h\<lparr>elms := E, hdrs := D\<rparr>)" and
    R: "rep E D (L(l \<mapsto> xs))" and d: "dom E = dom (elms h)" and e: "E x = Some zero_elm"
    by (rule list_fetch_rep)
  let ?h = "h\<lparr>elms := E(x := None), hdrs := D\<rparr>"
  have "loose E x" using e by (simp add: loose_def zero_elm_def)
  with R have "heap_rep ?h (L(l \<mapsto> xs))" by (simp add: rep_kfree)
  from Cons.IH [OF this fun_upd_same] obtain E' D' where
    r: "cleanup_loop (Some l) kfree_elm ?h = Some (?h\<lparr>elms := E', hdrs := D'\<rparr>)"
    "rep E' D' (L(l \<mapsto> xs, l \<mapsto> []))" "dom E' = dom (elms ?h) - set xs" by blast
  have "cleanup_loop (Some l) kfree_elm h = cleanup_loop (Some l) kfree_elm ?h"
    using f e by (subst cleanup_loop.simps) (cases h; simp add: kfree_elm_def)
  moreover have "dom E' = dom (elms h) - set (x # xs)" using r(3) d by auto
  moreover have "rep E' D' (L(l \<mapsto> []))" using r(2) by simp
  moreover have "?h\<lparr>elms := E', hdrs := D'\<rparr> = h\<lparr>elms := E', hdrs := D'\<rparr>" by simp
  ultimately show ?case using r(1) by metis
qed

text \<open>In a list sorted by a key, the elements up to a key come first.\<close>

lemma sorted_key_split:
  fixes key :: "'a \<Rightarrow> 'k::linorder"
  assumes "sorted (map key xs)"
  shows "takeWhile (\<lambda>x. key x \<le> k) xs = filter (\<lambda>x. key x \<le> k) xs \<and>
    dropWhile (\<lambda>x. key x \<le> k) xs = filter (\<lambda>x. k < key x) xs"
  using assms
proof (induction xs)
  case (Cons x xs)
  show ?case
  proof (cases "key x \<le> k")
    case False
    with Cons.prems have gt: "\<forall>y \<in> set (x # xs). k < key y" by auto
    then have "filter (\<lambda>x. key x \<le> k) (x # xs) = []" "filter (\<lambda>x. k < key x) (x # xs) = x # xs"
      unfolding filter_empty_conv filter_id_conv by auto
    with False show ?thesis by simp
  qed (use Cons in auto)
qed simp

section \<open>Properties\<close>

text \<open>Two example heaps: elements 1, 2, 3 and an empty list; the list \<open>[1, 3]\<close> beside 2.\<close>

definition heap0 :: "(nat, nat) lheap" where
  "heap0 = \<lparr>elms = (\<lambda>a. if a = 1 \<or> a = 2 \<or> a = 3 then Some zero_elm else None), hdrs = [0 \<mapsto> zero_hdr]\<rparr>"

definition heap1 :: "(nat, nat) lheap" where
  "heap1 = \<lparr>elms = [1 \<mapsto> \<lparr>e_parent = Some 0, e_prev = None, e_next = Some 3\<rparr>, 2 \<mapsto> zero_elm,
       3 \<mapsto> \<lparr>e_parent = Some 0, e_prev = Some 1, e_next = None\<rparr>],
     hdrs = [0 \<mapsto> \<lparr>l_count = 2, l_head = Some 1, l_tail = Some 3\<rparr>]\<rparr>"

lemma heap0_rep: "heap_rep heap0 [0 \<mapsto> []]" "loose (elms heap0) 1" "loose (elms heap0) 2"
  by (auto simp: heap0_def rep_def dlist_def zero_elm_def zero_hdr_def int32_def loose_def
      split: option.splits if_splits)

lemma heap1_rep: "heap_rep heap1 [0 \<mapsto> [1, 3]]" "loose (elms heap1) 2"
  by (auto simp: heap1_def rep_def dlist_def zero_elm_def int32_id loose_def
      split: option.splits if_splits)

text \<open>C33: any session of \<open>list_append\<close> and \<open>list_fetch\<close> on one list of a heap, of elements that
  are off every list when they are appended, returns what a FIFO queue returns, and leaves the
  queue's contents linked on the list, in order; every other list is as it was.\<close>

theorem list_session_fifo:
  assumes "heap_rep h L" "L l = Some q" "fifo_ok ops q" "\<forall>a \<in> fifo_puts ops. loose (elms h) a \<or> a \<in> set q"
  shows "\<exists>t. fifo_exec (\<lambda>a. list_append (Some l) (Some a)) (list_fetch (Some l)) ops h
      = Some (fst (fifo_spec ops q), t) \<and>
    list_foreach (Some l) None t = Some (snd (fifo_spec ops q)) \<and>
    (\<forall>k xs. k \<noteq> l \<longrightarrow> L k = Some xs \<longrightarrow> list_foreach (Some k) None t = Some xs)"
proof -
  from lq.session [OF assms] obtain t where
    t: "fifo_exec (\<lambda>a. list_append (Some l) (Some a)) (list_fetch (Some l)) ops h = Some (fst (fifo_spec ops q), t)"
    and R: "heap_rep t (L(l \<mapsto> snd (fifo_spec ops q)))" by blast
  have "list_foreach (Some l) None t = Some (snd (fifo_spec ops q))" using rep_foreach [OF R, of l] by simp
  moreover have "list_foreach (Some k) None t = Some xs" if "k \<noteq> l" "L k = Some xs" for k xs
    using rep_foreach [OF R, of k xs] that by simp
  ultimately show ?thesis using t by blast
qed

theorem list_session_fifo_witness:
  "\<exists>t. fifo_exec (\<lambda>a. list_append (Some 0) (Some a)) (list_fetch (Some 0)) [Put 1, Put 2, Get, Get, Get, Put 1] heap0
      = Some ([Some 1, Some 2, None], t) \<and> list_foreach (Some 0) None t = Some [1]"
proof -
  have "fifo_ok [Put 1, Put 2, Get, Get, Get, Put (1::nat)] []"
    "\<forall>a \<in> fifo_puts [Put 1, Put 2, Get, Get, Get, Put (1::nat)]. loose (elms heap0) a \<or> a \<in> set []"
    using heap0_rep by simp_all
  from list_session_fifo [OF heap0_rep(1) _ this, of 0] show ?thesis by auto
qed

text \<open>C35: \<open>list_insert_sort\<close> into a list that is sorted by a key, with the comparison
  "greater than the new element", keeps it sorted and is stable: the new element goes after
  every element with a smaller or equal key and before every element with a greater one.\<close>

theorem list_insert_sort_stable:
  fixes key :: "'a \<Rightarrow> 'k::linorder"
  assumes R: "heap_rep h L" and l: "L l = Some xs" and a: "loose (elms h) a" and srt: "sorted (map key xs)"
  shows "\<exists>t. list_insert_sort (Some l) (Some a) (Some (\<lambda>x n. key n < key x)) h = Some t \<and>
    list_foreach (Some l) None t = Some (filter (\<lambda>x. key x \<le> key a) xs @ a # filter (\<lambda>x. key a < key x) xs) \<and>
    sorted (map key (filter (\<lambda>x. key x \<le> key a) xs @ a # filter (\<lambda>x. key a < key x) xs))"
proof -
  let ?lo = "filter (\<lambda>x. key x \<le> key a) xs" and ?hi = "filter (\<lambda>x. key a < key x) xs"
  have tw: "takeWhile (\<lambda>x. key x \<le> key a) xs = ?lo \<and> dropWhile (\<lambda>x. key x \<le> key a) xs = ?hi"
    by (rule sorted_key_split [OF srt])
  have last: "xs = ?lo \<and> ?hi = []" if "xs \<noteq> []" "\<not> key a < key (last xs)"
  proof -
    have "key x \<le> key (last xs)" if "x \<in> set xs" for x
      using srt that \<open>xs \<noteq> []\<close> by (induction xs) (auto simp: last_conv_nth)
    with that(2) have "\<forall>x \<in> set xs. key x \<le> key a" by (meson leI order_trans)
    then show ?thesis by (auto simp: filter_empty_conv filter_id_conv not_less)
  qed
  from R l a obtain E D where op:
    "list_insert_sort (Some l) (Some a) (Some (\<lambda>x n. key n < key x)) h = Some (h\<lparr>elms := E, hdrs := D\<rparr>)"
    and R': "rep E D (L(l \<mapsto> (if xs \<noteq> [] \<and> \<not> key a < key (last xs) then xs @ [a]
      else takeWhile (\<lambda>x. \<not> key a < key x) xs @ a # dropWhile (\<lambda>x. \<not> key a < key x) xs)))"
    by (rule list_insert_sort_rep [where cmp = "\<lambda>x n. key n < key x"])
  have "(if xs \<noteq> [] \<and> \<not> key a < key (last xs) then xs @ [a]
      else takeWhile (\<lambda>x. \<not> key a < key x) xs @ a # dropWhile (\<lambda>x. \<not> key a < key x) xs) = ?lo @ a # ?hi"
    using last tw by (auto simp: not_less)
  with R' have "heap_rep (h\<lparr>elms := E, hdrs := D\<rparr>) (L(l \<mapsto> ?lo @ a # ?hi))" by simp
  then have "list_foreach (Some l) None (h\<lparr>elms := E, hdrs := D\<rparr>) = Some (?lo @ a # ?hi)"
    by (rule rep_foreach) simp
  moreover have "sorted (map key (?lo @ a # ?hi))"
    using srt by (auto simp: sorted_append sorted_filter intro: less_imp_le order_trans)
  ultimately show ?thesis using op by blast
qed

theorem list_insert_sort_stable_witness:
  "\<exists>t. list_insert_sort (Some 0) (Some 2) (Some (\<lambda>x n. n < x)) heap1 = Some t \<and>
     list_foreach (Some 0) None t = Some [1, 2, 3]"
  using list_insert_sort_stable [OF heap1_rep(1) _ heap1_rep(2), of 0 "[1, 3]" "\<lambda>x. x"] by simp

text \<open>\<open>list_del_elm\<close> takes one element out of the middle of any list: the neighbours are
  linked to each other, head, tail and count are right, the element is loose (or, with
  \<open>free\<close>, no longer allocated), and every other list is as it was.\<close>

theorem list_del_elm_unlinks:
  assumes R: "heap_rep h L" and l: "L l = Some (us @ a # vs)" and len: "length (us @ vs) < 2 ^ 31"
  shows "\<exists>t. list_del_elm (Some a) fr h = Some t \<and> list_foreach (Some l) None t = Some (us @ vs) \<and>
    list_get_cnt (Some l) t = Some (int (length (us @ vs))) \<and>
    list_get_first_elm (Some l) t = Some (first_or (us @ vs) None) \<and>
    list_get_last_elm (Some l) t = Some (last_or None (us @ vs)) \<and>
    (if fr then elms t a = None else loose (elms t) a) \<and>
    (\<forall>k xs. k \<noteq> l \<longrightarrow> L k = Some xs \<longrightarrow> list_foreach (Some k) None t = Some xs)"
proof -
  from R l obtain E D where op: "list_del_elm (Some a) fr h = Some (h\<lparr>elms := E, hdrs := D\<rparr>)"
    and R': "rep E D (L(l \<mapsto> us @ vs))" and a: "E a = (if fr then None else Some zero_elm)"
    by (rule list_del_elm_rep)
  let ?t = "h\<lparr>elms := E, hdrs := D\<rparr>"
  have H: "heap_rep ?t (L(l \<mapsto> us @ vs))" using R' by simp
  note F = rep_foreach [OF H, of l, OF fun_upd_same] list_get_cnt_rep [OF H, of l, OF fun_upd_same]
    list_get_ends_rep [OF H, of l, OF fun_upd_same]
  have i: "int32 (int (length (us @ vs))) = int (length (us @ vs))" using len by (intro int32_id) auto
  have "list_foreach (Some k) None ?t = Some xs" if "k \<noteq> l" "L k = Some xs" for k xs
    using rep_foreach [OF H, of k xs] that by simp
  moreover have "if fr then elms ?t a = None else loose (elms ?t) a"
    using a by (simp add: loose_def zero_elm_def)
  ultimately show ?thesis using op F unfolding i by blast
qed

theorem list_del_elm_unlinks_witness:
  "\<exists>t. list_del_elm (Some 1) True heap1 = Some t \<and> list_foreach (Some 0) None t = Some [3] \<and>
     list_get_cnt (Some 0) t = Some 1 \<and> list_get_first_elm (Some 0) t = Some (Some 3) \<and> elms t 1 = None"
proof -
  have l: "[0 \<mapsto> [1, 3]] 0 = Some ([] @ 1 # [3::nat])" and n: "length ([] @ [3::nat]) < 2 ^ 31" by simp_all
  from list_del_elm_unlinks [OF heap1_rep(1) l n, of True] show ?thesis by auto
qed

text \<open>\<open>list_cleanup\<close> without a callback frees exactly the elements of the list, each once
  (a second \<open>kfree\<close> would fault), ends, and leaves the list empty and the others alone.\<close>

theorem list_cleanup_frees:
  assumes R: "heap_rep h L" and l: "L l = Some xs"
  shows "\<exists>t. list_cleanup (Some l) None h = Some t \<and> list_get_cnt (Some l) t = Some 0 \<and>
    list_foreach (Some l) None t = Some [] \<and> dom (elms t) = dom (elms h) - set xs \<and>
    (\<forall>k ys. k \<noteq> l \<longrightarrow> L k = Some ys \<longrightarrow> list_foreach (Some k) None t = Some ys)"
proof -
  from cleanup_kfree_loop [OF R l] obtain E D where
    op: "cleanup_loop (Some l) kfree_elm h = Some (h\<lparr>elms := E, hdrs := D\<rparr>)"
    and R': "rep E D (L(l \<mapsto> []))" and d: "dom E = dom (elms h) - set xs" by blast
  let ?t = "h\<lparr>elms := E, hdrs := D\<rparr>"
  have H: "heap_rep ?t (L(l \<mapsto> []))" using R' by simp
  have "list_foreach (Some k) None ?t = Some ys" if "k \<noteq> l" "L k = Some ys" for k ys
    using rep_foreach [OF H, of k ys] that by simp
  moreover have "list_get_cnt (Some l) ?t = Some 0" "list_foreach (Some l) None ?t = Some []"
    using list_get_cnt_rep [OF H, of l, OF fun_upd_same] rep_foreach [OF H, of l, OF fun_upd_same]
    by (simp_all add: int32_def)
  ultimately show ?thesis using op d by (intro exI [of _ ?t]) (simp add: list_cleanup_def)
qed

theorem list_cleanup_frees_witness:
  "\<exists>t. list_cleanup (Some 0) None heap1 = Some t \<and> list_get_cnt (Some 0) t = Some 0 \<and> dom (elms t) = {2}"
proof -
  have "dom (elms heap1) - set [1, 3] = {2}" by (auto simp: heap1_def)
  with list_cleanup_frees [OF heap1_rep(1), of 0 "[1, 3]"] show ?thesis by auto
qed

text \<open>\<open>list_search\<close> returns the first element the comparison accepts, and \<open>list_get_idx\<close>
  the element at an index, NULL exactly when there is none (a negative index included).\<close>

theorem list_lookup:
  assumes "heap_rep h L" "L l = Some xs" "length xs < 2 ^ 31"
  shows "list_search (Some l) arg (Some cmp) h = Some (find (cmp arg) xs) \<and>
    list_get_idx (Some l) idx h = Some (if 0 \<le> idx \<and> idx < int (length xs) then Some (xs ! nat idx) else None)"
  using list_search_rep [OF assms(1,2), of arg cmp] list_get_idx_rep [OF assms, of idx]
  by (auto simp: nat_less_iff)

theorem list_lookup_witness:
  "list_search (Some 0) 3 (Some (=)) heap1 = Some (Some 3) \<and> list_get_idx (Some 0) 1 heap1 = Some (Some 3)"
  using list_lookup [OF heap1_rep(1), of 0 "[1, 3]" 3 "(=)" 1] by simp

text \<open>A defect of \<open>list_iter_do\<close>. It empties the header without clearing the parent of the
  elements, so an element that its callback keeps can be deleted "again": after
  \<open>list_iter_do\<close> on a one-element list, \<open>list_del_elm\<close> of that element makes the count -1.\<close>

theorem list_iter_do_stale_parent:
  assumes R: "heap_rep h L" and l: "L l = Some [a]"
  shows "\<exists>t u. list_iter_do (Some l) (Some (\<lambda>_. Some)) h = Some t \<and> list_get_cnt (Some l) t = Some 0 \<and>
    list_del_elm (Some a) False t = Some u \<and> list_get_cnt (Some l) u = Some (- 1)"
proof -
  have D: "hdrs h l = Some \<lparr>l_count = 1, l_head = Some a, l_tail = Some a\<rparr>"
    using rep_hdr [OF R l] by (simp add: int32_id)
  have S: "seg (elms h) l None [a] None" by (rule rep_seg [OF R l])
  then have e: "elms h a = Some \<lparr>e_parent = Some l, e_prev = None, e_next = None\<rparr>" by simp
  have "iter_do_loop (\<lambda>_. Some) (Some a) h = Some h" using iter_do_skip_seg [OF S] by simp
  then show ?thesis
    using D e by (simp add: list_iter_do_def upd_hdr_def list_get_cnt_def list_del_elm_def upd_elm_def int32_id)
qed

theorem list_iter_do_stale_parent_witness:
  "\<exists>(h :: (nat, nat) lheap) t u. heap_rep h [0 \<mapsto> [1]] \<and> list_iter_do (Some 0) (Some (\<lambda>_. Some)) h = Some t \<and>
     list_del_elm (Some 1) False t = Some u \<and> list_get_cnt (Some 0) u = Some (- 1)"
proof -
  have a: "[0::nat \<mapsto> []] 0 = Some ([]::nat list)" by simp
  from list_append_ex [OF heap0_rep(1) a heap0_rep(2)] obtain E D where
    "rep E D ([0::nat \<mapsto> []](0 \<mapsto> [] @ [1::nat]))" by blast
  then have H: "heap_rep (heap0\<lparr>elms := E, hdrs := D\<rparr>) [0 \<mapsto> [1]]" by simp
  from list_iter_do_stale_parent [OF H fun_upd_same] H show ?thesis by blast
qed

end
