(* ===== verification/Ring_Queue.thy ===== *)
theory Ring_Queue
  imports Fifo_Interface
begin

text \<open>
  The array queue of \<open>src/queue.c\<close> and \<open>src/queue.h\<close>: a head index, a tail index and an
  array of \<open>q_sz\<close> pointers (\<open>None\<close> is the NULL pointer). The file is in the repository
  but not in the module's object list; the driver keeps its buffers on the lists of
  \<open>list.c\<close> instead. An array access outside the allocation is a fault (\<open>None\<close>).
\<close>

record 'a que =
  q_sz :: int
  q_head :: int
  q_tail :: int
  q_mem :: "'a option list"

definition calc_que_sz :: "'a que \<Rightarrow> int" where
  "calc_que_sz q =
     (if q_head q = q_tail q then 0
      else if q_tail q > q_head q then int32 (q_tail q - q_head q)
      else int32 (q_sz q - q_head q + q_tail q))"

definition is_full :: "'a que \<Rightarrow> bool" where
  "is_full q \<longleftrightarrow> calc_que_sz q = q_sz q"

definition is_empty :: "'a que \<Rightarrow> bool" where
  "is_empty q \<longleftrightarrow> calc_que_sz q = 0"

text \<open>\<open>que_new\<close> writes through the result of \<open>devm_kzalloc\<close> without a check, so it
  faults when the header cannot be allocated (\<open>hdr_ok\<close>); an array that cannot be allocated
  (\<open>mem_ok\<close>) is a NULL pointer, an array with no valid index.\<close>

definition que_new :: "int \<Rightarrow> bool \<Rightarrow> bool \<Rightarrow> 'a que option" where
  "que_new n hdr_ok mem_ok =
     (if hdr_ok
      then Some \<lparr>q_sz = n, q_head = 0, q_tail = 0, q_mem = (if mem_ok then replicate (nat n) None else [])\<rparr>
      else None)"

definition que_enq :: "'a que \<Rightarrow> 'a option \<Rightarrow> (int \<times> 'a que) option" where
  "que_enq q item =
     (if \<not> is_full q
      then (if 0 \<le> q_tail q
            then do {
              m \<leftarrow> upd_opt (q_mem q) (nat (q_tail q)) item;
              Some (0, q\<lparr>q_mem := m, q_tail := int32 (q_tail q + 1)\<rparr>) }
            else None)
      else Some (-1, q))"

definition que_deq :: "'a que \<Rightarrow> ('a option \<times> 'a que) option" where
  "que_deq q =
     (if \<not> is_empty q
      then (if 0 \<le> q_head q
            then do {
              r \<leftarrow> nth_opt (q_mem q) (nat (q_head q));
              let q = q\<lparr>q_head := int32 (q_head q + 1)\<rparr>;
              let q = (if q_tail q = q_sz q then q\<lparr>q_tail := 0\<rparr> else q);
              let q = (if q_head q = q_sz q then q\<lparr>q_head := 0\<rparr> else q);
              Some (r, q) }
            else None)
      else Some (None, q))"

definition que_peek :: "'a que \<Rightarrow> 'a option option" where
  "que_peek q =
     (if \<not> is_empty q
      then (if 0 \<le> q_head q then nth_opt (q_mem q) (nat (q_head q)) else None)
      else Some None)"

definition que_isfull :: "'a que \<Rightarrow> bool" where "que_isfull q = is_full q"
definition que_isempty :: "'a que \<Rightarrow> bool" where "que_isempty q = is_empty q"
definition que_chksz :: "'a que \<Rightarrow> int" where "que_chksz q = calc_que_sz q"

text \<open>\<open>que_cleanup\<close> dequeues and frees until NULL comes back; the freed pointers are
  collected in order.\<close>

partial_function (option) que_cleanup :: "'a que \<Rightarrow> 'a list \<Rightarrow> ('a list \<times> 'a que) option" where
  "que_cleanup q freed =
     (case que_deq q of
        None \<Rightarrow> None
      | Some (r, q') \<Rightarrow> (case r of None \<Rightarrow> Some (freed, q') | Some a \<Rightarrow> que_cleanup q' (freed @ [a])))"

section \<open>Invariant and contents\<close>

definition que_wf :: "'a que \<Rightarrow> bool" where
  "que_wf q \<longleftrightarrow> 0 < q_sz q \<and> q_sz q < 2 ^ 31 \<and> length (q_mem q) = nat (q_sz q) \<and>
     0 \<le> q_head q \<and> q_head q < q_sz q \<and> 0 \<le> q_tail q \<and> q_tail q \<le> q_sz q"

definition que_list :: "'a que \<Rightarrow> 'a option list" where
  "que_list q =
     (if q_head q \<le> q_tail q then drop (nat (q_head q)) (take (nat (q_tail q)) (q_mem q))
      else drop (nat (q_head q)) (q_mem q) @ take (nat (q_tail q)) (q_mem q))"

lemma que_wf_size: "que_wf q \<Longrightarrow> calc_que_sz q = int (length (que_list q))"
  by (auto simp: que_wf_def calc_que_sz_def que_list_def int32_id min_def)

lemma que_new_wf:
  assumes "que_new n True True = Some q" "0 < n" "n < 2 ^ 31"
  shows "que_wf q" "que_list q = []" "q_sz q = n" "q_head q = 0" "q_tail q = 0"
  using assms by (auto simp: que_new_def que_wf_def que_list_def)

text \<open>Where the tail has room to move, \<open>que_enq\<close> appends.\<close>

lemma que_enq_append:
  assumes wf: "que_wf q"
    and room: "q_head q \<le> q_tail q \<and> q_tail q < q_sz q \<or> q_tail q + 1 < q_head q"
  obtains q' where "que_enq q x = Some (0, q')" "que_wf q'" "que_list q' = que_list q @ [x]"
    "q_sz q' = q_sz q" "q_head q' = q_head q" "q_tail q' = q_tail q + 1"
proof -
  let ?q = "q\<lparr>q_mem := (q_mem q)[nat (q_tail q) := x], q_tail := q_tail q + 1\<rparr>"
  have nf: "\<not> is_full q"
    using wf room by (auto simp: is_full_def calc_que_sz_def que_wf_def int32_id)
  have op: "que_enq q x = Some (0, ?q)"
    using wf room nf by (auto simp: que_enq_def que_wf_def upd_opt_def int32_id)
  have tk: "take (nat (q_tail q + 1)) ((q_mem q)[nat (q_tail q) := x])
      = take (nat (q_tail q)) (q_mem q) @ [x]"
    using wf room by (subst nat_add_distrib) (auto simp: que_wf_def take_Suc_conv_app_nth)
  have "que_list ?q = que_list q @ [x]"
  proof (cases "q_head q \<le> q_tail q")
    case True
    then show ?thesis using wf room by (simp add: que_list_def tk que_wf_def)
  next
    case False
    then have "drop (nat (q_head q)) ((q_mem q)[nat (q_tail q) := x]) = drop (nat (q_head q)) (q_mem q)"
      using wf by (simp add: que_wf_def)
    with False room show ?thesis by (simp add: que_list_def tk)
  qed
  moreover have "que_wf ?q" using wf room by (auto simp: que_wf_def)
  ultimately show thesis using op by (intro that [of ?q]) auto
qed

lemma que_deq_hd:
  assumes wf: "que_wf q" and ne: "que_list q \<noteq> []"
  obtains q' where "que_deq q = Some (hd (que_list q), q')" "que_wf q'"
    "que_list q' = tl (que_list q)" "q_sz q' = q_sz q" "q_tail q' \<noteq> q_sz q"
    "q_head q \<le> q_tail q \<Longrightarrow> q_tail q \<noteq> q_sz q \<Longrightarrow> q_head q' = q_head q + 1 \<and> q_tail q' = q_tail q \<and> q_head q' \<le> q_tail q'"
proof -
  have nonempty: "\<not> is_empty q" using que_wf_size [OF wf] ne by (simp add: is_empty_def)
  have hlt: "nat (q_head q) < length (q_mem q)" using wf by (auto simp: que_wf_def)
  have ht: "q_head q \<noteq> q_tail q"
    using nonempty by (auto simp: is_empty_def calc_que_sz_def)
  let ?t = "if q_tail q = q_sz q then 0 else q_tail q"
  let ?h = "if q_head q + 1 = q_sz q then 0 else q_head q + 1"
  let ?q = "q\<lparr>q_head := ?h, q_tail := ?t\<rparr>"
  have op: "que_deq q = Some (q_mem q ! nat (q_head q), ?q)"
    using wf nonempty hlt by (auto simp: que_deq_def que_wf_def nth_opt_def int32_id Let_def)
  have wf': "que_wf ?q" using wf by (auto simp: que_wf_def)
  have sn: "nat (q_head q + 1) = Suc (nat (q_head q))" using wf by (auto simp: que_wf_def)
  have split: "que_list q = q_mem q ! nat (q_head q) # que_list ?q"
  proof (cases "q_head q \<le> q_tail q")
    case True
    then have lt: "nat (q_head q) < nat (q_tail q)" using ht wf by (auto simp: que_wf_def)
    then have d: "drop (nat (q_head q)) (take (nat (q_tail q)) (q_mem q))
        = q_mem q ! nat (q_head q) # drop (Suc (nat (q_head q))) (take (nat (q_tail q)) (q_mem q))"
      using hlt by (subst Cons_nth_drop_Suc [symmetric]) auto
    with True lt wf sn show ?thesis
      by (auto simp: que_list_def que_wf_def)
  next
    case False
    have "drop (nat (q_head q)) (q_mem q)
        = q_mem q ! nat (q_head q) # drop (Suc (nat (q_head q))) (q_mem q)"
      using hlt by (rule Cons_nth_drop_Suc [symmetric])
    with False wf sn show ?thesis by (auto simp: que_list_def que_wf_def)
  qed
  have "que_deq q = Some (hd (que_list q), ?q)" "que_list ?q = tl (que_list q)"
    using op split by simp_all
  moreover have "q_tail ?q \<noteq> q_sz q" using wf by (auto simp: que_wf_def)
  ultimately show thesis using wf wf' ht by (intro that [of ?q]) (auto simp: que_wf_def)
qed

lemma que_deq_empty:
  "que_wf q \<Longrightarrow> que_list q = [] \<Longrightarrow> que_deq q = Some (None, q)"
  using que_wf_size [of q] by (simp add: que_deq_def is_empty_def)

section \<open>Sessions\<close>

text \<open>A producer that ignores the return code, as a client of the list interface has to.\<close>

definition que_put :: "'a \<Rightarrow> 'a que \<Rightarrow> 'a que option" where
  "que_put a q = map_option snd (que_enq q (Some a))"

lemma que_session_aux:
  assumes "que_wf q" "que_list q = map Some xs"
    and "fifo_put_count ops = 0 \<or>
      q_head q \<le> q_tail q \<and> q_tail q + int (fifo_put_count ops) \<le> q_sz q"
  shows "\<exists>q'. fifo_exec que_put que_deq ops q = Some (fst (fifo_spec ops xs), q') \<and>
    que_wf q' \<and> que_list q' = map Some (snd (fifo_spec ops xs))"
  using assms
proof (induction ops xs arbitrary: q rule: fifo_ok.induct)
  case (1 xs)
  then show ?case by simp
next
  case (2 a ops xs)
  then have "q_head q \<le> q_tail q \<and> q_tail q < q_sz q \<or> q_tail q + 1 < q_head q" by auto
  with \<open>que_wf q\<close> obtain q' where q': "que_enq q (Some a) = Some (0, q')" "que_wf q'"
    "que_list q' = que_list q @ [Some a]" "q_sz q' = q_sz q" "q_head q' = q_head q"
    "q_tail q' = q_tail q + 1" by (rule que_enq_append)
  with 2(1) [of q'] 2(3,4) show ?case by (auto simp: que_put_def)
next
  case (3 ops xs)
  show ?case
  proof (cases xs)
    case Nil
    with 3 que_deq_empty [of q] show ?thesis by force
  next
    case (Cons x ys)
    with 3(3) have "que_list q \<noteq> []" by simp
    with 3(2) obtain q' where q': "que_deq q = Some (hd (que_list q), q')" "que_wf q'"
      "que_list q' = tl (que_list q)" "q_sz q' = q_sz q"
      "q_head q \<le> q_tail q \<Longrightarrow> q_tail q \<noteq> q_sz q \<Longrightarrow> q_head q' = q_head q + 1 \<and> q_tail q' = q_tail q \<and> q_head q' \<le> q_tail q'"
      by (rule que_deq_hd) blast
    have "fifo_put_count ops = 0 \<or>
      q_head q' \<le> q_tail q' \<and> q_tail q' + int (fifo_put_count ops) \<le> q_sz q'"
      using 3(4) q'(4,5) by (cases "fifo_put_count ops = 0") auto
    with 3(1) [OF q'(2)] q' 3(3) Cons show ?thesis by force
  qed
qed

text \<open>C37: As long as no more items are ever put than the array has slots, the array queue is a
  FIFO queue: any mix of enqueues and dequeues on a fresh queue of size \<open>n\<close> returns what an
  unbounded queue returns, without a fault.\<close>

theorem que_session_fifo:
  assumes "0 < n" "n < 2 ^ 31" "que_new n True True = Some q" "int (fifo_put_count ops) \<le> n"
  shows "\<exists>q'. fifo_exec que_put que_deq ops q = Some (fst (fifo_spec ops []), q') \<and>
    que_list q' = map Some (snd (fifo_spec ops []))"
proof -
  note w = que_new_wf [OF assms(3,1,2)]
  have "q_head q \<le> q_tail q \<and> q_tail q + int (fifo_put_count ops) \<le> q_sz q"
    using w assms(4) by simp
  with w que_session_aux [of q "[]" ops] show ?thesis by auto
qed

theorem que_session_fifo_witness:
  "\<exists>q'. fifo_exec que_put que_deq [Put (7::nat), Put 8, Get, Put 9, Get, Get, Get]
      \<lparr>q_sz = 3, q_head = 0, q_tail = 0, q_mem = [None, None, None]\<rparr>
    = Some ([Some 7, Some 8, Some 9, None], q') \<and> que_list q' = []"
  using que_session_fifo [of 3 "\<lparr>q_sz = 3, q_head = 0, q_tail = 0, q_mem = [None, None, None]\<rparr>"
      "[Put (7::nat), Put 8, Get, Put 9, Get, Get, Get]"]
  by (simp add: que_new_def numeral_3_eq_3)

lemma que_fill:
  assumes "que_wf q" "q_head q \<le> q_tail q" "q_tail q + int (length xs) \<le> q_sz q"
  obtains q' where "fifo_exec que_put que_deq (map Put xs) q = Some ([], q')" "que_wf q'"
    "q_sz q' = q_sz q" "q_head q' = q_head q" "q_tail q' = q_tail q + int (length xs)"
    "que_list q' = que_list q @ map Some xs"
  using assms
proof (induction xs arbitrary: q thesis)
  case Nil
  then show ?case by simp
next
  case (Cons x xs)
  from Cons.prems have "q_head q \<le> q_tail q \<and> q_tail q < q_sz q \<or> q_tail q + 1 < q_head q" by auto
  with Cons.prems(2) obtain q1 where q1: "que_enq q (Some x) = Some (0, q1)" "que_wf q1"
    "que_list q1 = que_list q @ [Some x]" "q_sz q1 = q_sz q" "q_head q1 = q_head q"
    "q_tail q1 = q_tail q + 1" by (rule que_enq_append)
  show ?case
    by (rule Cons.IH [of q1]) (use Cons.prems q1 in \<open>auto simp: que_put_def\<close>)
qed

text \<open>Once the head has moved, the array queue overruns its array: on a fresh queue of any
  size \<open>n\<close> of at least 2, one enqueue, one dequeue and \<open>n - 1\<close> further enqueues succeed, the
  queue then holds \<open>n - 1\<close> items and is not full, and the next enqueue stores behind the end of the
  array, because \<open>que_enq\<close> never wraps the tail.\<close>

theorem que_enq_overrun:
  assumes n: "2 \<le> n" "n < 2 ^ 31" and q0: "que_new n True True = Some q0"
    and len: "int (length xs) = n - 1"
  shows "\<exists>q. fifo_exec que_put que_deq (Put a # Get # map Put xs) q0 = Some ([Some a], q) \<and>
    que_list q = map Some xs \<and> \<not> que_isfull q \<and> que_enq q y = None"
proof -
  have "0 < n" using n by simp
  note w0 = que_new_wf [OF q0 this n(2)]
  with n obtain q1 where q1: "que_enq q0 (Some a) = Some (0, q1)" "que_wf q1"
    "que_list q1 = [Some a]" "q_sz q1 = n" "q_head q1 = 0" "q_tail q1 = 1"
    using que_enq_append [of q0 "Some a"] by auto
  then obtain q2 where q2: "que_deq q1 = Some (Some a, q2)" "que_wf q2" "que_list q2 = []"
    "q_sz q2 = n" "q_head q2 = 1" "q_tail q2 = 1"
    using n que_deq_hd [of q1] by auto
  then obtain q where q: "fifo_exec que_put que_deq (map Put xs) q2 = Some ([], q)" "que_wf q"
    "q_sz q = n" "q_head q = 1" "q_tail q = n" "que_list q = map Some xs"
    using len que_fill [of q2 xs] by auto
  have nf: "\<not> is_full q" using q que_wf_size [OF q(2)] len by (simp add: is_full_def)
  have "que_enq q y = None"
    using q nf by (auto simp: que_enq_def que_wf_def upd_opt_def)
  with q q1 q2 nf show ?thesis by (simp add: que_put_def que_isfull_def)
qed

theorem que_enq_overrun_witness:
  "\<exists>q. fifo_exec que_put que_deq [Put (1::nat), Get, Put 2]
      \<lparr>q_sz = 2, q_head = 0, q_tail = 0, q_mem = [None, None]\<rparr> = Some ([Some 1], q) \<and>
    que_list q = [Some 2] \<and> \<not> que_isfull q \<and> que_enq q (Some 3) = None"
  using que_enq_overrun [of 2 "\<lparr>q_sz = 2, q_head = 0, q_tail = 0, q_mem = [None, None]\<rparr>"
      "[2::nat]" 1 "Some 3"]
  by (simp add: que_new_def numeral_2_eq_2)

text \<open>An enqueue that fills a queue whose tail has wrapped behind the head makes the queue
  look empty: \<open>que_enq\<close> reports success, and the \<open>q_sz\<close> items the array then holds are lost to
  every later dequeue.\<close>

theorem que_enq_wrapped_loses_all:
  assumes wf: "que_wf q" and adj: "q_tail q + 1 = q_head q"
  shows "int (length (que_list q)) = q_sz q - 1 \<and>
    (\<exists>q'. que_enq q x = Some (0, q') \<and> que_isempty q' \<and> que_deq q' = Some (None, q'))"
proof -
  let ?q = "q\<lparr>q_mem := (q_mem q)[nat (q_tail q) := x], q_tail := q_tail q + 1\<rparr>"
  have sz: "calc_que_sz q = q_sz q - 1"
    using wf adj by (auto simp: calc_que_sz_def que_wf_def int32_id)
  then have "\<not> is_full q" by (simp add: is_full_def)
  then have "que_enq q x = Some (0, ?q)"
    using wf adj by (auto simp: que_enq_def que_wf_def upd_opt_def int32_id)
  moreover have "is_empty ?q" using adj by (simp add: is_empty_def calc_que_sz_def)
  ultimately show ?thesis
    using sz que_wf_size [OF wf] by (auto simp: que_isempty_def que_deq_def)
qed

theorem que_enq_wrapped_loses_all_witness:
  "\<exists>q'. que_enq \<lparr>q_sz = 2, q_head = 1, q_tail = 0, q_mem = [None, Some (5::nat)]\<rparr> (Some 6) = Some (0, q')
     \<and> que_isempty q' \<and> que_deq q' = Some (None, q')"
  using que_enq_wrapped_loses_all [of "\<lparr>q_sz = 2, q_head = 1, q_tail = 0, q_mem = [None, Some (5::nat)]\<rparr>" "Some 6"]
  by (simp add: que_wf_def)

section \<open>Freeing\<close>

text \<open>The two blocks of a queue, its header \<open>q\<close> and its array \<open>arr\<close>, by the allocator they belong to.
  \<open>kfree\<close> takes blocks of \<open>kmalloc\<close>; those of \<open>devm_kzalloc\<close> lie inside a larger one (\<open>None\<close>).\<close>

datatype alloc = Kmalloc | Devm

definition kfree_block :: "nat \<Rightarrow> (nat \<Rightarrow> alloc option) \<Rightarrow> (nat \<Rightarrow> alloc option) option" where
  "kfree_block p m = (if m p = Some Kmalloc then Some (m(p := None)) else None)"

definition que_blocks :: "nat \<Rightarrow> nat \<Rightarrow> (nat \<Rightarrow> alloc option) \<Rightarrow> (nat \<Rightarrow> alloc option)" where
  "que_blocks q arr m = m(q \<mapsto> Devm, arr \<mapsto> Devm)"

definition que_del :: "nat \<Rightarrow> nat \<Rightarrow> (nat \<Rightarrow> alloc option) \<Rightarrow> (nat \<Rightarrow> alloc option) option" where
  "que_del q arr m = do { m \<leftarrow> kfree_block arr m; kfree_block q m }"

text \<open>Right for blocks of \<open>kmalloc\<close>, but \<open>que_new\<close> does not use it.\<close>

lemma que_del_blocks:
  "q \<noteq> arr \<Longrightarrow> m q = Some Kmalloc \<Longrightarrow> m arr = Some Kmalloc \<Longrightarrow> que_del q arr m = Some (m(arr := None, q := None))"
  "que_del q arr (que_blocks q arr m) = None"
  by (simp_all add: que_del_def kfree_block_def que_blocks_def)

end
