(* ===== verification/Frame.thy ===== *)
theory Frame
  imports Prelude
begin

text \<open>
  The frames of \<open>src/ads131m08_spi.c\<close>: the device exchanges 24-bit words, most significant byte
  first. A 16-bit command or register word is sent as two bytes and a zero byte
  (\<open>word2frame\<close>), a response word is the first two of three bytes (\<open>frame2word\<close>), and a
  conversion result is three bytes sign-extended to 32 bits (\<open>frame2long\<close>). The buffers are byte
  arrays with checked indices.
\<close>

definition BYTE_PER_WORD :: int where "BYTE_PER_WORD = 3"

definition UPPER :: "u16 \<Rightarrow> byte" where
  "UPPER var = ucast (drop_bit 8 var AND 0xFF)"

definition LOWER :: "u16 \<Rightarrow> byte" where
  "LOWER var = ucast (var AND 0xFF)"

text \<open>\<open>word2frame data buf off cnt\<close> is \<open>word2frame (data, &buf[off], cnt)\<close>.\<close>

fun word2frame_loop ::
  "u16 list \<Rightarrow> nat \<Rightarrow> nat \<Rightarrow> nat \<Rightarrow> nat \<Rightarrow> byte list \<Rightarrow> (nat \<times> byte list) option" where
  "word2frame_loop data off i idx 0 buf = Some (idx, buf)"
| "word2frame_loop data off i idx (Suc n) buf = do {
     w \<leftarrow> nth_opt data i;
     buf \<leftarrow> upd_opt buf (off + idx) (UPPER w);
     buf \<leftarrow> upd_opt buf (off + (idx + 1)) (LOWER w);
     buf \<leftarrow> upd_opt buf (off + (idx + 2)) 0;
     word2frame_loop data off (i + 1) (idx + 3) n buf }"

definition word2frame ::
  "u16 list \<Rightarrow> byte list \<Rightarrow> nat \<Rightarrow> int \<Rightarrow> (nat \<times> byte list) option" where
  "word2frame data buf off cnt = word2frame_loop data off 0 0 (nat cnt) buf"

text \<open>The third byte of a word is skipped without being read.\<close>

fun frame2word_loop ::
  "byte list \<Rightarrow> nat \<Rightarrow> nat \<Rightarrow> nat \<Rightarrow> nat \<Rightarrow> u16 list \<Rightarrow> (nat \<times> u16 list) option" where
  "frame2word_loop frame off i idx 0 ret = Some (idx, ret)"
| "frame2word_loop frame off i idx (Suc n) ret = do {
     b0 \<leftarrow> nth_opt frame (off + idx);
     ret \<leftarrow> upd_opt ret i (push_bit 8 (ucast b0));
     b1 \<leftarrow> nth_opt frame (off + (idx + 1));
     ret \<leftarrow> upd_opt ret i (ret ! i OR ucast b1);
     frame2word_loop frame off (i + 1) (idx + 3) n ret }"

definition frame2word ::
  "byte list \<Rightarrow> nat \<Rightarrow> u16 list \<Rightarrow> int \<Rightarrow> (nat \<times> u16 list) option" where
  "frame2word frame off ret cnt = frame2word_loop frame off 0 0 (nat cnt) ret"

fun frame2long_loop ::
  "byte list \<Rightarrow> nat \<Rightarrow> nat \<Rightarrow> nat \<Rightarrow> nat \<Rightarrow> s32 list \<Rightarrow> (nat \<times> s32 list) option" where
  "frame2long_loop frame off i idx 0 ret = Some (idx, ret)"
| "frame2long_loop frame off i idx (Suc n) ret = do {
     b0 \<leftarrow> nth_opt frame (off + idx);
     b1 \<leftarrow> nth_opt frame (off + (idx + 1));
     b2 \<leftarrow> nth_opt frame (off + (idx + 2));
     let val = push_bit 16 (ucast b0);
     let val = val OR push_bit 8 (ucast b1);
     let val = val OR ucast b2;
     let val = (if val AND 0x800000 \<noteq> 0 then val OR 0xFF000000 else val);
     ret \<leftarrow> upd_opt ret i val;
     frame2long_loop frame off (i + 1) (idx + 3) n ret }"

definition frame2long ::
  "byte list \<Rightarrow> nat \<Rightarrow> s32 list \<Rightarrow> int \<Rightarrow> (nat \<times> s32 list) option" where
  "frame2long frame off ret cnt = frame2long_loop frame off 0 0 (nat cnt) ret"

section \<open>What the loops compute\<close>

definition enc_word :: "u16 \<Rightarrow> byte list" where
  "enc_word w = [UPPER w, LOWER w, 0]"

definition dec_word :: "byte \<Rightarrow> byte \<Rightarrow> u16" where
  "dec_word b0 b1 = push_bit 8 (ucast b0) OR ucast b1"

definition dec_long :: "byte \<Rightarrow> byte \<Rightarrow> byte \<Rightarrow> s32" where
  "dec_long b0 b1 b2 =
     (let val = push_bit 16 (ucast b0) OR push_bit 8 (ucast b1) OR ucast b2
      in if val AND 0x800000 \<noteq> 0 then val OR 0xFF000000 else val)"

definition words_at :: "byte list \<Rightarrow> nat \<Rightarrow> nat \<Rightarrow> u16 list" where
  "words_at frame off n = map (\<lambda>i. dec_word (frame ! (off + 3 * i)) (frame ! (off + 3 * i + 1))) [0..<n]"

definition longs_at :: "byte list \<Rightarrow> nat \<Rightarrow> nat \<Rightarrow> s32 list" where
  "longs_at frame off n = map (\<lambda>i. dec_long (frame ! (off + 3 * i)) (frame ! (off + 3 * i + 1))
       (frame ! (off + 3 * i + 2))) [0..<n]"

lemma length_words_at [simp]: "length (words_at f off n) = n"
  by (simp add: words_at_def)

lemma length_longs_at [simp]: "length (longs_at f off n) = n"
  by (simp add: longs_at_def)

lemma length_concat_enc [simp]: "length (concat (map enc_word ws)) = 3 * length ws"
  by (induction ws) (simp_all add: enc_word_def)

lemma length_enc_word [simp]: "length (enc_word w) = 3"
  by (simp add: enc_word_def)

lemma drop_enc_word: "drop (3 + k) (enc_word w @ xs) = drop k xs"
  by (simp add: enc_word_def numeral_3_eq_3)

lemma upd3:
  assumes "p + 3 \<le> length buf"
  shows "buf[p := a, p + 1 := b, p + 2 := c] = take p buf @ [a, b, c] @ drop (p + 3) buf"
proof (rule nth_equalityI)
  fix i
  assume "i < length (buf[p := a, p + 1 := b, p + 2 := c])"
  then have i: "i < length buf" by simp
  consider "i < p" | "i = p" | "i = p + 1" | "i = p + 2" | "p + 3 \<le> i" by linarith
  then show "buf[p := a, p + 1 := b, p + 2 := c] ! i = (take p buf @ [a, b, c] @ drop (p + 3) buf) ! i"
    using i assms
  proof cases
    case 5
    then obtain k where "i = p + 3 + k" using le_Suc_ex by blast
    with i assms show ?thesis by (simp add: nth_append)
  qed (simp_all add: nth_append)
qed (use assms in simp)

lemma word2frame_loop_spec:
  assumes "i + n \<le> length data" "off + idx + 3 * n \<le> length buf"
  shows "word2frame_loop data off i idx n buf =
    Some (idx + 3 * n, take (off + idx) buf @ concat (map enc_word (take n (drop i data)))
            @ drop (off + idx + 3 * n) buf)"
  using assms
proof (induction n arbitrary: i idx buf)
  case 0
  then show ?case by simp
next
  case (Suc n)
  let ?p = "off + idx"
  let ?w = "data ! i"
  let ?b = "take ?p buf @ enc_word ?w @ drop (?p + 3) buf"
  have b: "buf[?p := UPPER ?w, ?p + 1 := LOWER ?w, ?p + 2 := 0] = ?b"
    using Suc.prems(2) by (subst upd3) (simp_all add: enc_word_def)
  have tk: "take (Suc n) (drop i data) = ?w # take n (drop (i + 1) data)"
    using Suc.prems(1) by (simp add: Cons_nth_drop_Suc [symmetric])
  have len: "length ?b = length buf" using Suc.prems(2) by (simp add: enc_word_def)
  have "word2frame_loop data off i idx (Suc n) buf = word2frame_loop data off (i + 1) (idx + 3) n ?b"
    using Suc.prems b by (simp add: nth_opt_def upd_opt_def add.assoc)
  also have "\<dots> = Some (idx + 3 + 3 * n, take (off + (idx + 3)) ?b
      @ concat (map enc_word (take n (drop (i + 1) data))) @ drop (off + (idx + 3) + 3 * n) ?b)"
    by (rule Suc.IH) (use Suc.prems len in auto)
  also have "take (off + (idx + 3)) ?b = take ?p buf @ enc_word ?w"
    using Suc.prems(2) by (simp add: enc_word_def)
  also have "drop (off + (idx + 3) + 3 * n) ?b = drop (?p + 3 * Suc n) buf"
  proof -
    have pre: "length (take ?p buf @ enc_word ?w) = ?p + 3"
      using Suc.prems(2) by (simp add: enc_word_def)
    have "drop (?p + 3 + 3 * n) ((take ?p buf @ enc_word ?w) @ drop (?p + 3) buf)
        = drop (3 * n) (drop (?p + 3) buf)"
      using pre by (simp only: drop_append) simp
    then show ?thesis by (simp add: ac_simps)
  qed
  finally show ?case using tk by (simp add: add.assoc)
qed

lemma word2frame_spec [wordframe]:
  assumes "nat cnt \<le> length data" "off + 3 * nat cnt \<le> length buf"
  shows "word2frame data buf off cnt =
    Some (3 * nat cnt, take off buf @ concat (map enc_word (take (nat cnt) data))
            @ drop (off + 3 * nat cnt) buf)"
  using word2frame_loop_spec [of 0 "nat cnt" data off 0 buf] assms by (simp add: word2frame_def)

lemma words_at_Suc:
  "words_at f off (Suc n) = dec_word (f ! off) (f ! (off + 1)) # words_at f (off + 3) n"
  by (simp only: words_at_def map_upt_Suc) (simp add: ac_simps)

lemma longs_at_Suc:
  "longs_at f off (Suc n) =
     dec_long (f ! off) (f ! (off + 1)) (f ! (off + 2)) # longs_at f (off + 3) n"
  by (simp only: longs_at_def map_upt_Suc) (simp add: ac_simps)

lemma take_drop_update:
  assumes "i < length xs"
  shows "take (i + 1) (xs[i := v]) = take i xs @ [v]" "drop (i + 1 + n) (xs[i := v]) = drop (i + Suc n) xs"
  using assms by (simp_all add: take_Suc_conv_app_nth)

lemma frame2word_loop_spec:
  assumes "i + n \<le> length ret" "off + idx + 3 * n \<le> length frame"
  shows "frame2word_loop frame off i idx n ret =
    Some (idx + 3 * n, take i ret @ words_at frame (off + idx) n @ drop (i + n) ret)"
  using assms
proof (induction n arbitrary: i idx ret)
  case 0
  then show ?case by (simp add: words_at_def)
next
  case (Suc n)
  let ?v = "dec_word (frame ! (off + idx)) (frame ! (off + idx + 1))"
  have i: "i < length ret" using Suc.prems by simp
  have "frame2word_loop frame off i idx (Suc n) ret
      = frame2word_loop frame off (i + 1) (idx + 3) n (ret[i := ?v])"
    using Suc.prems by (simp add: nth_opt_def upd_opt_def dec_word_def)
  also have "\<dots> = Some (idx + 3 + 3 * n, take (i + 1) (ret[i := ?v])
      @ words_at frame (off + (idx + 3)) n @ drop (i + 1 + n) (ret[i := ?v]))"
    by (rule Suc.IH) (use Suc.prems in auto)
  finally show ?case
    unfolding take_drop_update [OF i] words_at_Suc by (simp add: add.assoc)
qed

lemma frame2word_spec [wordframe]:
  assumes "nat cnt \<le> length ret" "off + 3 * nat cnt \<le> length frame"
  shows "frame2word frame off ret cnt =
    Some (3 * nat cnt, words_at frame off (nat cnt) @ drop (nat cnt) ret)"
  using frame2word_loop_spec [of 0 "nat cnt" ret off 0 frame] assms by (simp add: frame2word_def)

text \<open>A destination that is too short is overrun.\<close>

lemma frame2word_loop_overrun:
  "i \<le> length ret \<Longrightarrow> length ret < i + n \<Longrightarrow> frame2word_loop frame off i idx n ret = None"
proof (induction n arbitrary: i idx ret)
  case (Suc n)
  show ?case
  proof (cases "i < length ret")
    case True
    with Suc.prems Suc.IH [where i = "Suc i"] show ?thesis
      by (auto simp: upd_opt_def nth_opt_def Option.bind_eq_None_conv)
  next
    case False
    then show ?thesis by (simp add: upd_opt_def nth_opt_def)
  qed
qed simp

lemma frame2word_overrun: "length ret < nat cnt \<Longrightarrow> frame2word frame off ret cnt = None"
  by (simp add: frame2word_def frame2word_loop_overrun)

lemma word2frame_loop_overread:
  "i \<le> length data \<Longrightarrow> length data < i + n \<Longrightarrow> word2frame_loop data off i idx n buf = None"
proof (induction n arbitrary: i idx buf)
  case (Suc n)
  show ?case
  proof (cases "i < length data")
    case True
    with Suc.prems Suc.IH [where i = "Suc i"] show ?thesis by (auto simp: Option.bind_eq_None_conv)
  qed (simp add: nth_opt_def)
qed simp

lemma word2frame_overread: "length data < nat cnt \<Longrightarrow> word2frame data buf off cnt = None"
  by (simp add: word2frame_def word2frame_loop_overread)

lemma frame2long_loop_spec:
  assumes "i + n \<le> length ret" "off + idx + 3 * n \<le> length frame"
  shows "frame2long_loop frame off i idx n ret =
    Some (idx + 3 * n, take i ret @ longs_at frame (off + idx) n @ drop (i + n) ret)"
  using assms
proof (induction n arbitrary: i idx ret)
  case 0
  then show ?case by (simp add: longs_at_def)
next
  case (Suc n)
  let ?v = "dec_long (frame ! (off + idx)) (frame ! (off + idx + 1)) (frame ! (off + idx + 2))"
  have i: "i < length ret" using Suc.prems by simp
  have "frame2long_loop frame off i idx (Suc n) ret
      = frame2long_loop frame off (i + 1) (idx + 3) n (ret[i := ?v])"
    using Suc.prems by (simp add: nth_opt_def upd_opt_def dec_long_def Let_def or.assoc)
  also have "\<dots> = Some (idx + 3 + 3 * n, take (i + 1) (ret[i := ?v])
      @ longs_at frame (off + (idx + 3)) n @ drop (i + 1 + n) (ret[i := ?v]))"
    by (rule Suc.IH) (use Suc.prems in auto)
  finally show ?case
    unfolding take_drop_update [OF i] longs_at_Suc by (simp add: add.assoc)
qed

lemma frame2long_spec [wordframe]:
  assumes "nat cnt \<le> length ret" "off + 3 * nat cnt \<le> length frame"
  shows "frame2long frame off ret cnt =
    Some (3 * nat cnt, longs_at frame off (nat cnt) @ drop (nat cnt) ret)"
  using frame2long_loop_spec [of 0 "nat cnt" ret off 0 frame] assms by (simp add: frame2long_def)

section \<open>Round trip of words\<close>

lemma mask_FF: "(0xFF :: u16) = mask 8"
  by (simp add: mask_eq_exp_minus_1)

lemma dec_enc_word: "dec_word (UPPER w) (LOWER w) = w"
  by (rule bit_word_eqI) (auto simp: dec_word_def UPPER_def LOWER_def mask_FF bit_simps)

lemma words_at_enc:
  "words_at (pre @ concat (map enc_word ws) @ post) (length pre) (length ws) = ws"
proof (induction ws arbitrary: pre)
  case Nil
  show ?case by (simp add: words_at_def)
next
  case (Cons w ws)
  have "words_at ((pre @ enc_word w) @ concat (map enc_word ws) @ post) (length (pre @ enc_word w)) (length ws) = ws"
    by (rule Cons.IH)
  then show ?case
    by (simp add: words_at_Suc nth_append enc_word_def [of w] dec_enc_word numeral_3_eq_3)
qed

text \<open>C31: Encoding words into a frame and decoding the frame gives the words back: if the words fit
  into the buffer behind \<open>off\<close>, \<open>word2frame\<close> stays inside it, reports three bytes per word, leaves
  the bytes around the frame alone, and \<open>frame2word\<close> on the same range returns the words.\<close>

theorem word2frame_frame2word:
  assumes "off + 3 * length ws \<le> length buf" "length ret = length ws"
  shows "\<exists>buf'. word2frame ws buf off (int (length ws)) = Some (3 * length ws, buf') \<and>
    length buf' = length buf \<and> take off buf' = take off buf \<and>
    drop (off + 3 * length ws) buf' = drop (off + 3 * length ws) buf \<and>
    frame2word buf' off ret (int (length ws)) = Some (3 * length ws, ws)"
proof -
  let ?b = "take off buf @ concat (map enc_word ws) @ drop (off + 3 * length ws) buf"
  have off: "length (take off buf) = off" using assms(1) by simp
  have "words_at ?b off (length ws) = ws"
    using words_at_enc [of "take off buf" ws] off by metis
  then have "frame2word ?b off ret (int (length ws)) = Some (3 * length ws, ws)"
    using assms by (simp add: frame2word_spec)
  moreover have "drop (off + 3 * length ws) ?b = drop (off + 3 * length ws) buf"
    using assms(1) by simp
  ultimately show ?thesis using assms by (simp add: word2frame_spec)
qed

theorem word2frame_frame2word_witness:
  "\<exists>buf'. word2frame [0xA081, 0x0655] (replicate 9 0xFF) 3 2 = Some (6, buf') \<and>
     frame2word buf' 3 [0, 0] 2 = Some (6, [0xA081, 0x0655])"
  using word2frame_frame2word [of 3 "[0xA081, 0x0655]" "replicate 9 0xFF" "[0, 0]"] by auto

section \<open>Sign extension of conversion results\<close>

lemma uint_or3:
  "uint (push_bit 16 (ucast (b0::byte)) OR push_bit 8 (ucast (b1::byte)) OR ucast (b2::byte) :: s32)
     = uint b0 * 2 ^ 16 + uint b1 * 2 ^ 8 + uint b2"
proof -
  have r: "0 \<le> uint b" "uint b < 256" for b :: byte
    using uint_lt2p [of b] by simp_all
  have "uint (push_bit 16 (ucast b0) OR push_bit 8 (ucast b1) OR ucast b2 :: s32)
      = concat_bit 8 (uint b2) (concat_bit 8 (uint b1) (uint b0))"
    by (rule bit_eqI)
      (auto simp: bit_concat_bit_iff bit_simps dest: bit_imp_le_length)
  also have "\<dots> = uint b0 * 2 ^ 16 + uint b1 * 2 ^ 8 + uint b2"
    using r by (simp add: concat_bit_eq take_bit_int_eq_self push_bit_eq_mult)
  finally show ?thesis .
qed

definition be24 :: "byte \<Rightarrow> byte \<Rightarrow> byte \<Rightarrow> int" where
  "be24 b0 b1 b2 = uint b0 * 2 ^ 16 + uint b1 * 2 ^ 8 + uint b2"

definition signed24 :: "int \<Rightarrow> int" where
  "signed24 v = (if v < 2 ^ 23 then v else v - 2 ^ 24)"

lemma be24_bounds: "0 \<le> be24 b0 b1 b2 \<and> be24 b0 b1 b2 < 2 ^ 24"
  using uint_lt2p [of b0] uint_lt2p [of b1] uint_lt2p [of b2] by (simp add: be24_def)

lemma signed_take_bit_period: "signed_take_bit 31 ((x::int) + 2 ^ 32) = signed_take_bit 31 x"
proof -
  have "take_bit 32 (x + 2 ^ 32) = take_bit 32 x" by (simp add: take_bit_eq_mod)
  then show ?thesis by (simp add: signed_take_bit_eq_iff_take_bit_eq)
qed

lemma bit23_iff:
  assumes "0 \<le> (x::int)" "x < 2 ^ 24"
  shows "bit x 23 \<longleftrightarrow> 2 ^ 23 \<le> x"
proof -
  have "x div 2 ^ 23 = (if 2 ^ 23 \<le> x then 1 else 0)"
  proof (cases "2 ^ 23 \<le> x")
    case True
    then have "x div 2 ^ 23 = 1"
      using assms by (intro int_div_pos_eq [where r = "x - 2 ^ 23"]) auto
    with True show ?thesis by simp
  next
    case False
    with assms show ?thesis by simp
  qed
  then show ?thesis by (simp add: bit_iff_odd)
qed

lemma sint_dec_long: "sint (dec_long b0 b1 b2) = signed24 (be24 b0 b1 b2)"
proof -
  define r :: s32 where "r = push_bit 16 (ucast b0) OR push_bit 8 (ucast b1) OR ucast b2"
  have u: "uint r = be24 b0 b1 b2" unfolding be24_def r_def by (rule uint_or3)
  have v: "0 \<le> uint r" "uint r < 2 ^ 24" using be24_bounds unfolding u by auto
  have "r AND 0x800000 = 0 \<longleftrightarrow> \<not> bit r 23"
    using and_exp_eq_0_iff_not_bit [of r 23] by simp
  also have "bit r 23 \<longleftrightarrow> bit (uint r) 23" by (simp add: bit_uint_iff)
  also have "\<dots> \<longleftrightarrow> 2 ^ 23 \<le> uint r" using v by (rule bit23_iff)
  finally have sign: "r AND 0x800000 \<noteq> 0 \<longleftrightarrow> 2 ^ 23 \<le> uint r" by simp
  have dec: "dec_long b0 b1 b2 = (if r AND 0x800000 \<noteq> 0 then r OR 0xFF000000 else r)"
    by (simp add: dec_long_def r_def Let_def)
  have lo: "- (2 ^ 31) \<le> uint r" by (rule order_trans [OF _ uint_ge_0]) simp
  have hi: "uint r < 2 ^ 31" by (rule less_trans [OF v(2)]) simp
  have lo': "- (2 ^ 31) \<le> uint r - 2 ^ 24" using uint_ge_0 [of r] by simp
  have hi': "uint r - 2 ^ 24 < 2 ^ 31" using v(2) by simp
  show ?thesis
  proof (cases "2 ^ 23 \<le> uint r")
    case False
    have "sint r = signed_take_bit 31 (uint r)" by (simp add: sint_uint)
    also have "\<dots> = uint r" using lo hi by (rule signed_take_bit_int_eq_self)
    finally show ?thesis using False sign u by (simp add: dec signed24_def)
  next
    case True
    have m: "uint (0xFF000000 :: s32) = push_bit 24 0xFF" by (simp add: push_bit_eq_mult)
    have "uint (r OR 0xFF000000) = uint r OR push_bit 24 0xFF"
      by (simp only: uint_or m)
    also have "\<dots> = concat_bit 24 (uint r) 0xFF"
      using v by (simp add: concat_bit_def take_bit_int_eq_self)
    also have "\<dots> = uint r + 0xFF * 2 ^ 24"
      using v by (simp add: concat_bit_eq take_bit_int_eq_self push_bit_eq_mult)
    finally have m': "uint (r OR 0xFF000000) = (uint r - 2 ^ 24) + 2 ^ 32" by simp
    have "sint (r OR 0xFF000000) = signed_take_bit 31 (uint (r OR 0xFF000000))"
      by (simp add: sint_uint)
    also have "\<dots> = signed_take_bit 31 (uint r - 2 ^ 24)"
      unfolding m' by (rule signed_take_bit_period)
    also have "\<dots> = uint r - 2 ^ 24"
      using lo' hi' by (rule signed_take_bit_int_eq_self)
    finally show ?thesis using True sign u by (simp add: dec signed24_def)
  qed
qed

lemma signed24_bounds: "0 \<le> v \<Longrightarrow> v < 2 ^ 24 \<Longrightarrow> - (2 ^ 23) \<le> signed24 v \<and> signed24 v < 2 ^ 23"
  by (simp add: signed24_def)

text \<open>C32: \<open>frame2long\<close> turns each big-endian 24-bit two's complement word of the frame into the
  32-bit integer of the same value, for all three bytes of every word, writes exactly \<open>cnt\<close>
  results, leaves the rest of the array alone and touches nothing outside it.\<close>

theorem frame2long_sign_extends:
  assumes "0 \<le> cnt" "nat cnt \<le> length ret" "off + 3 * nat cnt \<le> length frame"
  shows "\<exists>ret'. frame2long frame off ret cnt = Some (3 * nat cnt, ret') \<and> length ret' = length ret \<and>
    drop (nat cnt) ret' = drop (nat cnt) ret \<and>
    (\<forall>i < nat cnt.
       sint (ret' ! i) = signed24 (be24 (frame ! (off + 3 * i)) (frame ! (off + 3 * i + 1)) (frame ! (off + 3 * i + 2)))
       \<and> - (2 ^ 23) \<le> sint (ret' ! i) \<and> sint (ret' ! i) < 2 ^ 23)"
proof -
  have s: "sint (longs_at frame off (nat cnt) ! i)
      = signed24 (be24 (frame ! (off + 3 * i)) (frame ! (off + 3 * i + 1)) (frame ! (off + 3 * i + 2)))"
    if "i < nat cnt" for i
    using that by (simp add: longs_at_def sint_dec_long)
  have b: "- (2 ^ 23) \<le> signed24 (be24 x y z)" "signed24 (be24 x y z) < 2 ^ 23" for x y z
    using signed24_bounds [of "be24 x y z"] be24_bounds [of x y z] by auto
  show ?thesis
    using assms s b
    by (intro exI [of _ "longs_at frame off (nat cnt) @ drop (nat cnt) ret"])
      (simp add: frame2long_spec nth_append)
qed

theorem frame2long_sign_extends_witness:
  "\<exists>ret'. frame2long [0, 0, 0, 0xFF, 0xFF, 0xFE, 0x7F, 0xFF, 0xFF] 3 [7, 7, 7] 2 = Some (6, ret')
     \<and> sint (ret' ! 0) = -2 \<and> sint (ret' ! 1) = 8388607 \<and> length ret' = 3"
proof -
  let ?f = "[0, 0, 0, 0xFF, 0xFF, 0xFE, 0x7F, 0xFF, 0xFF] :: byte list"
  have "(0::int) \<le> 2" "nat 2 \<le> length [7, 7, 7 :: s32]" "3 + 3 * nat 2 \<le> length ?f" by simp_all
  from frame2long_sign_extends [OF this] obtain ret' where
    r: "frame2long ?f 3 [7, 7, 7] 2 = Some (6, ret')" "length ret' = 3"
    and v: "\<And>i. i < nat 2 \<Longrightarrow> sint (ret' ! i)
      = signed24 (be24 (?f ! (3 + 3 * i)) (?f ! (3 + 3 * i + 1)) (?f ! (3 + 3 * i + 2)))"
    by auto
  have "sint (ret' ! 0) = -2" using v [of 0] by (simp add: be24_def signed24_def)
  moreover have "sint (ret' ! 1) = 8388607" using v [of 1] by (simp add: be24_def signed24_def)
  ultimately show ?thesis using r by blast
qed

end
