(* ===== verification/Driver_State.thy ===== *)
theory Driver_State
  imports Linked_List Frame
begin

text \<open>
  The state of the driver: the static variables of \<open>src/ads131m08_data.c\<close>, \<open>_spi.c\<close>, \<open>_gpio.c\<close>
  and \<open>_iface.c\<close>, the fields of \<open>ads131m08_data_t\<close> they use, and the memory behind their
  pointers. The kernel and the device are not part of the repository: their calls are the
  fields of \<open>kenv\<close>, over a state \<open>'d\<close> of which nothing is assumed. Calls whose order matters
  (SPI transfers, IRQ registration, wake-ups, pins, registrations) are also recorded in \<open>klog\<close>.
\<close>

section \<open>Objects\<close>

text \<open>The four lists (\<open>list_t\<close>) and what is linked on them: chunk buffers (by index in
  \<open>chunk_buf_list\<close>) and SPI transfer buffers (by allocation number).\<close>

datatype lid = ReadyL | ActiveL | FreeL | XferL

datatype obj = Chunk nat | Xfer nat

record smpl =
  s_ts :: int
  s_data :: "s32 list"

record chunk_buf =
  c_stat :: int
  c_data :: "smpl list"
  c_chunk_sz :: int
  c_idx :: int
  c_xfer :: "obj option"

record xfer =
  x_rx :: "byte list"
  x_tx :: "byte list"

definition ADC_CH_NUM :: int where "ADC_CH_NUM = 8"
definition MAX_CHUNK_SZ :: int where "MAX_CHUNK_SZ = 320"
definition DEFAULT_CHUNK_SZ :: int where "DEFAULT_CHUNK_SZ = 40"
definition BUF_STAT_FREE :: int where "BUF_STAT_FREE = 0"
definition BUF_STAT_READY :: int where "BUF_STAT_READY = 1"
definition BUF_STAT_ACTIVE :: int where "BUF_STAT_ACTIVE = 2"
definition ADC_RUN :: int where "ADC_RUN = 1"
definition ADC_STOP :: int where "ADC_STOP = 0"
definition SUCCESS :: int where "SUCCESS = 0"
definition FAIL :: int where "FAIL = -1"
definition CHUNK_BUF_CNT :: nat where "CHUNK_BUF_CNT = 8"
definition XFER_BUF_NUM :: nat where "XFER_BUF_NUM = 8"
definition MAX_BUF_SZ :: int where "MAX_BUF_SZ = 2048"

lemmas dev_consts = ADC_CH_NUM_def MAX_CHUNK_SZ_def DEFAULT_CHUNK_SZ_def BUF_STAT_FREE_def
  BUF_STAT_READY_def BUF_STAT_ACTIVE_def ADC_RUN_def ADC_STOP_def SUCCESS_def FAIL_def
  CHUNK_BUF_CNT_def XFER_BUF_NUM_def MAX_BUF_SZ_def

definition zero_smpl :: smpl where
  "zero_smpl = \<lparr>s_ts = 0, s_data = replicate (nat ADC_CH_NUM) 0\<rparr>"

definition zero_chunk_buf :: chunk_buf where
  "zero_chunk_buf = \<lparr>c_stat = 0, c_data = replicate (nat MAX_CHUNK_SZ) zero_smpl, c_chunk_sz = 0,
     c_idx = 0, c_xfer = None\<rparr>"

definition zero_xfer :: xfer where
  "zero_xfer = \<lparr>x_rx = replicate (nat MAX_BUF_SZ) 0, x_tx = replicate (nat MAX_BUF_SZ) 0\<rparr>"

section \<open>The kernel\<close>

datatype kev =
    KSpi "byte list"
  | KGpio bool
  | KMsleep nat
  | KUdelay nat
  | KRequestIrq int
  | KFreeIrq int
  | KWakeUp
  | KSpiSetup
  | KProcCreate
  | KProcRemove
  | KAllocRegion
  | KUnregRegion
  | KCdevAdd
  | KCdevDel
  | KClassCreate
  | KClassDestroy
  | KDevCreate
  | KDevDestroy

text \<open>
  \<^item> \<open>spi_sync_transfer d tx\<close>: return code and the byte clocked in at each position.
  \<^item> \<open>kzalloc d\<close>, \<open>devm_kzalloc d\<close>: whether the allocation succeeds.
  \<^item> \<open>copy_from_user d p n\<close>: the 16-bit words read from user address \<open>p\<close> (the first \<open>n\<close>
    are copied), or \<open>None\<close> for a fault; user memory is shared with other threads, so two
    calls need not agree.
  \<^item> \<open>copy_to_user d p ws\<close>, \<open>copy_smpls_to_user d ms\<close>: whether everything was copied.
  \<^item> \<open>spi_max_speed_hz d\<close>: the clock limit the bus gave the device, zero when it gave none;
    \<open>spi_setup d mode hz\<close>: configuring the device with that mode and that clock limit.
  \<^item> the remaining calls return the integer (or the pointer read as zero, positive, or a
    negative error) of the kernel function of that name.
\<close>

record 'd kenv =
  spi_sync_transfer :: "'d \<Rightarrow> byte list \<Rightarrow> int \<times> (nat \<Rightarrow> byte) \<times> 'd"
  ktime_get_real :: "'d \<Rightarrow> int \<times> 'd"
  kzalloc :: "'d \<Rightarrow> bool \<times> 'd"
  devm_kzalloc :: "'d \<Rightarrow> bool \<times> 'd"
  copy_from_user :: "'d \<Rightarrow> u64 \<Rightarrow> nat \<Rightarrow> (nat \<Rightarrow> u16) option \<times> 'd"
  copy_to_user :: "'d \<Rightarrow> u64 \<Rightarrow> u16 list \<Rightarrow> bool \<times> 'd"
  copy_smpls_to_user :: "'d \<Rightarrow> smpl list \<Rightarrow> bool \<times> 'd"
  access_ok :: "'d \<Rightarrow> u64 \<Rightarrow> nat \<Rightarrow> bool"
  request_threaded_irq :: "'d \<Rightarrow> int \<Rightarrow> int \<times> 'd"
  spi_max_speed_hz :: "'d \<Rightarrow> nat"
  spi_setup :: "'d \<Rightarrow> nat \<Rightarrow> nat \<Rightarrow> int \<times> 'd"
  gpiod_get_drdy :: "'d \<Rightarrow> int \<times> 'd"
  gpiod_get_reset :: "'d \<Rightarrow> int \<times> 'd"
  gpiod_to_irq :: "'d \<Rightarrow> int \<times> 'd"
  proc_create :: "'d \<Rightarrow> bool \<times> 'd"
  alloc_chrdev_region :: "'d \<Rightarrow> int \<times> 'd"
  cdev_add :: "'d \<Rightarrow> int \<times> 'd"
  class_create :: "'d \<Rightarrow> int \<times> 'd"
  device_create :: "'d \<Rightarrow> int \<times> 'd"

section \<open>The driver's variables\<close>

record 'd drv = "(lid, obj) lheap" +
  dev :: 'd
  klog :: "kev list"
  \<comment> \<open>data.c\<close>
  ads131m08_data :: bool
  ready_list :: "lid option"
  active_list :: "lid option"
  free_list :: "lid option"
  chunk_sz :: int
  chunk_buf_list :: "chunk_buf list option"
  run_stat :: int
  drop_cnt :: u64
  adc_lock :: int
  smpl_ts :: int
  \<comment> \<open>spi.c\<close>
  xfer_list :: "lid option"
  spi_hdlr :: bool
  xmem :: "nat \<Rightarrow> xfer option"
  next_xfer :: nat
  \<comment> \<open>gpio.c\<close>
  irq_registered :: bool
  gpio_irq_no :: int
  reset_gpiod :: bool
  \<comment> \<open>iface.c\<close>
  open_cnt :: int
  proc_file :: bool
  data_cl :: bool

definition log_ev :: "kev \<Rightarrow> 'd drv \<Rightarrow> 'd drv" where
  "log_ev e s = s\<lparr>klog := klog s @ [e]\<rparr>"

lemma log_ev_simps [simp]:
  "elms (log_ev e s) = elms s"
  "hdrs (log_ev e s) = hdrs s"
  "dev (log_ev e s) = dev s"
  "ads131m08_data (log_ev e s) = ads131m08_data s"
  "ready_list (log_ev e s) = ready_list s"
  "active_list (log_ev e s) = active_list s"
  "free_list (log_ev e s) = free_list s"
  "chunk_sz (log_ev e s) = chunk_sz s"
  "chunk_buf_list (log_ev e s) = chunk_buf_list s"
  "run_stat (log_ev e s) = run_stat s"
  "drop_cnt (log_ev e s) = drop_cnt s"
  "adc_lock (log_ev e s) = adc_lock s"
  "smpl_ts (log_ev e s) = smpl_ts s"
  "xfer_list (log_ev e s) = xfer_list s"
  "spi_hdlr (log_ev e s) = spi_hdlr s"
  "xmem (log_ev e s) = xmem s"
  "next_xfer (log_ev e s) = next_xfer s"
  "irq_registered (log_ev e s) = irq_registered s"
  "gpio_irq_no (log_ev e s) = gpio_irq_no s"
  "reset_gpiod (log_ev e s) = reset_gpiod s"
  "open_cnt (log_ev e s) = open_cnt s"
  "proc_file (log_ev e s) = proc_file s"
  "data_cl (log_ev e s) = data_cl s"
  "klog (log_ev e s) = klog s @ [e]"
  by (simp_all add: log_ev_def)

definition kcall :: "('d \<Rightarrow> 'r \<times> 'd) \<Rightarrow> 'd drv \<Rightarrow> 'r \<times> 'd drv" where
  "kcall f s = (case f (dev s) of (r, d) \<Rightarrow> (r, s\<lparr>dev := d\<rparr>))"

text \<open>Reading a list element as a chunk buffer or a transfer buffer; another kind of object
  behind the pointer is a fault.\<close>

fun as_chunk :: "obj \<Rightarrow> nat option" where
  "as_chunk (Chunk b) = Some b"
| "as_chunk (Xfer _) = None"

fun as_xfer :: "obj \<Rightarrow> nat option" where
  "as_xfer (Xfer x) = Some x"
| "as_xfer (Chunk _) = None"

definition get_buf :: "nat \<Rightarrow> 'd drv \<Rightarrow> chunk_buf option" where
  "get_buf b s = (case chunk_buf_list s of None \<Rightarrow> None | Some bs \<Rightarrow> nth_opt bs b)"

definition upd_buf :: "nat \<Rightarrow> (chunk_buf \<Rightarrow> chunk_buf) \<Rightarrow> 'd drv \<Rightarrow> 'd drv option" where
  "upd_buf b f s =
     (case chunk_buf_list s of
        None \<Rightarrow> None
      | Some bs \<Rightarrow> if b < length bs then Some (s\<lparr>chunk_buf_list := Some (bs[b := f (bs ! b)])\<rparr>) else None)"

definition upd_xmem :: "nat \<Rightarrow> (xfer \<Rightarrow> xfer) \<Rightarrow> 'd drv \<Rightarrow> 'd drv option" where
  "upd_xmem x f s =
     (case xmem s x of None \<Rightarrow> None | Some m \<Rightarrow> Some (s\<lparr>xmem := (xmem s)(x \<mapsto> f m)\<rparr>))"

section \<open>An instance\<close>

text \<open>Kernels in which every call succeeds (but \<open>k_base\<close> has no user memory to read), and the
  driver's variables before probe; the examples run on them. In \<open>k0\<close> user memory holds the header
  \<open>start_addr = 2\<close>, \<open>reg_count = 2\<close> and the data 3, 4, \<open>\<dots>\<close>.\<close>

definition k_base :: "'d kenv" where
  "k_base = \<lparr>spi_sync_transfer = (\<lambda>d tx. (0, (\<lambda>i. of_nat (3 * i)), d)), ktime_get_real = (\<lambda>d. (77, d)),
     kzalloc = (\<lambda>d. (True, d)), devm_kzalloc = (\<lambda>d. (True, d)),
     copy_from_user = (\<lambda>d p n. (None, d)),
     copy_to_user = (\<lambda>d p ws. (True, d)), copy_smpls_to_user = (\<lambda>d ms. (True, d)),
     access_ok = (\<lambda>d p n. True), request_threaded_irq = (\<lambda>d n. (0, d)), 
     spi_max_speed_hz = (\<lambda>d. 0), spi_setup = (\<lambda>d m hz. (0, d)),
     gpiod_get_drdy = (\<lambda>d. (1, d)), gpiod_get_reset = (\<lambda>d. (1, d)), gpiod_to_irq = (\<lambda>d. (9, d)),
     proc_create = (\<lambda>d. (True, d)), alloc_chrdev_region = (\<lambda>d. (0, d)), cdev_add = (\<lambda>d. (0, d)),
     class_create = (\<lambda>d. (1, d)), device_create = (\<lambda>d. (1, d))\<rparr>"

definition k0 :: "unit kenv" where
  "k0 = k_base\<lparr>copy_from_user := (\<lambda>d p n. (Some (\<lambda>i. if i \<le> 1 then 2 else of_nat (Suc i)), d))\<rparr>"

lemmas k0_simps = k0_def k_base_def

definition drv_off :: "'d \<Rightarrow> 'd drv" where
  "drv_off d = \<lparr>elms = (\<lambda>_. None), hdrs = (\<lambda>_. None), dev = d, klog = [], ads131m08_data = False,
     ready_list = None, active_list = None, free_list = None, chunk_sz = 0, chunk_buf_list = None,
     run_stat = 0, drop_cnt = 0, adc_lock = 0, smpl_ts = 0, xfer_list = None, spi_hdlr = False,
     xmem = (\<lambda>_. None), next_xfer = 0, irq_registered = False, gpio_irq_no = 0, reset_gpiod = False,
     open_cnt = 0, proc_file = False, data_cl = False\<rparr>"

definition drv0 :: "unit drv" where "drv0 = drv_off ()"

end
