(* ===== verification/Spi_Xfer.thy ===== *)
theory Spi_Xfer
  imports Driver_State
begin

text \<open>
  The transport half of \<open>src/ads131m08_spi.c\<close>: the pool of transfer buffers, the full-duplex
  exchange \<open>adc_trx\<close>, register access and device commands. NULL array arguments are empty
  arrays; \<open>spi_io_lock\<close> makes a transfer one atomic step.
\<close>

section \<open>The pool of transfer buffers\<close>

definition xfer_new :: "'d kenv \<Rightarrow> 'd drv \<Rightarrow> obj option \<times> 'd drv" where
  "xfer_new K s =
     (case kcall (kzalloc K) s of (ok, s) \<Rightarrow>
        if ok then
          let x = next_xfer s in
          (Some (Xfer x),
           s\<lparr>elms := (elms s)(Xfer x \<mapsto> zero_elm), xmem := (xmem s)(x \<mapsto> zero_xfer), next_xfer := Suc x\<rparr>)
        else (None, s))"

definition free_xfer :: "obj \<Rightarrow> 'd drv \<Rightarrow> 'd drv option" where
  "free_xfer args s = do {
     x \<leftarrow> as_xfer args;
     m \<leftarrow> xmem s x;
     s \<leftarrow> kfree_elm args s;
     Some (s\<lparr>xmem := (xmem s)(x := None)\<rparr>) }"

definition xfer_buf_free :: "'d drv \<Rightarrow> 'd drv option" where
  "xfer_buf_free s =
     (if xfer_list s = None then Some s else list_cleanup (xfer_list s) (Some free_xfer) s)"

text \<open>\<open>list_new (ads131m08_dev)\<close>, for the header \<open>l\<close>.\<close>

definition new_list :: "'d kenv \<Rightarrow> lid \<Rightarrow> 'd drv \<Rightarrow> lid option \<times> 'd drv" where
  "new_list K l s =
     (case kcall (devm_kzalloc K) s of (ok, s) \<Rightarrow> list_new (if ok then Some l else None) s)"

fun xfer_buf_init_loop :: "'d kenv \<Rightarrow> nat \<Rightarrow> 'd drv \<Rightarrow> (int \<times> 'd drv) option" where
  "xfer_buf_init_loop K 0 s = Some (0, s)"
| "xfer_buf_init_loop K (Suc n) s =
     (case xfer_new K s of (xfer, s) \<Rightarrow>
        if xfer = None then Some (- ENOMEM, s)
        else do { s \<leftarrow> list_append (xfer_list s) xfer s; xfer_buf_init_loop K n s })"

definition xfer_buf_init :: "'d kenv \<Rightarrow> 'd drv \<Rightarrow> (int \<times> 'd drv) option" where
  "xfer_buf_init K s =
     (case new_list K XferL s of (l, s) \<Rightarrow>
        let s = s\<lparr>xfer_list := l\<rparr> in
        if l = None then Some (- ENOMEM, s) else xfer_buf_init_loop K XFER_BUF_NUM s)"

definition get_xfer_buf :: "'d drv \<Rightarrow> (obj option \<times> 'd drv) option" where
  "get_xfer_buf s = list_fetch (xfer_list s) s"

definition return_xfer_buf :: "obj option \<Rightarrow> 'd drv \<Rightarrow> 'd drv option" where
  "return_xfer_buf xfer s = (if xfer = None then Some s else list_append (xfer_list s) xfer s)"

section \<open>One exchange with the device\<close>

definition CMD_NULL :: u16 where "CMD_NULL = 0x0000"
definition CMD_RESET :: u16 where "CMD_RESET = 0x0011"
definition CMD_STANDBY :: u16 where "CMD_STANDBY = 0x0022"
definition CMD_WAKEUP :: u16 where "CMD_WAKEUP = 0x0033"
definition CMD_LOCK :: u16 where "CMD_LOCK = 0x0555"
definition CMD_UNLOCK :: u16 where "CMD_UNLOCK = 0x0655"
definition CMD_RREG :: u16 where "CMD_RREG = 0xA000"
definition CMD_WREG :: u16 where "CMD_WREG = 0x6000"

definition spi_sync :: "'d kenv \<Rightarrow> byte list \<Rightarrow> 'd drv \<Rightarrow> int \<times> (nat \<Rightarrow> byte) \<times> 'd drv" where
  "spi_sync K tx s =
     (case spi_sync_transfer K (dev s) tx of (ret, rx, d) \<Rightarrow>
        (ret, rx, s\<lparr>dev := d, klog := klog s @ [KSpi tx]\<rparr>))"

text \<open>The controller fills the first \<open>len\<close> bytes of the receive buffer.\<close>

definition rx_fill :: "nat \<Rightarrow> (nat \<Rightarrow> byte) \<Rightarrow> byte list \<Rightarrow> byte list" where
  "rx_fill len rx buf = map rx [0..<len] @ drop len buf"

text \<open>\<open>adc_trx\<close> returns its return code, the word stored through \<open>status\<close> (if it gets that
  far) and the receive array after \<open>frame_conv\<close>.\<close>

definition adc_trx ::
  "'d kenv \<Rightarrow> u16 \<Rightarrow> u16 list \<Rightarrow> int \<Rightarrow> u16 list option \<Rightarrow> int
     \<Rightarrow> (byte list \<Rightarrow> nat \<Rightarrow> u16 list \<Rightarrow> int \<Rightarrow> (nat \<times> u16 list) option) option \<Rightarrow> 'd drv
     \<Rightarrow> (int \<times> u16 option \<times> u16 list option \<times> 'd drv) option" where
  "adc_trx K cmd tx tx_cnt rx rx_cnt frame_conv s =
     (if \<not> spi_hdlr s then Some (- ENODEV, None, rx, s)
      else
        let xfer_cnt = (if tx_cnt > rx_cnt then tx_cnt else rx_cnt);
            xfer_cnt = (if xfer_cnt = 0 then 1 else int32 (xfer_cnt + 2));
            xfer_len = int32 (xfer_cnt * BYTE_PER_WORD)
        in
        if xfer_len > MAX_BUF_SZ then Some (- EINVAL, None, rx, s)
        else do {
          (xfer, s) \<leftarrow> get_xfer_buf s;
          (case xfer of
             None \<Rightarrow> Some (- ENOMEM, None, rx, s)
           | Some ob \<Rightarrow> do {
               x \<leftarrow> as_xfer ob;
               m \<leftarrow> xmem s x;
               tx_buf \<leftarrow> memset0 (x_tx m) xfer_len;
               rx_buf \<leftarrow> memset0 (x_rx m) xfer_len;
               (idx, tx_buf) \<leftarrow> word2frame [cmd] tx_buf 0 1;
               (idx, tx_buf) \<leftarrow>
                 (if tx_cnt > 0
                  then do { (n, b) \<leftarrow> word2frame tx tx_buf idx tx_cnt; Some (idx + n, b) }
                  else Some (idx, tx_buf));
               let (ret, rxd, s) = spi_sync K (take (nat xfer_len) tx_buf) s;
               let rx_buf = rx_fill (nat xfer_len) rxd rx_buf;
               s \<leftarrow> upd_xmem x (\<lambda>m. m\<lparr>x_tx := tx_buf, x_rx := rx_buf\<rparr>) s;
               (if ret < 0
                then do { s \<leftarrow> return_xfer_buf (Some ob) s; Some (ret, None, rx, s) }
                else do {
                  (idx, tmp16) \<leftarrow> frame2word rx_buf 0 [0] 1;
                  rx \<leftarrow> (case (rx, frame_conv) of
                          (Some r, Some conv) \<Rightarrow> do { (_, r) \<leftarrow> conv rx_buf idx r rx_cnt; Some (Some r) }
                        | _ \<Rightarrow> Some rx);
                  s \<leftarrow> return_xfer_buf (Some ob) s;
                  Some (ret, Some (tmp16 ! 0), rx, s)
                })
             })
        })"

section \<open>Registers and commands\<close>

definition read_stat :: "'d kenv \<Rightarrow> 'd drv \<Rightarrow> (int \<times> u16 option \<times> 'd drv) option" where
  "read_stat K s = do {
     (ret, st, _, s) \<leftarrow> adc_trx K CMD_NULL [] 0 None 0 None s;
     Some (ret, st, s) }"

definition ads131m08_read_stat :: "'d kenv \<Rightarrow> 'd drv \<Rightarrow> (int \<times> u16 option \<times> 'd drv) option" where
  "ads131m08_read_stat K s = read_stat K s"

text \<open>The command word: the operands are promoted to \<open>int\<close> and the result is cut to 16 bits.\<close>

definition reg_cmd :: "u16 \<Rightarrow> byte \<Rightarrow> int \<Rightarrow> u16" where
  "reg_cmd opc start_addr cnt =
     ucast ((ucast opc :: s32) OR push_bit 7 (ucast start_addr) OR word_of_int (cnt - 1))"

definition ads131m08_reg_read ::
  "'d kenv \<Rightarrow> byte \<Rightarrow> int \<Rightarrow> u16 list \<Rightarrow> 'd drv \<Rightarrow> (int \<times> u16 list \<times> 'd drv) option" where
  "ads131m08_reg_read K start_addr cnt ret_reg s = do {
     (ret, _, _, s) \<leftarrow> adc_trx K (reg_cmd CMD_RREG start_addr cnt) [] 0 None ADC_CH_NUM None s;
     (if ret < 0 then Some (ret, ret_reg, s)
      else do {
        (ret, status, rx, s) \<leftarrow> adc_trx K CMD_NULL [] 0 (Some ret_reg) cnt (Some frame2word) s;
        ret_reg \<leftarrow> rx;
        (if ret < 0 then Some (ret, ret_reg, s)
         else if cnt = 1
         then do { w \<leftarrow> status; r \<leftarrow> upd_opt ret_reg 0 w; Some (ret, r, s) }
         else Some (ret, ret_reg, s))
      }) }"

definition ads131m08_reg_write ::
  "'d kenv \<Rightarrow> byte \<Rightarrow> int \<Rightarrow> u16 list \<Rightarrow> 'd drv \<Rightarrow> (int \<times> u16 list \<times> 'd drv) option" where
  "ads131m08_reg_write K start_addr cnt reg_val s = do {
     (ret, _, _, s) \<leftarrow> adc_trx K (reg_cmd CMD_WREG start_addr cnt) reg_val cnt None 0 None s;
     (if ret < 0 then Some (ret, reg_val, s)
      else do { (ret, _, s) \<leftarrow> read_stat K s; Some (ret, reg_val, s) }) }"

definition cmd_strobe ::
  "'d kenv \<Rightarrow> u16 \<Rightarrow> u16 list \<Rightarrow> int \<Rightarrow> int \<Rightarrow> 'd drv \<Rightarrow> (int \<times> 'd drv) option" where
  "cmd_strobe K cmd data cnt wait_usec s = do {
     (ret, _, _, s) \<leftarrow> adc_trx K cmd data cnt None 0 None s;
     (if ret < 0 then Some (ret, s)
      else Some (ret, if wait_usec > 0 then log_ev (KUdelay (nat wait_usec)) s else s)) }"

definition ads131m08_cmd_standby :: "'d kenv \<Rightarrow> 'd drv \<Rightarrow> (int \<times> 'd drv) option" where
  "ads131m08_cmd_standby K s = cmd_strobe K CMD_STANDBY [] 0 0 s"

definition ads131m08_cmd_wakeup :: "'d kenv \<Rightarrow> 'd drv \<Rightarrow> (int \<times> 'd drv) option" where
  "ads131m08_cmd_wakeup K s = cmd_strobe K CMD_WAKEUP [] 0 0 s"

definition ads131m08_cmd_reset :: "'d kenv \<Rightarrow> 'd drv \<Rightarrow> (int \<times> 'd drv) option" where
  "ads131m08_cmd_reset K s = do {
     (ret, s) \<leftarrow> cmd_strobe K CMD_RESET (replicate 8 0) 8 10 s;
     (if ret < 0 then Some (ret, s)
      else do { (ret, _, s) \<leftarrow> read_stat K s; Some (ret, s) }) }"

definition ads131m08_cmd_lock :: "'d kenv \<Rightarrow> 'd drv \<Rightarrow> (int \<times> 'd drv) option" where
  "ads131m08_cmd_lock K s = cmd_strobe K CMD_LOCK [] 0 0 s"

definition ads131m08_cmd_unlock :: "'d kenv \<Rightarrow> 'd drv \<Rightarrow> (int \<times> 'd drv) option" where
  "ads131m08_cmd_unlock K s = cmd_strobe K CMD_UNLOCK [] 0 0 s"

definition ads131m08_spi_exit :: "'d drv \<Rightarrow> 'd drv option" where
  "ads131m08_spi_exit s = do {
     s \<leftarrow> xfer_buf_free (s\<lparr>spi_hdlr := False\<rparr>);
     Some (s\<lparr>xfer_list := None\<rparr>) }"

definition ads131m08_spi_init :: "'d kenv \<Rightarrow> 'd drv \<Rightarrow> (int \<times> 'd drv) option" where
  "ads131m08_spi_init K s = do {
     (ret, s) \<leftarrow> xfer_buf_init K s;
     (if ret < 0 then Some (ret, s) else Some (0, s\<lparr>spi_hdlr := True\<rparr>)) }"

section \<open>The pool invariant\<close>

definition xfer_ok :: "xfer \<Rightarrow> bool" where
  "xfer_ok m \<longleftrightarrow> length (x_rx m) = nat MAX_BUF_SZ \<and> length (x_tx m) = nat MAX_BUF_SZ"

definition mem_ok :: "(nat \<Rightarrow> xfer option) \<Rightarrow> nat set \<Rightarrow> bool" where
  "mem_ok M X \<longleftrightarrow> (\<forall>x \<in> X. \<exists>m. M x = Some m \<and> xfer_ok m)"

definition xfer_pool :: "'d drv \<Rightarrow> (lid \<Rightarrow> obj list option) \<Rightarrow> nat list \<Rightarrow> bool" where
  "xfer_pool s L xs \<longleftrightarrow>
     heap_rep s L \<and> xfer_list s = Some XferL \<and> L XferL = Some (map Xfer xs) \<and> mem_ok (xmem s) (set xs)"

lemma get_xfer_buf_pool:
  assumes "xfer_pool s L (x # xs)"
  obtains E D where "get_xfer_buf s = Some (Some (Xfer x), s\<lparr>elms := E, hdrs := D\<rparr>)"
    and "rep E D (L(XferL \<mapsto> map Xfer xs))" and "dom E = dom (elms s)" and "loose E (Xfer x)"
proof -
  have R: "heap_rep s L" and l: "L XferL = Some (Xfer x # map Xfer xs)"
    using assms by (simp_all add: xfer_pool_def)
  from R l obtain E D where "list_fetch (Some XferL) s = Some (Some (Xfer x), s\<lparr>elms := E, hdrs := D\<rparr>)"
    "rep E D (L(XferL \<mapsto> map Xfer xs))" "dom E = dom (elms s)" "E (Xfer x) = Some zero_elm"
    by (rule list_fetch_rep)
  with assms show thesis
    by (intro that [of D E]) (simp_all add: get_xfer_buf_def xfer_pool_def loose_def zero_elm_def)
qed

lemma get_xfer_buf_empty:
  assumes "xfer_pool s L []"
  shows "get_xfer_buf s = Some (None, s)"
  using assms list_fetch_empty [of s L XferL] by (simp add: get_xfer_buf_def xfer_pool_def)

lemma return_xfer_buf_pool:
  assumes R: "heap_rep s L" and q: "xfer_list s = Some XferL" and l: "L XferL = Some (map Xfer xs)"
    and x: "loose (elms s) (Xfer x)"
  obtains E D where "return_xfer_buf (Some (Xfer x)) s = Some (s\<lparr>elms := E, hdrs := D\<rparr>)"
    and "rep E D (L(XferL \<mapsto> map Xfer (xs @ [x])))" and "dom E = dom (elms s)"
proof -
  from R l x obtain E D where
    "list_append (Some XferL) (Some (Xfer x)) s = Some (s\<lparr>elms := E, hdrs := D\<rparr>)"
    "rep E D (L(XferL \<mapsto> map Xfer xs @ [Xfer x]))" "dom E = dom (elms s)"
    by (rule list_append_rep)
  with q show thesis by (intro that [of D E]) (simp_all add: return_xfer_buf_def)
qed

section \<open>What an exchange sends and receives\<close>

definition trx_words :: "int \<Rightarrow> int \<Rightarrow> nat" where
  "trx_words t r = (let m = max (nat t) (nat r) in if m = 0 then 1 else m + 2)"

definition trx_frame :: "u16 \<Rightarrow> u16 list \<Rightarrow> nat \<Rightarrow> byte list" where
  "trx_frame cmd ws n =
     enc_word cmd @ concat (map enc_word ws) @ replicate (3 * n - 3 - 3 * length ws) 0"

definition rx_words :: "(nat \<Rightarrow> byte) \<Rightarrow> nat \<Rightarrow> u16 list" where
  "rx_words rxd n = map (\<lambda>i. dec_word (rxd (3 + 3 * i)) (rxd (3 + 3 * i + 1))) [0..<n]"

lemma trx_words_bounds:
  "nat t + 1 \<le> trx_words t r" "nat r + 1 \<le> trx_words t r" "0 < trx_words t r"
  by (auto simp: trx_words_def Let_def max_def)

lemma trx_len:
  assumes "0 \<le> t" "0 \<le> r" "t \<le> 100000" "r \<le> 100000"
  shows "(let c = (if t > r then t else r); c = (if c = 0 then 1 else int32 (c + 2))
          in int32 (c * BYTE_PER_WORD)) = 3 * int (trx_words t r)"
  using assms by (auto simp: trx_words_def BYTE_PER_WORD_def Let_def int32_id max_def)

lemma tx_build:
  assumes old: "length old = nat MAX_BUF_SZ" and n: "3 * n \<le> nat MAX_BUF_SZ"
    and t: "nat tx_cnt + 1 \<le> n" "nat tx_cnt \<le> length tx"
  obtains b0 b1 where "memset0 old (3 * int n) = Some b0" "word2frame [cmd] b0 0 1 = Some (3, b1)"
    and "(if tx_cnt > 0
          then do { (k, b) \<leftarrow> word2frame tx b1 3 tx_cnt; Some (3 + k, b) }
          else Some (3, b1))
      = Some (3 + 3 * nat tx_cnt, trx_frame cmd (take (nat tx_cnt) tx) n @ drop (3 * n) old)"
proof -
  let ?b0 = "replicate (3 * n) 0 @ drop (3 * n) old :: byte list"
  let ?b1 = "enc_word cmd @ drop 3 ?b0"
  have len0: "length ?b0 = nat MAX_BUF_SZ" using old n by simp
  have b0: "memset0 old (3 * int n) = Some ?b0"
    using old n by (simp add: memset0_def nat_mult_distrib)
  have b1: "word2frame [cmd] ?b0 0 1 = Some (3, ?b1)"
    using len0 n t by (simp add: word2frame_spec)
  have len1: "length ?b1 = nat MAX_BUF_SZ" using len0 n t by (simp add: enc_word_def)
  have drop1: "drop (3 + 3 * nat tx_cnt) ?b1 = replicate (3 * n - 3 - 3 * nat tx_cnt) 0 @ drop (3 * n) old"
    unfolding drop_enc_word using n t old by simp
  have b2: "word2frame tx ?b1 3 tx_cnt
      = Some (3 * nat tx_cnt, trx_frame cmd (take (nat tx_cnt) tx) n @ drop (3 * n) old)"
  proof -
    have "word2frame tx ?b1 3 tx_cnt = Some (3 * nat tx_cnt, take 3 ?b1
        @ concat (map enc_word (take (nat tx_cnt) tx)) @ drop (3 + 3 * nat tx_cnt) ?b1)"
      using t n len1 by (intro word2frame_spec) simp_all
    moreover have "take 3 ?b1 = enc_word cmd" by (simp add: enc_word_def)
    ultimately show ?thesis using drop1 t by (simp add: trx_frame_def min_def)
  qed
  have b2': "?b1 = trx_frame cmd (take (nat tx_cnt) tx) n @ drop (3 * n) old" if "\<not> tx_cnt > 0"
    using that n t old by (simp add: trx_frame_def)
  show thesis by (rule that [OF b0 b1]) (use b2 b2' in auto)
qed

lemma length_trx_frame:
  "length ws + 1 \<le> n \<Longrightarrow> length (trx_frame cmd ws n) = 3 * n"
  by (simp add: trx_frame_def)

lemma rx_fill_words:
  assumes "n + 1 \<le> w" "3 * w \<le> length buf"
  shows "words_at (rx_fill (3 * w) rxd buf) 3 n = rx_words rxd n"
    and "words_at (rx_fill (3 * w) rxd buf) 0 1 = [dec_word (rxd 0) (rxd 1)]"
  using assms by (auto simp: words_at_def rx_words_def rx_fill_def nth_append)

text \<open>What \<open>adc_trx\<close> hands back in its receive array.\<close>

definition trx_rx :: "u16 list option \<Rightarrow> int \<Rightarrow> (nat \<Rightarrow> byte) \<Rightarrow> u16 list option" where
  "trx_rx rx rx_cnt rxd = map_option (\<lambda>r. rx_words rxd (nat rx_cnt) @ drop (nat rx_cnt) r) rx"

text \<open>The receive side of a transfer buffer: cleared, filled by the exchange, decoded.\<close>

lemma trx_recv:
  assumes len: "length old = nat MAX_BUF_SZ" and w: "3 * w \<le> nat MAX_BUF_SZ" "0 < w" "n + 1 \<le> w"
  defines "z \<equiv> replicate (3 * w) 0 @ drop (3 * w) old"
  shows "memset0 old (3 * int w) = Some z" "length (rx_fill (3 * w) rxd z) = nat MAX_BUF_SZ"
    and "frame2word (rx_fill (3 * w) rxd z) 0 [0] 1 = Some (3, [dec_word (rxd 0) (rxd 1)])"
    and "words_at (rx_fill (3 * w) rxd z) 3 n = rx_words rxd n" "3 + 3 * n \<le> length (rx_fill (3 * w) rxd z)"
proof -
  have lz: "length z = nat MAX_BUF_SZ" using len w by (simp add: z_def)
  then show l: "length (rx_fill (3 * w) rxd z) = nat MAX_BUF_SZ" using w by (simp add: rx_fill_def)
  show "memset0 old (3 * int w) = Some z" using w len by (simp add: z_def memset0_def nat_mult_distrib)
  show "frame2word (rx_fill (3 * w) rxd z) 0 [0] 1 = Some (3, [dec_word (rxd 0) (rxd 1)])"
    using l w rx_fill_words(2) [of 0 w z rxd] lz by (simp add: frame2word_spec)
  show "words_at (rx_fill (3 * w) rxd z) 3 n = rx_words rxd n" using rx_fill_words(1) [of n w z rxd] w lz by simp
  show "3 + 3 * n \<le> length (rx_fill (3 * w) rxd z)" using l w by simp
qed

text \<open>The number of bytes \<open>adc_trx\<close> computes.\<close>

lemma trx_bytes:
  assumes "0 \<le> t" "0 \<le> r" "t \<le> 680" "r \<le> 680"
  shows "int32 ((if (if t > r then t else r) = 0 then 1 else int32 ((if t > r then t else r) + 2)) * BYTE_PER_WORD)
      = 3 * int (trx_words t r)" "3 * trx_words t r \<le> nat MAX_BUF_SZ" "\<not> 3 * int (trx_words t r) > MAX_BUF_SZ"
proof -
  show w: "3 * trx_words t r \<le> nat MAX_BUF_SZ"
    using assms by (auto simp: trx_words_def Let_def MAX_BUF_SZ_def max_def)
  then show "\<not> 3 * int (trx_words t r) > MAX_BUF_SZ" by (simp add: MAX_BUF_SZ_def)
  show "int32 ((if (if t > r then t else r) = 0 then 1 else int32 ((if t > r then t else r) + 2)) * BYTE_PER_WORD)
      = 3 * int (trx_words t r)"
    using trx_len [of t r] assms unfolding Let_def by simp
qed

lemma spi_sync_io:
  "spi_sync_transfer K (dev s) tx = (ret, rxd, d) \<Longrightarrow> spi_sync K tx s = (ret, rxd, s\<lparr>dev := d, klog := klog s @ [KSpi tx]\<rparr>)"
  by (simp add: spi_sync_def)

lemma upd_xmem_io: "xmem s x = Some m \<Longrightarrow> upd_xmem x f s = Some (s\<lparr>xmem := (xmem s)(x \<mapsto> f m)\<rparr>)"
  by (simp add: upd_xmem_def)

text \<open>The exchange up to the decoding of what came back, on the first buffer \<open>x\<close> of the pool.\<close>

lemma adc_trx_body:
  assumes pool: "xfer_pool s L (x # xs)" and up: "spi_hdlr s"
    and cnts: "0 \<le> tx_cnt" "0 \<le> rx_cnt" "tx_cnt \<le> 680" "rx_cnt \<le> 680" "nat tx_cnt \<le> length tx"
    and io: "spi_sync_transfer K (dev s) (trx_frame cmd (take (nat tx_cnt) tx) (trx_words tx_cnt rx_cnt))
      = (ret, rxd, d)"
  obtains E D M rb where
    "adc_trx K cmd tx tx_cnt rx rx_cnt conv s =
       (let s = s\<lparr>elms := E, hdrs := D, dev := d,
              klog := klog s @ [KSpi (trx_frame cmd (take (nat tx_cnt) tx) (trx_words tx_cnt rx_cnt))],
              xmem := M\<rparr> in
        if ret < 0 then do { s \<leftarrow> return_xfer_buf (Some (Xfer x)) s; Some (ret, None, rx, s) }
        else do {
          rx \<leftarrow> (case (rx, conv) of
                  (Some r, Some conv) \<Rightarrow> do { (_, r) \<leftarrow> conv rb 3 r rx_cnt; Some (Some r) }
                | _ \<Rightarrow> Some rx);
          s \<leftarrow> return_xfer_buf (Some (Xfer x)) s;
          Some (ret, Some (dec_word (rxd 0) (rxd 1)), rx, s) })"
    and "3 + 3 * nat rx_cnt \<le> length rb" and "words_at rb 3 (nat rx_cnt) = rx_words rxd (nat rx_cnt)"
    and "rep E D (L(XferL \<mapsto> map Xfer xs))" and "dom E = dom (elms s)" and "loose E (Xfer x)"
    and "dom M = dom (xmem s)" and "mem_ok M (set (x # xs))" and "\<forall>y. y \<noteq> x \<longrightarrow> M y = xmem s y"
proof -
  let ?w = "trx_words tx_cnt rx_cnt"
  let ?f = "trx_frame cmd (take (nat tx_cnt) tx) ?w"
  note len = trx_bytes [OF cnts(1-4)]
  note w = len(2)
  have lf: "length ?f = 3 * ?w"
    using trx_words_bounds(1) [of tx_cnt rx_cnt] cnts by (intro length_trx_frame) (simp add: min_def)
  obtain m where m: "xmem s x = Some m" and lm: "length (x_tx m) = nat MAX_BUF_SZ"
    "length (x_rx m) = nat MAX_BUF_SZ"
    using pool by (auto simp: xfer_pool_def mem_ok_def xfer_ok_def)
  from pool obtain E1 D1 where
    get: "get_xfer_buf s = Some (Some (Xfer x), s\<lparr>elms := E1, hdrs := D1\<rparr>)" and
    R1: "rep E1 D1 (L(XferL \<mapsto> map Xfer xs))" and d1: "dom E1 = dom (elms s)" and lo: "loose E1 (Xfer x)"
    by (rule get_xfer_buf_pool)
  from lm(1) w trx_words_bounds(1) cnts(5) obtain b0 b1 where
    tx: "memset0 (x_tx m) (3 * int ?w) = Some b0" "word2frame [cmd] b0 0 1 = Some (3, b1)"
      "(if tx_cnt > 0 then do { (k, b) \<leftarrow> word2frame tx b1 3 tx_cnt; Some (3 + k, b) } else Some (3, b1))
        = Some (3 + 3 * nat tx_cnt, ?f @ drop (3 * ?w) (x_tx m))"
    by (rule tx_build)
  let ?rb = "rx_fill (3 * ?w) rxd (replicate (3 * ?w) 0 @ drop (3 * ?w) (x_rx m)) :: byte list"
  note rb = trx_recv [OF lm(2) w trx_words_bounds(3) trx_words_bounds(2)]
  let ?M = "(xmem s)(x \<mapsto> m\<lparr>x_tx := ?f @ drop (3 * ?w) (x_tx m), x_rx := ?rb\<rparr>)"
  let ?s = "s\<lparr>elms := E1, hdrs := D1, dev := d, klog := klog s @ [KSpi ?f], xmem := ?M\<rparr>"
  have nn: "nat (3 * int ?w) = 3 * ?w" by (simp add: nat_mult_distrib)
  have io': "spi_sync K ?f (s\<lparr>elms := E1, hdrs := D1\<rparr>)
      = (ret, rxd, s\<lparr>elms := E1, hdrs := D1, dev := d, klog := klog s @ [KSpi ?f]\<rparr>)"
    using spi_sync_io [of K "s\<lparr>elms := E1, hdrs := D1\<rparr>"] io by simp
  note mem' = upd_xmem_io [of "s\<lparr>elms := E1, hdrs := D1, dev := d, klog := klog s @ [KSpi ?f]\<rparr>" x m]
  have "adc_trx K cmd tx tx_cnt rx rx_cnt conv s =
      (let s = ?s in
        if ret < 0 then do { s \<leftarrow> return_xfer_buf (Some (Xfer x)) s; Some (ret, None, rx, s) }
        else do {
          rx \<leftarrow> (case (rx, conv) of
                  (Some r, Some conv) \<Rightarrow> do { (_, r) \<leftarrow> conv ?rb 3 r rx_cnt; Some (Some r) }
                | _ \<Rightarrow> Some rx);
          s \<leftarrow> return_xfer_buf (Some (Xfer x)) s;
          Some (ret, Some (dec_word (rxd 0) (rxd 1)), rx, s) })"
    unfolding adc_trx_def Let_def len(1)
    using up len(3) by (cases "ret < 0"; cases rx; cases conv)
      (simp_all add: get m tx rb(1,3) nn lf io' mem')
  moreover have "dom ?M = dom (xmem s)" using m by auto
  moreover have "mem_ok ?M (set (x # xs))"
    using pool lm rb(2) lf w by (auto simp: xfer_pool_def mem_ok_def xfer_ok_def)
  moreover have "\<forall>y. y \<noteq> x \<longrightarrow> ?M y = xmem s y" by simp
  moreover note rb(4,5) [of rxd] R1 d1 lo
  ultimately show thesis by (intro that)
qed

lemma adc_trx_run:
  assumes pool: "xfer_pool s L (x # xs)" and up: "spi_hdlr s"
    and cnts: "0 \<le> tx_cnt" "0 \<le> rx_cnt" "tx_cnt \<le> 680" "rx_cnt \<le> 680" "nat tx_cnt \<le> length tx"
    and rx: "\<And>r. 0 \<le> ret \<Longrightarrow> rx = Some r \<Longrightarrow> conv = Some frame2word \<and> nat rx_cnt \<le> length r"
    and io: "spi_sync_transfer K (dev s) (trx_frame cmd (take (nat tx_cnt) tx) (trx_words tx_cnt rx_cnt))
      = (ret, rxd, d)"
  obtains E D M where
    "adc_trx K cmd tx tx_cnt rx rx_cnt conv s =
       Some (ret, if ret < 0 then None else Some (dec_word (rxd 0) (rxd 1)),
         if ret < 0 then rx else trx_rx rx rx_cnt rxd,
         s\<lparr>elms := E, hdrs := D, dev := d,
           klog := klog s @ [KSpi (trx_frame cmd (take (nat tx_cnt) tx) (trx_words tx_cnt rx_cnt))],
           xmem := M\<rparr>)"
    and "rep E D (L(XferL \<mapsto> map Xfer (xs @ [x])))" and "dom E = dom (elms s)"
    and "dom M = dom (xmem s)" and "mem_ok M (set (x # xs))"
    and "\<And>y. y \<noteq> x \<Longrightarrow> M y = xmem s y"
proof -
  obtain E1 D1 M rb where
    body: "adc_trx K cmd tx tx_cnt rx rx_cnt conv s =
       (let s = s\<lparr>elms := E1, hdrs := D1, dev := d,
              klog := klog s @ [KSpi (trx_frame cmd (take (nat tx_cnt) tx) (trx_words tx_cnt rx_cnt))],
              xmem := M\<rparr> in
        if ret < 0 then do { s \<leftarrow> return_xfer_buf (Some (Xfer x)) s; Some (ret, None, rx, s) }
        else do {
          rx \<leftarrow> (case (rx, conv) of
                  (Some r, Some conv) \<Rightarrow> do { (_, r) \<leftarrow> conv rb 3 r rx_cnt; Some (Some r) }
                | _ \<Rightarrow> Some rx);
          s \<leftarrow> return_xfer_buf (Some (Xfer x)) s;
          Some (ret, Some (dec_word (rxd 0) (rxd 1)), rx, s) })"
    and rb: "3 + 3 * nat rx_cnt \<le> length rb" "words_at rb 3 (nat rx_cnt) = rx_words rxd (nat rx_cnt)"
    and R1: "rep E1 D1 (L(XferL \<mapsto> map Xfer xs))" and d1: "dom E1 = dom (elms s)" and lo: "loose E1 (Xfer x)"
    and M: "dom M = dom (xmem s)" "mem_ok M (set (x # xs))" "\<forall>y. y \<noteq> x \<longrightarrow> M y = xmem s y"
    by (rule adc_trx_body [where rx = rx and conv = conv, OF pool up cnts io])
  let ?s = "s\<lparr>elms := E1, hdrs := D1, dev := d,
    klog := klog s @ [KSpi (trx_frame cmd (take (nat tx_cnt) tx) (trx_words tx_cnt rx_cnt))], xmem := M\<rparr>"
  have cv: "frame2word rb 3 r rx_cnt
      = Some (3 * nat rx_cnt, rx_words rxd (nat rx_cnt) @ drop (nat rx_cnt) r)"
    if "nat rx_cnt \<le> length r" for r
    using that rb by (simp add: frame2word_spec)
  have "heap_rep ?s (L(XferL \<mapsto> map Xfer xs))" "xfer_list ?s = Some XferL"
    "(L(XferL \<mapsto> map Xfer xs)) XferL = Some (map Xfer xs)" "loose (elms ?s) (Xfer x)"
    using R1 lo pool by (simp_all add: xfer_pool_def)
  then obtain E D where
    put: "return_xfer_buf (Some (Xfer x)) ?s = Some (?s\<lparr>elms := E, hdrs := D\<rparr>)" and
    R: "rep E D (L(XferL \<mapsto> map Xfer xs, XferL \<mapsto> map Xfer (xs @ [x])))" and dE: "dom E = dom (elms ?s)"
    by (rule return_xfer_buf_pool)
  have "adc_trx K cmd tx tx_cnt rx rx_cnt conv s =
       Some (ret, if ret < 0 then None else Some (dec_word (rxd 0) (rxd 1)),
         if ret < 0 then rx else trx_rx rx rx_cnt rxd, ?s\<lparr>elms := E, hdrs := D\<rparr>)"
    unfolding body Let_def put using rx cv by (cases rx) (auto simp: trx_rx_def)
  moreover have "?s\<lparr>elms := E, hdrs := D\<rparr> = s\<lparr>elms := E, hdrs := D, dev := d,
      klog := klog s @ [KSpi (trx_frame cmd (take (nat tx_cnt) tx) (trx_words tx_cnt rx_cnt))], xmem := M\<rparr>"
    by simp
  moreover have "rep E D (L(XferL \<mapsto> map Xfer (xs @ [x])))" using R by simp
  moreover have "dom E = dom (elms s)" using dE d1 by simp
  ultimately show thesis using M by (intro that [of M D E]) simp_all
qed

text \<open>Decoding into an array that is too short runs past its end.\<close>

lemma adc_trx_overrun:
  assumes pool: "xfer_pool s L xs" and ne: "xs \<noteq> []" and up: "spi_hdlr s"
    and cnts: "0 \<le> rx_cnt" "rx_cnt \<le> 680" and short: "length r < nat rx_cnt"
    and io: "spi_sync_transfer K (dev s) (trx_frame cmd [] (trx_words 0 rx_cnt)) = (ret, rxd, d)" "0 \<le> ret"
  shows "adc_trx K cmd [] 0 (Some r) rx_cnt (Some frame2word) s = None"
proof -
  obtain x zs where p: "xfer_pool s L (x # zs)" using ne pool by (cases xs) auto
  have io': "spi_sync_transfer K (dev s) (trx_frame cmd (take (nat 0) []) (trx_words 0 rx_cnt)) = (ret, rxd, d)"
    and c: "(0::int) \<le> 0" "(0::int) \<le> 680" "nat 0 \<le> length ([] :: u16 list)"
    using io(1) by simp_all
  show ?thesis
    by (rule adc_trx_body [where rx = "Some r" and conv = "Some frame2word", OF p up c(1) cnts(1) c(2) cnts(2) c(3) io'])
      (use io(2) frame2word_overrun [OF short] in simp)
qed

section \<open>The exchange as its clients see it\<close>

text \<open>An exchange touches the transfer pool, the device and the log, nothing else.\<close>

definition io_only :: "'d drv \<Rightarrow> 'd drv \<Rightarrow> bool" where
  "io_only s t \<longleftrightarrow> (\<exists>E D d lg M. t = s\<lparr>elms := E, hdrs := D, dev := d, klog := lg, xmem := M\<rparr>)"

lemma io_only_refl [simp]: "io_only s s"
proof -
  have "s = s\<lparr>elms := elms s, hdrs := hdrs s, dev := dev s, klog := klog s, xmem := xmem s\<rparr>" by simp
  then show ?thesis unfolding io_only_def by blast
qed

lemma io_only_trans: "io_only s t \<Longrightarrow> io_only t u \<Longrightarrow> io_only s u"
  unfolding io_only_def by fastforce

lemma io_only_log [simp]: "io_only s (log_ev e s)"
proof -
  have "log_ev e s = s\<lparr>elms := elms s, hdrs := hdrs s, dev := dev s, klog := klog s @ [e], xmem := xmem s\<rparr>"
    by (simp add: log_ev_def)
  then show ?thesis unfolding io_only_def by blast
qed

text \<open>The transfer pool after any number of exchanges is the same pool, rotated.\<close>

definition pool_step :: "'d drv \<Rightarrow> (lid \<Rightarrow> obj list option) \<Rightarrow> nat list \<Rightarrow> kev list \<Rightarrow> 'd drv \<Rightarrow> nat list \<Rightarrow> bool" where
  "pool_step s L xs evs t ys \<longleftrightarrow>
     xfer_pool t (L(XferL \<mapsto> map Xfer ys)) ys \<and> mset ys = mset xs \<and> io_only s t \<and>
     klog t = klog s @ evs \<and> dom (elms t) = dom (elms s) \<and> dom (xmem t) = dom (xmem s) \<and>
     (\<forall>x. x \<notin> set xs \<longrightarrow> xmem t x = xmem s x)"

lemma pool_step_refl: "xfer_pool s L xs \<Longrightarrow> pool_step s L xs [] s xs"
  by (simp add: pool_step_def xfer_pool_def fun_upd_idem)

lemma pool_step_trans:
  assumes "pool_step s L xs evs t ys" "pool_step t (L(XferL \<mapsto> map Xfer ys)) ys evs' u zs"
  shows "pool_step s L xs (evs @ evs') u zs"
  using assms io_only_trans [of s t u] mset_eq_setD [of ys xs] by (auto simp: pool_step_def)

lemma pool_step_pool: "pool_step s L xs evs t ys \<Longrightarrow> xfer_pool t (L(XferL \<mapsto> map Xfer ys)) ys"
  by (simp add: pool_step_def)

lemma pool_step_nonempty: "pool_step s L xs evs t ys \<Longrightarrow> xs \<noteq> [] \<Longrightarrow> ys \<noteq> []"
  by (auto simp: pool_step_def)

lemma io_only_fields:
  assumes "io_only s t"
  shows "spi_hdlr t = spi_hdlr s" "run_stat t = run_stat s" "xfer_list t = xfer_list s"
    "chunk_buf_list t = chunk_buf_list s" "ready_list t = ready_list s" "active_list t = active_list s"
    "free_list t = free_list s" "chunk_sz t = chunk_sz s" "irq_registered t = irq_registered s"
    "ads131m08_data t = ads131m08_data s" "drop_cnt t = drop_cnt s" "smpl_ts t = smpl_ts s"
    "open_cnt t = open_cnt s" "gpio_irq_no t = gpio_irq_no s" "reset_gpiod t = reset_gpiod s"
    "next_xfer t = next_xfer s" "adc_lock t = adc_lock s" "proc_file t = proc_file s" "data_cl t = data_cl s"
  using assms by (auto simp: io_only_def)

lemma pool_step_log: "pool_step s L xs evs t ys \<Longrightarrow> pool_step s L xs (evs @ [e]) (log_ev e t) ys"
  using io_only_trans [of s t "log_ev e t"] by (simp add: pool_step_def xfer_pool_def)

text \<open>A failed exchange does not look at the receive array.\<close>

lemma adc_trx_any:
  assumes pool: "xfer_pool s L xs" and ne: "xs \<noteq> []" and up: "spi_hdlr s"
    and cnts: "0 \<le> tx_cnt" "0 \<le> rx_cnt" "tx_cnt \<le> 680" "rx_cnt \<le> 680" "nat tx_cnt \<le> length tx"
    and rx: "\<And>r. 0 \<le> ret \<Longrightarrow> rx = Some r \<Longrightarrow> conv = Some frame2word \<and> nat rx_cnt \<le> length r"
    and io: "spi_sync_transfer K (dev s) (trx_frame cmd (take (nat tx_cnt) tx) (trx_words tx_cnt rx_cnt))
      = (ret, rxd, d)"
  shows "\<exists>t ys. adc_trx K cmd tx tx_cnt rx rx_cnt conv s =
       Some (ret, if ret < 0 then None else Some (dec_word (rxd 0) (rxd 1)),
         if ret < 0 then rx else trx_rx rx rx_cnt rxd, t) \<and>
     pool_step s L xs [KSpi (trx_frame cmd (take (nat tx_cnt) tx) (trx_words tx_cnt rx_cnt))] t ys \<and> dev t = d"
proof -
  from ne obtain x zs where xs: "xs = x # zs" by (cases xs) auto
  have p: "xfer_pool s L (x # zs)" using pool xs by simp
  obtain E D M where
    run: "adc_trx K cmd tx tx_cnt rx rx_cnt conv s =
       Some (ret, if ret < 0 then None else Some (dec_word (rxd 0) (rxd 1)),
         if ret < 0 then rx else trx_rx rx rx_cnt rxd,
         s\<lparr>elms := E, hdrs := D, dev := d,
           klog := klog s @ [KSpi (trx_frame cmd (take (nat tx_cnt) tx) (trx_words tx_cnt rx_cnt))],
           xmem := M\<rparr>)"
    and h: "rep E D (L(XferL \<mapsto> map Xfer (zs @ [x])))" "dom E = dom (elms s)" "dom M = dom (xmem s)"
      "mem_ok M (set (x # zs))" "\<forall>y. y \<noteq> x \<longrightarrow> M y = xmem s y"
    by (rule adc_trx_run [OF p up cnts rx io]) auto
  have "io_only s (s\<lparr>elms := E, hdrs := D, dev := d,
           klog := klog s @ [KSpi (trx_frame cmd (take (nat tx_cnt) tx) (trx_words tx_cnt rx_cnt))],
           xmem := M\<rparr>)"
    unfolding io_only_def by blast
  with h p xs have "pool_step s L xs [KSpi (trx_frame cmd (take (nat tx_cnt) tx) (trx_words tx_cnt rx_cnt))]
      (s\<lparr>elms := E, hdrs := D, dev := d,
           klog := klog s @ [KSpi (trx_frame cmd (take (nat tx_cnt) tx) (trx_words tx_cnt rx_cnt))],
           xmem := M\<rparr>) (zs @ [x])"
    by (simp add: pool_step_def xfer_pool_def mem_ok_def)
  with run show ?thesis by fastforce
qed

lemma adc_trx_ok:
  assumes pool: "xfer_pool s L xs" and ne: "xs \<noteq> []" and up: "spi_hdlr s"
    and cnts: "0 \<le> tx_cnt" "0 \<le> rx_cnt" "tx_cnt \<le> 680" "rx_cnt \<le> 680" "nat tx_cnt \<le> length tx"
    and rx: "\<And>r. rx = Some r \<Longrightarrow> conv = Some frame2word \<and> nat rx_cnt \<le> length r"
    and io: "spi_sync_transfer K (dev s) (trx_frame cmd (take (nat tx_cnt) tx) (trx_words tx_cnt rx_cnt))
      = (ret, rxd, d)"
  shows "\<exists>t ys. adc_trx K cmd tx tx_cnt rx rx_cnt conv s =
       Some (ret, if ret < 0 then None else Some (dec_word (rxd 0) (rxd 1)),
         if ret < 0 then rx else trx_rx rx rx_cnt rxd, t) \<and>
     pool_step s L xs [KSpi (trx_frame cmd (take (nat tx_cnt) tx) (trx_words tx_cnt rx_cnt))] t ys \<and> dev t = d"
  by (rule adc_trx_any [OF assms(1-8) rx io])

lemma adc_trx_nodev: "\<not> spi_hdlr s \<Longrightarrow> adc_trx K cmd tx tx_cnt rx rx_cnt conv s = Some (- ENODEV, None, rx, s)"
  by (simp add: adc_trx_def)

lemma adc_trx_toolong:
  assumes "spi_hdlr s" "0 \<le> tx_cnt" "0 \<le> rx_cnt" "tx_cnt \<le> 100000" "rx_cnt \<le> 100000"
    "680 < tx_cnt \<or> 680 < rx_cnt"
  shows "adc_trx K cmd tx tx_cnt rx rx_cnt conv s = Some (- EINVAL, None, rx, s)"
proof -
  have "int32 ((if (if tx_cnt > rx_cnt then tx_cnt else rx_cnt) = 0 then 1
        else int32 ((if tx_cnt > rx_cnt then tx_cnt else rx_cnt) + 2)) * BYTE_PER_WORD)
      = 3 * int (trx_words tx_cnt rx_cnt)"
    using trx_len [of tx_cnt rx_cnt] assms unfolding Let_def by simp
  moreover have "MAX_BUF_SZ < 3 * int (trx_words tx_cnt rx_cnt)"
    using assms(6) trx_words_bounds(1,2) by (auto simp: trx_words_def Let_def MAX_BUF_SZ_def max_def)
  ultimately show ?thesis using assms(1) by (simp add: adc_trx_def Let_def)
qed

text \<open>Sending more words than there are reads past the end of the array.\<close>

lemma adc_trx_overread:
  assumes pool: "xfer_pool s L (x # xs)" and up: "spi_hdlr s" and cnt: "length tx < nat cnt" "cnt \<le> 680"
  shows "adc_trx K cmd tx cnt None 0 None s = None"
proof -
  from pool obtain E D where g: "get_xfer_buf s = Some (Some (Xfer x), s\<lparr>elms := E, hdrs := D\<rparr>)"
    by (rule get_xfer_buf_pool)
  have c: "0 < cnt" "0 \<le> cnt" using cnt(1) by simp_all
  note len = trx_bytes [OF c(2) order_refl cnt(2)]
  show ?thesis unfolding adc_trx_def Let_def
    using len(1,3) up c(1) g word2frame_overread [OF cnt(1)]
    by (auto simp: Option.bind_eq_None_conv)
qed

text \<open>Whatever the counts: an exchange that does not fault is a step on the pool.\<close>

lemma adc_trx_send_some:
  assumes pool: "xfer_pool s L xs" "xs \<noteq> []" and up: "spi_hdlr s" and cnt: "0 \<le> cnt" "cnt \<le> 65535"
    and run: "adc_trx K cmd tx cnt None 0 None s = Some (ret, st, rx, t)"
  shows "\<exists>evs ys. pool_step s L xs evs t ys"
proof (cases "cnt \<le> 680")
  case True
  from pool obtain x zs where xs: "xs = x # zs" by (cases xs) auto
  have "nat cnt \<le> length tx"
    using adc_trx_overread [OF pool(1) [unfolded xs] up _ True, of tx K cmd] run by (metis not_le option.distinct(1))
  moreover obtain r rxd d where
    "spi_sync_transfer K (dev s) (trx_frame cmd (take (nat cnt) tx) (trx_words cnt 0)) = (r, rxd, d)"
    by (cases "spi_sync_transfer K (dev s) (trx_frame cmd (take (nat cnt) tx) (trx_words cnt 0))")
  ultimately show ?thesis using adc_trx_ok [OF pool up cnt(1) order_refl True, of tx None None K cmd r rxd d] run by auto
next
  case False
  with adc_trx_toolong [OF up cnt(1) order_refl, of K cmd tx None None] cnt(2) run have "t = s" by simp
  with pool_step_refl [OF pool(1)] show ?thesis by blast
qed

lemma adc_trx_recv_some:
  assumes pool: "xfer_pool s L xs" "xs \<noteq> []" and up: "spi_hdlr s" and cnt: "0 \<le> cnt" "cnt \<le> 65535"
    and run: "adc_trx K cmd [] 0 (Some r) cnt (Some frame2word) s = Some (ret, st, rx, t)"
  shows "\<exists>evs ys. pool_step s L xs evs t ys"
proof (cases "cnt \<le> 680")
  case True
  obtain q rxd d where io: "spi_sync_transfer K (dev s) (trx_frame cmd [] (trx_words 0 cnt)) = (q, rxd, d)"
    by (cases "spi_sync_transfer K (dev s) (trx_frame cmd [] (trx_words 0 cnt))")
  have fits: "nat cnt \<le> length r" if "0 \<le> q"
    using adc_trx_overrun [OF pool up cnt(1) True _ io that, of r] run by (metis not_le option.distinct(1))
  have "\<exists>t ys. adc_trx K cmd [] 0 (Some r) cnt (Some frame2word) s =
       Some (q, if q < 0 then None else Some (dec_word (rxd 0) (rxd 1)),
         if q < 0 then Some r else trx_rx (Some r) cnt rxd, t) \<and>
     pool_step s L xs [KSpi (trx_frame cmd (take (nat 0) []) (trx_words 0 cnt))] t ys \<and> dev t = d"
    by (rule adc_trx_any [OF pool up order_refl cnt(1) _ True]) (use io fits in auto)
  with run show ?thesis by auto
next
  case False
  with adc_trx_toolong [OF up order_refl cnt(1), of K cmd "[]" "Some r" "Some frame2word"] cnt(2) run have "t = s" by simp
  with pool_step_refl [OF pool(1)] show ?thesis by blast
qed

text \<open>The two exchanges of a register access.\<close>

lemma read_stat_ok:
  assumes "xfer_pool s L xs" "xs \<noteq> []" "spi_hdlr s"
    and "spi_sync_transfer K (dev s) (trx_frame CMD_NULL [] 1) = (ret, rxd, d)"
  shows "\<exists>t ys. read_stat K s =
      Some (ret, if ret < 0 then None else Some (dec_word (rxd 0) (rxd 1)), t) \<and>
    pool_step s L xs [KSpi (trx_frame CMD_NULL [] 1)] t ys \<and> dev t = d"
proof -
  have "trx_words 0 0 = 1" by (simp add: trx_words_def)
  with assms adc_trx_ok [of s L xs 0 0 "[]" None None K CMD_NULL ret rxd d] show ?thesis
    by (auto simp: read_stat_def)
qed

lemma reg_read_ok:
  assumes pool: "xfer_pool s L xs" and ne: "xs \<noteq> []" and up: "spi_hdlr s"
    and cnt: "1 \<le> cnt" "cnt \<le> 680" "nat cnt \<le> length ret_reg"
    and io1: "spi_sync_transfer K (dev s) (trx_frame (reg_cmd CMD_RREG a cnt) [] 10) = (r1, rx1, d1)"
    and io2: "spi_sync_transfer K d1 (trx_frame CMD_NULL [] (nat cnt + 2)) = (r2, rx2, d2)"
  shows "\<exists>t ys.
    ads131m08_reg_read K a cnt ret_reg s =
      Some (if r1 < 0 then (r1, ret_reg, t)
            else if r2 < 0 then (r2, ret_reg, t)
            else (r2, (if cnt = 1 then [dec_word (rx2 0) (rx2 1)] else rx_words rx2 (nat cnt))
                        @ drop (nat cnt) ret_reg, t)) \<and>
    pool_step s L xs (if r1 < 0 then [KSpi (trx_frame (reg_cmd CMD_RREG a cnt) [] 10)]
       else [KSpi (trx_frame (reg_cmd CMD_RREG a cnt) [] 10), KSpi (trx_frame CMD_NULL [] (nat cnt + 2))]) t ys \<and>
    dev t = (if r1 < 0 then d1 else d2)"
proof -
  have w: "trx_words 0 8 = 10" "trx_words 0 cnt = nat cnt + 2"
    using cnt by (auto simp: trx_words_def Let_def)
  from adc_trx_ok [OF pool ne up, of 0 8 "[]" None None K "reg_cmd CMD_RREG a cnt" r1 rx1 d1] io1 w
  obtain t ys where t: "adc_trx K (reg_cmd CMD_RREG a cnt) [] 0 None 8 None s
      = Some (r1, if r1 < 0 then None else Some (dec_word (rx1 0) (rx1 1)), None, t)"
    and ps: "pool_step s L xs [KSpi (trx_frame (reg_cmd CMD_RREG a cnt) [] 10)] t ys" and d: "dev t = d1"
    by (auto simp: trx_rx_def)
  show ?thesis
  proof (cases "r1 < 0")
    case True
    with t ps d show ?thesis by (auto simp: ads131m08_reg_read_def ADC_CH_NUM_def)
  next
    case False
    note p2 = pool_step_pool [OF ps] pool_step_nonempty [OF ps ne]
    have up2: "spi_hdlr t" using ps up io_only_fields(1) by (auto simp: pool_step_def)
    from adc_trx_ok [OF p2 up2, of 0 cnt "[]" "Some ret_reg" "Some frame2word" K CMD_NULL r2 rx2 d2] io2 w cnt d
    obtain u zs where u: "adc_trx K CMD_NULL [] 0 (Some ret_reg) cnt (Some frame2word) t
        = Some (r2, if r2 < 0 then None else Some (dec_word (rx2 0) (rx2 1)),
            if r2 < 0 then Some ret_reg else trx_rx (Some ret_reg) cnt rx2, u)"
      and ps2: "pool_step t (L(XferL \<mapsto> map Xfer ys)) ys [KSpi (trx_frame CMD_NULL [] (nat cnt + 2))] u zs"
      and du: "dev u = d2" by auto
    from pool_step_trans [OF ps ps2] have
      "pool_step s L xs [KSpi (trx_frame (reg_cmd CMD_RREG a cnt) [] 10), KSpi (trx_frame CMD_NULL [] (nat cnt + 2))] u zs"
      by simp
    moreover have "ads131m08_reg_read K a cnt ret_reg s =
      Some (if r2 < 0 then (r2, ret_reg, u)
            else (r2, (if cnt = 1 then [dec_word (rx2 0) (rx2 1)] else rx_words rx2 (nat cnt))
                        @ drop (nat cnt) ret_reg, u))"
      using t u False by (auto simp: ads131m08_reg_read_def ADC_CH_NUM_def trx_rx_def upd_opt_def rx_words_def)
    ultimately show ?thesis using False du by auto
  qed
qed

lemma reg_write_ok:
  assumes pool: "xfer_pool s L xs" and ne: "xs \<noteq> []" and up: "spi_hdlr s"
    and cnt: "1 \<le> cnt" "cnt \<le> 680" "nat cnt \<le> length vals"
    and io1: "spi_sync_transfer K (dev s)
      (trx_frame (reg_cmd CMD_WREG a cnt) (take (nat cnt) vals) (nat cnt + 2)) = (r1, rx1, d1)"
    and io2: "spi_sync_transfer K d1 (trx_frame CMD_NULL [] 1) = (r2, rx2, d2)"
  shows "\<exists>t ys.
    ads131m08_reg_write K a cnt vals s = Some (if r1 < 0 then (r1, vals, t) else (r2, vals, t)) \<and>
    pool_step s L xs
      (if r1 < 0 then [KSpi (trx_frame (reg_cmd CMD_WREG a cnt) (take (nat cnt) vals) (nat cnt + 2))]
       else [KSpi (trx_frame (reg_cmd CMD_WREG a cnt) (take (nat cnt) vals) (nat cnt + 2)),
             KSpi (trx_frame CMD_NULL [] 1)]) t ys \<and>
    dev t = (if r1 < 0 then d1 else d2)"
proof -
  let ?f = "trx_frame (reg_cmd CMD_WREG a cnt) (take (nat cnt) vals) (nat cnt + 2)"
  have w: "trx_words cnt 0 = nat cnt + 2" using cnt by (auto simp: trx_words_def Let_def)
  from adc_trx_ok [OF pool ne up, of cnt 0 vals None None K "reg_cmd CMD_WREG a cnt" r1 rx1 d1] io1 w cnt
  obtain t ys where t: "adc_trx K (reg_cmd CMD_WREG a cnt) vals cnt None 0 None s
      = Some (r1, if r1 < 0 then None else Some (dec_word (rx1 0) (rx1 1)), None, t)"
    and ps: "pool_step s L xs [KSpi ?f] t ys" and d: "dev t = d1"
    by (auto simp: trx_rx_def)
  show ?thesis
  proof (cases "r1 < 0")
    case True
    with t ps d show ?thesis by (auto simp: ads131m08_reg_write_def)
  next
    case False
    note p2 = pool_step_pool [OF ps] pool_step_nonempty [OF ps ne]
    have up2: "spi_hdlr t" using ps up io_only_fields(1) by (auto simp: pool_step_def)
    from read_stat_ok [OF p2 up2, of K r2 rx2 d2] io2 d obtain u zs where
      u: "read_stat K t = Some (r2, if r2 < 0 then None else Some (dec_word (rx2 0) (rx2 1)), u)"
      and ps2: "pool_step t (L(XferL \<mapsto> map Xfer ys)) ys [KSpi (trx_frame CMD_NULL [] 1)] u zs"
      and du: "dev u = d2" by blast
    from pool_step_trans [OF ps ps2] t u du False show ?thesis
      by (auto simp: ads131m08_reg_write_def)
  qed
qed

lemma cmd_strobe_ok:
  assumes "xfer_pool s L xs" "xs \<noteq> []" "spi_hdlr s"
    and "0 \<le> cnt" "cnt \<le> 680" "nat cnt \<le> length data"
    and "spi_sync_transfer K (dev s) (trx_frame cmd (take (nat cnt) data) (trx_words cnt 0)) = (ret, rxd, d)"
  shows "\<exists>t ys. cmd_strobe K cmd data cnt us s = Some (ret, t) \<and> dev t = d \<and>
    pool_step s L xs
      (KSpi (trx_frame cmd (take (nat cnt) data) (trx_words cnt 0)) #
        (if 0 \<le> ret \<and> 0 < us then [KUdelay (nat us)] else [])) t ys"
proof -
  let ?f = "trx_frame cmd (take (nat cnt) data) (trx_words cnt 0)"
  from adc_trx_ok [of s L xs cnt 0 data None None K cmd ret rxd d] assms obtain t ys where
    t: "adc_trx K cmd data cnt None 0 None s =
       Some (ret, if ret < 0 then None else Some (dec_word (rxd 0) (rxd 1)), None, t)"
    and ps: "pool_step s L xs [KSpi ?f] t ys" and d: "dev t = d"
    by (auto simp: trx_rx_def)
  from pool_step_log [OF ps, of "KUdelay (nat us)"] ps t d show ?thesis
    by (auto simp: cmd_strobe_def)
qed

lemma cmd_reset_ok:
  assumes pool: "xfer_pool s L xs" and ne: "xs \<noteq> []" and up: "spi_hdlr s"
    and io1: "spi_sync_transfer K (dev s) (trx_frame CMD_RESET (replicate 8 0) 10) = (r1, rx1, d1)"
    and io2: "spi_sync_transfer K d1 (trx_frame CMD_NULL [] 1) = (r2, rx2, d2)"
  shows "\<exists>t ys. ads131m08_cmd_reset K s = Some (if r1 < 0 then r1 else r2, t) \<and>
    pool_step s L xs
      (if r1 < 0 then [KSpi (trx_frame CMD_RESET (replicate 8 0) 10)]
       else [KSpi (trx_frame CMD_RESET (replicate 8 0) 10), KUdelay 10, KSpi (trx_frame CMD_NULL [] 1)]) t ys \<and>
    dev t = (if r1 < 0 then d1 else d2)"
proof -
  have w: "trx_words 8 0 = 10" by (simp add: trx_words_def)
  from cmd_strobe_ok [OF pool ne up, of 8 "replicate 8 0" K CMD_RESET r1 rx1 d1 10] io1 w obtain t ys where
    t: "cmd_strobe K CMD_RESET (replicate 8 0) 8 10 s = Some (r1, t)" and d: "dev t = d1"
    and ps: "pool_step s L xs (KSpi (trx_frame CMD_RESET (replicate 8 0) 10) #
        (if 0 \<le> r1 then [KUdelay (nat 10)] else [])) t ys"
    by auto
  show ?thesis
  proof (cases "r1 < 0")
    case True
    with t ps d show ?thesis by (auto simp: ads131m08_cmd_reset_def)
  next
    case False
    note p2 = pool_step_pool [OF ps] pool_step_nonempty [OF ps ne]
    have up2: "spi_hdlr t" using ps up io_only_fields(1) by (auto simp: pool_step_def)
    from read_stat_ok [OF p2 up2, of K r2 rx2 d2] io2 d obtain u zs where
      u: "read_stat K t = Some (r2, if r2 < 0 then None else Some (dec_word (rx2 0) (rx2 1)), u)"
      and ps2: "pool_step t (L(XferL \<mapsto> map Xfer ys)) ys [KSpi (trx_frame CMD_NULL [] 1)] u zs"
      and du: "dev u = d2" by blast
    from pool_step_trans [OF ps ps2] t u du False show ?thesis
      by (auto simp: ads131m08_cmd_reset_def)
  qed
qed

section \<open>Creating and freeing the pool\<close>

text \<open>How many of \<open>n\<close> allocations succeed before the first failure.\<close>

fun kz_ok :: "'d kenv \<Rightarrow> nat \<Rightarrow> 'd \<Rightarrow> nat \<times> 'd" where
  "kz_ok K 0 d = (0, d)"
| "kz_ok K (Suc n) d =
     (case kzalloc K d of (ok, d) \<Rightarrow> if ok then (case kz_ok K n d of (j, d) \<Rightarrow> (Suc j, d)) else (0, d))"

definition fresh_xfers :: "'d drv \<Rightarrow> bool" where
  "fresh_xfers s \<longleftrightarrow> (\<forall>x \<ge> next_xfer s. elms s (Xfer x) = None)"

lemma rep_alloc:
  assumes R: "rep E D L" and a: "E a = None"
  shows "rep (E(a \<mapsto> zero_elm)) D L"
proof -
  have n: "a \<notin> set xs" if "L l = Some xs" for l xs
    using rep_in_parent [OF R that, of a] a by auto
  have "dlist (E(a \<mapsto> zero_elm)) D l xs" if "L l = Some xs" for l xs
    using rep_dlist [OF R that] n [OF that] by (simp add: dlist_def)
  moreover have "D l = None" if "L l = None" for l using rep_None_iff [OF R] that by blast
  moreover have "\<exists>xs. L l = Some xs \<and> b \<in> set xs"
    if "(E(a \<mapsto> zero_elm)) b = Some e" "e_parent e = Some l" for b e l
    using that R unfolding rep_def by (cases "b = a") (auto simp: zero_elm_def)
  ultimately show ?thesis by (auto simp: rep_def split: option.splits)
qed

lemma new_mem: "(\<lambda>x. if k \<le> x \<and> x < k + (0 :: nat) then Some zero_xfer else M x) = M"
  by (auto simp: fun_eq_iff)

lemma xfer_init_step:
  assumes R: "heap_rep s L" "L XferL = Some (map Xfer xs)" and q: "xfer_list s = Some XferL" and fr: "fresh_xfers s"
    and z: "kzalloc K (dev s) = (True, d)"
  obtains E D where
    "xfer_buf_init_loop K (Suc n) s = xfer_buf_init_loop K n
      (s\<lparr>dev := d, xmem := (xmem s)(next_xfer s \<mapsto> zero_xfer), next_xfer := Suc (next_xfer s), elms := E, hdrs := D\<rparr>)"
    "rep E D (L(XferL \<mapsto> map Xfer (xs @ [next_xfer s])))" "dom E = insert (Xfer (next_xfer s)) (dom (elms s))"
    "\<forall>x \<ge> Suc (next_xfer s). E (Xfer x) = None"
proof -
  let ?k = "next_xfer s"
  let ?s1 = "s\<lparr>dev := d, elms := (elms s)(Xfer ?k \<mapsto> zero_elm), xmem := (xmem s)(?k \<mapsto> zero_xfer), next_xfer := Suc ?k\<rparr>"
  have none: "elms s (Xfer ?k) = None" using fr by (simp add: fresh_xfers_def)
  have R1: "heap_rep ?s1 L" using rep_alloc [OF R(1) none] by simp
  have "loose (elms ?s1) (Xfer ?k)" by (simp add: loose_def zero_elm_def)
  from list_append_ex [OF R1 R(2) this] obtain E D where
    ap: "list_append (Some XferL) (Some (Xfer ?k)) ?s1 = Some (?s1\<lparr>elms := E, hdrs := D\<rparr>)"
    and R2: "rep E D (L(XferL \<mapsto> map Xfer xs @ [Xfer ?k]))" and dE: "dom E = dom (elms ?s1)" by blast
  have "\<forall>x \<ge> Suc ?k. E (Xfer x) = None"
  proof (intro allI impI)
    fix x assume "Suc ?k \<le> x"
    then have "Xfer x \<notin> dom (elms ?s1)" using fr by (auto simp: fresh_xfers_def)
    with dE show "E (Xfer x) = None" by auto
  qed
  moreover have "xfer_buf_init_loop K (Suc n) s = xfer_buf_init_loop K n (?s1\<lparr>elms := E, hdrs := D\<rparr>)"
    using z ap q by (simp add: xfer_new_def kcall_def Let_def)
  moreover have "rep E D (L(XferL \<mapsto> map Xfer (xs @ [?k])))" "dom E = insert (Xfer ?k) (dom (elms s))"
    using R2 dE by simp_all
  ultimately show thesis by (intro that) simp_all
qed

text \<open>One buffer and then \<open>j\<close> more.\<close>

lemma one_more:
  "[k] @ [Suc k..<Suc k + j] = [k..<k + Suc j]" "insert (Xfer k) (Xfer ` {Suc k..<Suc k + j}) = Xfer ` {k..<k + Suc j}"
  "(\<lambda>x. if Suc k \<le> x \<and> x < Suc k + j then Some z else (M(k \<mapsto> z)) x)
     = (\<lambda>x. if k \<le> x \<and> x < k + Suc j then Some z else M x)"
  by (simp_all add: upt_rec fun_eq_iff image_iff) (auto simp: image_iff)

text \<open>The state in which \<open>j\<close> new buffers have joined the pool \<open>xs\<close>.\<close>

definition pool_grown ::
  "'d drv \<Rightarrow> (lid \<Rightarrow> obj list option) \<Rightarrow> nat list \<Rightarrow> nat \<Rightarrow> 'd \<Rightarrow> 'd drv \<Rightarrow> bool" where
  "pool_grown s L xs j d t \<longleftrightarrow> (\<exists>E D.
     t = s\<lparr>elms := E, hdrs := D, dev := d,
         xmem := (\<lambda>x. if next_xfer s \<le> x \<and> x < next_xfer s + j then Some zero_xfer else xmem s x),
         next_xfer := next_xfer s + j\<rparr> \<and>
     rep E D (L(XferL \<mapsto> map Xfer (xs @ [next_xfer s..<next_xfer s + j]))) \<and>
     dom E = dom (elms s) \<union> Xfer ` {next_xfer s..<next_xfer s + j})"

lemma pool_grown_none:
  assumes "heap_rep s L" "L XferL = Some (map Xfer xs)"
  shows "pool_grown s L xs 0 d (s\<lparr>dev := d\<rparr>)"
  unfolding pool_grown_def using assms new_mem [of "next_xfer s" "xmem s"]
  by (intro exI [of _ "elms s"] exI [of _ "hdrs s"]) (simp add: fun_upd_idem)

lemma pool_grown_more:
  fixes s :: "'d drv"
  defines "k \<equiv> next_xfer s"
  defines "s1 \<equiv> \<lambda>E D d. s\<lparr>dev := d, xmem := (xmem s)(k \<mapsto> zero_xfer), next_xfer := Suc k, elms := E, hdrs := D\<rparr>"
  assumes dom: "dom E1 = insert (Xfer k) (dom (elms s))"
    and more: "pool_grown (s1 E1 D1 d1) (L(XferL \<mapsto> map Xfer (xs @ [k]))) (xs @ [k]) j d t"
  shows "pool_grown s L xs (Suc j) d t"
proof -
  note x = one_more [of k j]
  have f: "next_xfer (s1 E1 D1 d1) = Suc k" "xmem (s1 E1 D1 d1) = (xmem s)(k \<mapsto> zero_xfer)" "elms (s1 E1 D1 d1) = E1"
    by (simp_all add: s1_def)
  from more [unfolded pool_grown_def f] obtain E D where
    t: "t = (s1 E1 D1 d1)\<lparr>elms := E, hdrs := D, dev := d,
      xmem := (\<lambda>x. if Suc k \<le> x \<and> x < Suc k + j then Some zero_xfer else ((xmem s)(k \<mapsto> zero_xfer)) x),
      next_xfer := Suc k + j\<rparr>"
    and R: "rep E D (L(XferL \<mapsto> map Xfer (xs @ [k]), XferL \<mapsto> map Xfer ((xs @ [k]) @ [Suc k..<Suc k + j])))"
    and dE: "dom E = dom E1 \<union> Xfer ` {Suc k..<Suc k + j}"
    by blast
  have "rep E D (L(XferL \<mapsto> map Xfer (xs @ [k..<k + Suc j])))"
    using R unfolding append_assoc x(1) fun_upd_upd .
  moreover have "dom E = dom (elms s) \<union> Xfer ` {k..<k + Suc j}" using dE dom unfolding x(2) [symmetric] by simp
  moreover have "t = s\<lparr>elms := E, hdrs := D, dev := d,
      xmem := (\<lambda>x. if k \<le> x \<and> x < k + Suc j then Some zero_xfer else xmem s x), next_xfer := k + Suc j\<rparr>"
    unfolding t x(3) s1_def by simp
  ultimately show ?thesis unfolding pool_grown_def k_def by blast
qed

lemma xfer_buf_init_loop_ok:
  assumes "heap_rep s L" "L XferL = Some (map Xfer xs)" "xfer_list s = Some XferL" "fresh_xfers s"
    and "kz_ok K n (dev s) = (j, d)"
  shows "\<exists>t. xfer_buf_init_loop K n s = Some (if j = n then 0 else - ENOMEM, t) \<and> pool_grown s L xs j d t"
  using assms
proof (induction n arbitrary: s L xs j d)
  case 0
  then have e: "j = 0" "d = dev s" by simp_all
  show ?case unfolding e using pool_grown_none [OF 0(1,2), of "dev s"] by simp
next
  case (Suc n)
  obtain ok d1 where z: "kzalloc K (dev s) = (ok, d1)" by (cases "kzalloc K (dev s)")
  let ?k = "next_xfer s"
  show ?case
  proof (cases ok)
    case False
    with Suc.prems(5) z have "j = 0" "d = d1" by auto
    moreover have "xfer_buf_init_loop K (Suc n) s = Some (- ENOMEM, s\<lparr>dev := d1\<rparr>)"
      using False z by (simp add: xfer_new_def kcall_def)
    ultimately show ?thesis using pool_grown_none [OF Suc.prems(1,2)] by simp
  next
    case True
    obtain j1 where j1: "kz_ok K n d1 = (j1, d)" "j = Suc j1"
      using Suc.prems(5) z True by (auto split: prod.splits)
    obtain E1 D1 where
      st: "xfer_buf_init_loop K (Suc n) s = xfer_buf_init_loop K n
        (s\<lparr>dev := d1, xmem := (xmem s)(?k \<mapsto> zero_xfer), next_xfer := Suc ?k, elms := E1, hdrs := D1\<rparr>)"
      and r: "rep E1 D1 (L(XferL \<mapsto> map Xfer (xs @ [?k])))" "dom E1 = insert (Xfer ?k) (dom (elms s))"
        "\<forall>x \<ge> Suc ?k. E1 (Xfer x) = None"
      by (rule xfer_init_step [OF Suc.prems(1-4) z [unfolded eqTrueI [OF True]], where n = n])
    let ?L = "L(XferL \<mapsto> map Xfer (xs @ [?k]))"
    let ?s2 = "s\<lparr>dev := d1, xmem := (xmem s)(?k \<mapsto> zero_xfer), next_xfer := Suc ?k, elms := E1, hdrs := D1\<rparr>"
    have "heap_rep ?s2 ?L" "?L XferL = Some (map Xfer (xs @ [?k]))" "xfer_list ?s2 = Some XferL" "fresh_xfers ?s2"
      "kz_ok K n (dev ?s2) = (j1, d)" using r Suc.prems(3) j1(1) by (simp_all add: fresh_xfers_def)
    from Suc.IH [OF this] obtain t where "xfer_buf_init_loop K n ?s2 = Some (if j1 = n then 0 else - ENOMEM, t)"
      "pool_grown ?s2 ?L (xs @ [?k]) j1 d t" by blast
    with st j1(2) pool_grown_more [OF r(2)] show ?thesis by auto
  qed
qed

text \<open>Freeing the pool: every buffer on the list is released, once.\<close>

definition part_freed :: "'d drv \<Rightarrow> (lid \<Rightarrow> obj list option) \<Rightarrow> nat list \<Rightarrow> obj list \<Rightarrow> 'd drv \<Rightarrow> bool" where
  "part_freed s L xs obs t \<longleftrightarrow> (\<exists>us vs E D. xs = us @ vs \<and> obs = map Xfer vs \<and>
     t = s\<lparr>elms := E, hdrs := D, xmem := (\<lambda>x. if x \<in> set us then None else xmem s x)\<rparr> \<and>
     rep E D (L(XferL \<mapsto> map Xfer vs)) \<and> dom E = dom (elms s) - Xfer ` set us)"

lemma part_freed_step:
  fixes s :: "'d drv"
  assumes m: "mem_ok (xmem s) (set xs)" and dist: "distinct xs" and Q: "part_freed s L xs (ob # ys) h"
  shows "\<exists>h1 h2. list_fetch (Some XferL) h = Some (Some ob, h1) \<and> free_xfer ob h1 = Some h2 \<and> part_freed s L xs ys h2"
proof -
  from Q obtain us v vs E D where sp: "xs = us @ v # vs" "ob = Xfer v" "ys = map Xfer vs"
    and h: "h = s\<lparr>elms := E, hdrs := D, xmem := (\<lambda>x. if x \<in> set us then None else xmem s x)\<rparr>"
    and Rh: "rep E D (L(XferL \<mapsto> map Xfer (v # vs)))" and dh: "dom E = dom (elms s) - Xfer ` set us"
    unfolding part_freed_def by (auto simp: Cons_eq_map_conv)
  have "heap_rep h (L(XferL \<mapsto> map Xfer (v # vs)))" using Rh h by simp
  then obtain E1 D1 where
    f: "list_fetch (Some XferL) h = Some (Some (Xfer v), h\<lparr>elms := E1, hdrs := D1\<rparr>)"
    and R1: "rep E1 D1 (L(XferL \<mapsto> map Xfer (v # vs), XferL \<mapsto> map Xfer vs))"
    and d1: "dom E1 = dom (elms h)" and e1: "E1 (Xfer v) = Some zero_elm"
    by (rule list_fetch_rep [where l = XferL and x = "Xfer v" and xs = "map Xfer vs"]) simp_all
  obtain m0 where m0: "xmem s v = Some m0" using m sp by (auto simp: mem_ok_def)
  let ?E2 = "E1(Xfer v := None)" let ?M = "\<lambda>x. if x \<in> set (us @ [v]) then None else xmem s x"
  have "rep E1 D1 (L(XferL \<mapsto> map Xfer vs))" using R1 by simp
  moreover have "loose E1 (Xfer v)" using e1 by (simp add: loose_def zero_elm_def)
  ultimately have R2: "rep ?E2 D1 (L(XferL \<mapsto> map Xfer vs))" by (rule rep_kfree)
  have "(\<lambda>x. if x \<in> set us then None else xmem s x)(v := None) = ?M" by (auto simp: fun_eq_iff)
  then have fr: "free_xfer (Xfer v) (h\<lparr>elms := E1, hdrs := D1\<rparr>) = Some (s\<lparr>elms := ?E2, hdrs := D1, xmem := ?M\<rparr>)"
    using h e1 m0 dist sp(1) by (simp add: free_xfer_def kfree_elm_def)
  have "dom ?E2 = dom (elms s) - Xfer ` set (us @ [v])" using d1 dh h by auto
  with R2 sp have "part_freed s L xs ys (s\<lparr>elms := ?E2, hdrs := D1, xmem := ?M\<rparr>)"
    unfolding part_freed_def by (intro exI [of _ "us @ [v]"] exI [of _ vs] exI [of _ ?E2] exI [of _ D1]) simp
  with f fr sp(2) show ?thesis by blast
qed

lemma xfer_buf_free_ok:
  fixes s :: "'d drv"
  assumes P: "xfer_pool s L xs"
  shows "\<exists>E D. xfer_buf_free s = Some (s\<lparr>elms := E, hdrs := D, xmem := (\<lambda>x. if x \<in> set xs then None else xmem s x)\<rparr>) \<and>
    rep E D (L(XferL \<mapsto> [])) \<and> dom E = dom (elms s) - Xfer ` set xs"
proof -
  have R: "heap_rep s L" "L XferL = Some (map Xfer xs)" and q: "xfer_list s = Some XferL"
    and m: "mem_ok (xmem s) (set xs)" using P by (simp_all add: xfer_pool_def)
  have dist: "distinct xs" using rep_distinct [OF R] by (simp add: distinct_map)
  have "L(XferL \<mapsto> map Xfer xs) = L" using R(2) by (simp add: fun_upd_idem)
  then have "part_freed s L xs (map Xfer xs) s" unfolding part_freed_def using R(1)
    by (intro exI [of _ "[]"] exI [of _ xs] exI [of _ "elms s"] exI [of _ "hdrs s"]) simp
  moreover have "list_fetch (Some XferL) h = Some (None, h)" if "part_freed s L xs [] h" for h
  proof -
    from that have "heap_rep h (L(XferL \<mapsto> []))" unfolding part_freed_def by auto
    then show ?thesis by (rule list_fetch_empty) simp
  qed
  ultimately obtain t where "cleanup_loop (Some XferL) free_xfer s = Some t" "part_freed s L xs [] t"
    using cleanup_loop_rule [of "part_freed s L xs" "map Xfer xs" s "Some XferL" free_xfer] part_freed_step [OF m dist] by metis
  then show ?thesis using q unfolding part_freed_def xfer_buf_free_def list_cleanup_def by auto
qed

section \<open>Properties of the transport\<close>

lemma k0_pool: "\<exists>s L. xfer_pool s L [0..<8] \<and> spi_hdlr (s :: unit drv)"
proof -
  let ?s = "drv0\<lparr>hdrs := [XferL \<mapsto> zero_hdr], xfer_list := Some XferL\<rparr>"
  have H: "heap_rep ?s [XferL \<mapsto> map Xfer []]"
    by (auto simp: drv0_def drv_off_def rep_def dlist_def zero_hdr_def int32_def split: option.splits)
  have kz: "kz_ok k0 8 (dev ?s) = (8, ())" by (simp add: numeral_eq_Suc k0_simps)
  have f: "xfer_list ?s = Some XferL" "fresh_xfers ?s" by (simp_all add: fresh_xfers_def drv0_def drv_off_def)
  have nx: "next_xfer ?s = 0" by (simp add: drv0_def drv_off_def)
  from xfer_buf_init_loop_ok [OF H fun_upd_same f kz, unfolded pool_grown_def nx] obtain E D where
    R: "rep E D ([XferL \<mapsto> map Xfer []](XferL \<mapsto> map Xfer ([] @ [0..<0 + 8])))" by blast
  let ?t = "?s\<lparr>elms := E, hdrs := D, xmem := (\<lambda>x. Some zero_xfer), spi_hdlr := True\<rparr>"
  have "xfer_pool ?t [XferL \<mapsto> map Xfer [0..<8]] [0..<8]"
    using R by (simp add: xfer_pool_def mem_ok_def xfer_ok_def zero_xfer_def)
  moreover have "spi_hdlr ?t" by simp
  ultimately show ?thesis by blast
qed

lemma adc_trx_nobuf:
  assumes "xfer_pool s L []" "spi_hdlr s" "0 \<le> tx_cnt" "0 \<le> rx_cnt" "tx_cnt \<le> 680" "rx_cnt \<le> 680"
  shows "adc_trx K cmd tx tx_cnt rx rx_cnt conv s = Some (- ENOMEM, None, rx, s)"
proof -
  have len: "int32 ((if (if tx_cnt > rx_cnt then tx_cnt else rx_cnt) = 0 then 1
        else int32 ((if tx_cnt > rx_cnt then tx_cnt else rx_cnt) + 2)) * BYTE_PER_WORD)
      = 3 * int (trx_words tx_cnt rx_cnt)"
    using trx_len [of tx_cnt rx_cnt] assms unfolding Let_def by simp
  have "\<not> MAX_BUF_SZ < 3 * int (trx_words tx_cnt rx_cnt)"
    using assms by (auto simp: trx_words_def Let_def MAX_BUF_SZ_def max_def)
  with len assms(2) get_xfer_buf_empty [OF assms(1)] show ?thesis by (simp add: adc_trx_def Let_def)
qed

text \<open>C23: \<open>adc_trx\<close> on every branch. With no device it returns -ENODEV, with more than 680 words
  -EINVAL, with no free transfer buffer -ENOMEM, each time without touching anything; else it
  clocks out exactly one frame (command word, data words, zeros up to the longer of both
  directions plus two words), returns the controller's code, delivers the status word and the
  decoded words only on success, and hands its buffer back to the pool on success and on error.\<close>

theorem adc_trx_outcome:
  assumes pool: "xfer_pool s L xs"
    and cnts: "0 \<le> tx_cnt" "0 \<le> rx_cnt" "tx_cnt \<le> 100000" "rx_cnt \<le> 100000" "nat tx_cnt \<le> length tx"
    and rx: "\<And>r. rx = Some r \<Longrightarrow> conv = Some frame2word \<and> nat rx_cnt \<le> length r"
    and io: "spi_sync_transfer K (dev s) (trx_frame cmd (take (nat tx_cnt) tx) (trx_words tx_cnt rx_cnt))
      = (ret, rxd, d)"
  defines "refused \<equiv> (if \<not> spi_hdlr s then Some ENODEV else if 680 < max tx_cnt rx_cnt then Some EINVAL
                      else if xs = [] then Some ENOMEM else None)"
  shows "case refused of
      Some e \<Rightarrow> adc_trx K cmd tx tx_cnt rx rx_cnt conv s = Some (- e, None, rx, s)
    | None \<Rightarrow> \<exists>t ys. adc_trx K cmd tx tx_cnt rx rx_cnt conv s =
        Some (ret, if ret < 0 then None else Some (dec_word (rxd 0) (rxd 1)),
          if ret < 0 then rx else trx_rx rx rx_cnt rxd, t) \<and>
        klog t = klog s @ [KSpi (trx_frame cmd (take (nat tx_cnt) tx) (trx_words tx_cnt rx_cnt))] \<and>
        xfer_pool t (L(XferL \<mapsto> map Xfer ys)) ys \<and> mset ys = mset xs \<and> io_only s t"
proof -
  consider "\<not> spi_hdlr s" | "spi_hdlr s" "680 < max tx_cnt rx_cnt"
    | "spi_hdlr s" "\<not> 680 < max tx_cnt rx_cnt" "xs = []" | "spi_hdlr s" "\<not> 680 < max tx_cnt rx_cnt" "xs \<noteq> []"
    by blast
  then show ?thesis
  proof cases
    case 1
    with adc_trx_nodev show ?thesis by (simp add: refused_def)
  next
    case 2
    with adc_trx_toolong [of s tx_cnt rx_cnt K cmd tx rx conv] cnts show ?thesis
      by (auto simp: refused_def max_def split: if_splits)
  next
    case 3
    with adc_trx_nobuf [of s L tx_cnt rx_cnt K cmd tx rx conv] pool cnts show ?thesis
      by (auto simp: refused_def)
  next
    case 4
    then have c: "tx_cnt \<le> 680" "rx_cnt \<le> 680" by auto
    have "\<exists>t ys. adc_trx K cmd tx tx_cnt rx rx_cnt conv s =
        Some (ret, if ret < 0 then None else Some (dec_word (rxd 0) (rxd 1)),
          if ret < 0 then rx else trx_rx rx rx_cnt rxd, t) \<and>
        pool_step s L xs [KSpi (trx_frame cmd (take (nat tx_cnt) tx) (trx_words tx_cnt rx_cnt))] t ys \<and> dev t = d"
      by (rule adc_trx_ok [OF pool 4(3,1) cnts(1,2) c cnts(5) _ io]) (use rx in auto)
    moreover have no: "refused = None" using 4 by (simp add: refused_def)
    ultimately show ?thesis unfolding no pool_step_def option.case by blast
  qed
qed

theorem adc_trx_outcome_witness:
  "\<exists>(s :: unit drv) L t ys. xfer_pool s L [0..<8] \<and>
     adc_trx k0 CMD_RREG [] 0 (Some [0, 0, 9]) 2 (Some frame2word) s
       = Some (0, Some 3, Some (rx_words (\<lambda>i. of_nat (3 * i)) 2 @ [9]), t) \<and>
     klog t = klog s @ [KSpi (trx_frame CMD_RREG [] 4)] \<and> mset ys = mset [0..<8]"
proof -
  from k0_pool obtain s :: "unit drv" and L where s: "xfer_pool s L [0..<8]" "spi_hdlr s" by blast
  have io: "spi_sync_transfer k0 (dev s) (trx_frame CMD_RREG (take (nat 0) []) (trx_words 0 2))
      = (0, (\<lambda>i. of_nat (3 * i)), ())" by (simp add: k0_simps)
  have d: "dec_word (of_nat (3 * 0)) (of_nat (3 * 1)) = 3" by (simp add: dec_word_def)
  have w: "trx_words 0 2 = 4" by (simp add: trx_words_def)
  have u: "[0..<8] \<noteq> ([] :: nat list)" by simp
  from adc_trx_outcome [OF s(1) _ _ _ _ _ _ io, of "Some [0, 0, 9]" "Some frame2word"] s d w u show ?thesis
    by (simp add: trx_rx_def) blast
qed

lemma or_low: "0 \<le> x \<Longrightarrow> x < 2 ^ k \<Longrightarrow> push_bit k q OR x = push_bit k q + (x::int)"
proof (rule disjunctive_add_eq_or [symmetric])
  assume x: "0 \<le> x" "x < 2 ^ k"
  have "n < k" if "bit x n" for n
  proof (rule ccontr)
    assume "\<not> n < k"
    moreover have "bit (take_bit k x) n" using x that by (simp add: take_bit_int_eq_self)
    ultimately show False by (simp add: bit_take_bit_iff)
  qed
  then show "push_bit k q AND x = 0"
    by (intro bit_eqI) (fastforce simp: bit_simps)
qed

text \<open>The command word of a register access. For a start address below 64 and 1 to 128
  registers it is the opcode, the address in bits 7 to 12 and the count minus one in bits 0 to
  6, the layout of the RREG and WREG commands, and nothing overlaps.\<close>

theorem reg_cmd_fields:
  assumes opc: "opc = CMD_RREG \<or> opc = CMD_WREG" and a: "unat a < 64" and cnt: "1 \<le> cnt" "cnt \<le> 128"
  shows "uint (reg_cmd opc a cnt) = uint opc + 128 * uint a + (cnt - 1)"
proof -
  let ?y = "push_bit 7 (ucast a) :: s32" and ?x = "word_of_int (cnt - 1) :: s32" and ?o = "ucast opc :: s32"
  have a64: "uint a < 64" using a unfolding uint_nat by linarith
  obtain p where p: "uint opc = push_bit 13 p" "p < 8" "0 \<le> p"
    using opc by (auto simp: CMD_RREG_def CMD_WREG_def push_bit_eq_mult
        intro: that [of 5] that [of 3])
  have ux: "uint ?x = cnt - 1" using cnt by (simp only: unsigned_of_int) (simp add: take_bit_int_eq_self)
  have uy: "uint ?y = push_bit 7 (uint a)"
    using a64 by (simp only: unsigned_push_bit_eq unsigned_ucast_eq) (simp add: take_bit_int_eq_self push_bit_eq_mult)
  have uo: "uint ?o = push_bit 13 p"
    using p by (simp add: unsigned_ucast_eq take_bit_int_eq_self push_bit_eq_mult)
  have "uint ?y OR uint ?x = uint ?y + uint ?x" unfolding uy ux using cnt by (intro or_low) simp_all
  moreover have "push_bit 13 p OR (uint ?y + uint ?x) = push_bit 13 p + (uint ?y + uint ?x)"
    unfolding uy ux using cnt a64 by (intro or_low) (simp_all add: push_bit_eq_mult)
  ultimately have "uint (?o OR ?y OR ?x) = push_bit 13 p + (128 * uint a + (cnt - 1))"
    using uo ux uy by (simp add: unsigned_or_eq or.assoc push_bit_eq_mult)
  then show ?thesis using a64 cnt p
    by (simp add: reg_cmd_def unsigned_ucast_eq take_bit_int_eq_self push_bit_eq_mult)
qed

theorem reg_cmd_fields_witness: "uint (reg_cmd CMD_WREG 9 5) = 0x6000 + 128 * 9 + 4"
  using reg_cmd_fields [of CMD_WREG 9 5] by (simp add: CMD_WREG_def)

text \<open>C36: an address outside 0 to 63 is not refused, it is another command. The count may be
  anything: for a write, bits 6 and 7 of the address fall on the two set bits of the WREG opcode,
  so address \<open>a\<close> writes register \<open>a mod 64\<close>; for a read, bit 7 falls on a zero bit of RREG and the
  word sent is no RREG command at all; and a count of 129 registers from an even address is sent
  as 1 register from the next address.\<close>

theorem reg_cmd_aliases:
  "reg_cmd CMD_WREG a cnt = reg_cmd CMD_WREG (a AND 63) cnt \<and>
   (bit a 7 \<longrightarrow> reg_cmd CMD_RREG a cnt AND 0xE000 = 0xE000) \<and>
   (\<not> bit a 0 \<longrightarrow> reg_cmd opc a 129 = reg_cmd opc (a OR 1) 1)"
proof (intro conjI impI)
  have w: "CMD_WREG = push_bit 13 (mask 2)" by (simp add: CMD_WREG_def mask_eq_exp_minus_1 push_bit_eq_mult)
  have m: "(63 :: byte) = mask 6" by (simp add: mask_eq_exp_minus_1)
  show "reg_cmd CMD_WREG a cnt = reg_cmd CMD_WREG (a AND 63) cnt"
    unfolding reg_cmd_def w m
    by (rule bit_word_eqI) (auto simp: bit_simps, (drule bit_imp_le_length, simp)+)
  have e: "(0xE000 :: u16) = push_bit 13 (mask 3)" by (simp add: mask_eq_exp_minus_1 push_bit_eq_mult)
  show "reg_cmd CMD_RREG a cnt AND 0xE000 = 0xE000" if "bit a 7"
  proof (rule bit_word_eqI)
    fix n assume n: "n < LENGTH(16)"
    consider "n = 13" | "n = 14" | "n = 15" | "\<not> bit (0xE000 :: u16) n" using n unfolding e by (fastforce simp: bit_simps)
    then show "bit (reg_cmd CMD_RREG a cnt AND 0xE000) n = bit (0xE000 :: u16) n"
      by cases (use that in \<open>auto simp: reg_cmd_def CMD_RREG_def bit_simps\<close>)
  qed
  show "reg_cmd opc a 129 = reg_cmd opc (a OR 1) 1" if "\<not> bit a 0"
  proof -
    have "(128 :: int) = push_bit 7 1" by (simp add: push_bit_eq_mult)
    then have b: "bit (128 :: int) n \<longleftrightarrow> n = 7" for n
      by (simp only: bit_push_bit_iff) (auto simp: bit_1_iff)
    show ?thesis unfolding reg_cmd_def using that
      by (intro bit_word_eqI) (auto simp: bit_simps b)
  qed
qed

theorem reg_cmd_aliases_witness:
  "reg_cmd CMD_RREG 0x80 1 AND 0xE000 = 0xE000 \<and> reg_cmd CMD_RREG 2 129 = reg_cmd CMD_RREG 3 1"
proof -
  have "bit (0x80 :: byte) 7" "\<not> bit (2 :: byte) 0" "(2 :: byte) OR 1 = 3" by simp_all
  with reg_cmd_aliases [of "0x80" 1 CMD_RREG] reg_cmd_aliases [of 2 1 CMD_RREG] show ?thesis by simp
qed

end
