(* ===== verification/Chunk_Buf.thy ===== *)
theory Chunk_Buf
  imports Spi_Xfer
begin

text \<open>
  The chunk buffers of \<open>src/ads131m08_data.c\<close>: eight buffers of up to 320 samples that move
  between \<open>free_list\<close>, \<open>active_list\<close> and \<open>ready_list\<close>. The acquisition loop on top of them is
  in theory Acquire.
\<close>

section \<open>Operations\<close>

definition ads131m08_run_stat :: "'d drv \<Rightarrow> int" where
  "ads131m08_run_stat s = run_stat s"

definition ads131m08_data_get_chunk_sz :: "'d drv \<Rightarrow> int" where
  "ads131m08_data_get_chunk_sz s = chunk_sz s"

definition init_chunk_buf :: "nat \<Rightarrow> int \<Rightarrow> 'd drv \<Rightarrow> 'd drv option" where
  "init_chunk_buf b buf_sz s =
     upd_buf b (\<lambda>c. c\<lparr>c_chunk_sz := buf_sz, c_idx := 0, c_stat := BUF_STAT_FREE, c_xfer := None\<rparr>) s"

definition ads131m08_data_resize_chunk_buf :: "int \<Rightarrow> 'd drv \<Rightarrow> 'd drv option" where
  "ads131m08_data_resize_chunk_buf new_sz s =
     (if new_sz \<le> 0 then Some s
      else
        let new_sz = (if new_sz > MAX_CHUNK_SZ then MAX_CHUNK_SZ else new_sz) in do {
          s \<leftarrow> for_each (\<lambda>i. upd_buf i (\<lambda>c. c\<lparr>c_chunk_sz := new_sz, c_idx := 0\<rparr>)) [0..<CHUNK_BUF_CNT] s;
          Some (s\<lparr>chunk_sz := new_sz\<rparr>) })"

definition ads131m08_adc_try_lock :: "'d drv \<Rightarrow> bool \<times> 'd drv" where
  "ads131m08_adc_try_lock s = (if adc_lock s = 0 then (True, s\<lparr>adc_lock := 1\<rparr>) else (False, s))"

fun adc_lock_loop :: "nat \<Rightarrow> 'd drv \<Rightarrow> int \<times> 'd drv" where
  "adc_lock_loop 0 s = (FAIL, s)"
| "adc_lock_loop (Suc n) s =
     (case ads131m08_adc_try_lock s of
        (True, s) \<Rightarrow> (SUCCESS, s)
      | (False, s) \<Rightarrow> adc_lock_loop n (log_ev (KUdelay 1) s))"

definition ads131m08_adc_lock_cnt :: "int \<Rightarrow> 'd drv \<Rightarrow> int \<times> 'd drv" where
  "ads131m08_adc_lock_cnt cnt s = adc_lock_loop (nat cnt) s"

definition ads131m08_adc_unlock :: "'d drv \<Rightarrow> 'd drv" where
  "ads131m08_adc_unlock s = s\<lparr>adc_lock := 0\<rparr>"

definition ads131m08_adc_lock_release :: "'d drv \<Rightarrow> 'd drv" where
  "ads131m08_adc_lock_release s = s\<lparr>adc_lock := 0\<rparr>"

text \<open>The pointer \<open>&chunk_buf->data[idx]\<close> is the pair of the buffer and the index; going
  through it is checked against the array.\<close>

definition ads131m08_smpl_data_get :: "nat option \<Rightarrow> 'd drv \<Rightarrow> (nat \<times> int) option option" where
  "ads131m08_smpl_data_get chunk_buf s =
     (case chunk_buf of
        None \<Rightarrow> Some None
      | Some b \<Rightarrow> do { c \<leftarrow> get_buf b s; Some (Some (b, c_idx c)) })"

definition upd_smpl :: "nat \<times> int \<Rightarrow> (smpl \<Rightarrow> smpl) \<Rightarrow> 'd drv \<Rightarrow> 'd drv option" where
  "upd_smpl p f s =
     (case p of (b, i) \<Rightarrow> do {
        c \<leftarrow> get_buf b s;
        (if 0 \<le> i \<and> nat i < length (c_data c)
         then upd_buf b (\<lambda>c. c\<lparr>c_data := (c_data c)[nat i := f (c_data c ! nat i)]\<rparr>) s
         else None) })"

definition ads131m08_iface_wakeup :: "'d drv \<Rightarrow> 'd drv option" where
  "ads131m08_iface_wakeup s = (if ads131m08_data s then Some (log_ev KWakeUp s) else None)"

text \<open>The two statements of \<open>ads131m08_chunk_buf_ready\<close>, in their order. A reader that runs between
  them sees the chunk on the list and has not been woken.\<close>

definition chunk_buf_ready_stmts :: "nat option \<Rightarrow> ('d drv \<Rightarrow> 'd drv option) list" where
  "chunk_buf_ready_stmts chunk_buf =
     [\<lambda>s. list_append (ready_list s) (map_option Chunk chunk_buf) s,
      \<lambda>s. ads131m08_iface_wakeup s]"

definition ads131m08_chunk_buf_ready :: "nat option \<Rightarrow> 'd drv \<Rightarrow> 'd drv option" where
  "ads131m08_chunk_buf_ready chunk_buf s = run_stmts (chunk_buf_ready_stmts chunk_buf) s"

lemma chunk_buf_ready_nth [simp]:
  "chunk_buf_ready_stmts c ! 0 = (\<lambda>s. list_append (ready_list s) (map_option Chunk c) s)"
  "chunk_buf_ready_stmts c ! Suc 0 = ads131m08_iface_wakeup"
  by (simp_all add: chunk_buf_ready_stmts_def)

lemma chunk_buf_ready_eq:
  "ads131m08_chunk_buf_ready chunk_buf s = do {
     s \<leftarrow> list_append (ready_list s) (map_option Chunk chunk_buf) s;
     ads131m08_iface_wakeup s }"
  by (simp add: ads131m08_chunk_buf_ready_def chunk_buf_ready_stmts_def)

definition ads131m08_chunk_buf_active :: "nat option \<Rightarrow> 'd drv \<Rightarrow> 'd drv option" where
  "ads131m08_chunk_buf_active chunk_buf s = list_append (active_list s) (map_option Chunk chunk_buf) s"

definition ads131m08_data_get :: "'d drv \<Rightarrow> (obj option \<times> 'd drv) option" where
  "ads131m08_data_get s = list_fetch (ready_list s) s"

definition ads131m08_data_return :: "obj option \<Rightarrow> 'd drv \<Rightarrow> 'd drv option" where
  "ads131m08_data_return data s =
     (case data of
        None \<Rightarrow> Some s
      | Some ob \<Rightarrow> do {
          b \<leftarrow> as_chunk ob;
          s \<leftarrow> upd_buf b (\<lambda>c. c\<lparr>c_idx := 0, c_stat := BUF_STAT_FREE, c_xfer := None\<rparr>) s;
          list_append (free_list s) (Some ob) s })"

text \<open>\<open>ads131m08_data_smpl_cnt\<close>: the number of ready chunks; the two out-parameters are
  written when the caller passes them.\<close>

definition ads131m08_data_smpl_cnt ::
  "bool \<Rightarrow> bool \<Rightarrow> 'd drv \<Rightarrow> (int \<times> int option \<times> int option) option" where
  "ads131m08_data_smpl_cnt free_cnt active_cnt s = do {
     f \<leftarrow> (if free_cnt then map_option Some (list_get_cnt (free_list s) s) else Some None);
     a \<leftarrow> (if active_cnt then map_option Some (list_get_cnt (active_list s) s) else Some None);
     r \<leftarrow> list_get_cnt (ready_list s) s;
     Some (r, f, a) }"

definition ads131m08_data_cleanup :: "'d drv \<Rightarrow> 'd drv option" where
  "ads131m08_data_cleanup s =
     (if \<not> ads131m08_data s then Some s
      else do {
        s \<leftarrow> list_cleanup (ready_list s) (Some (\<lambda>data. ads131m08_data_return (Some data))) s;
        s \<leftarrow> list_cleanup (active_list s) (Some (\<lambda>data. ads131m08_data_return (Some data))) s;
        Some (log_ev KWakeUp s) })"

text \<open>The two zeroed device allocations of \<open>ads131m08_data_init\<close>: the driver data (its
  fields are part of the state) and the array of chunk buffers with their link heads.\<close>

definition alloc_driver_data :: "bool \<Rightarrow> 'd drv \<Rightarrow> 'd drv" where
  "alloc_driver_data ok s =
     s\<lparr>ads131m08_data := ok, gpio_irq_no := 0, reset_gpiod := False, data_cl := False\<rparr>"

definition alloc_chunk_bufs :: "bool \<Rightarrow> 'd drv \<Rightarrow> 'd drv" where
  "alloc_chunk_bufs ok s =
     (if ok
      then s\<lparr>elms := (\<lambda>a. case a of Chunk b \<Rightarrow> if b < CHUNK_BUF_CNT then Some zero_elm else elms s a
                                   | Xfer x \<Rightarrow> elms s a),
             chunk_buf_list := Some (replicate CHUNK_BUF_CNT zero_chunk_buf)\<rparr>
      else s\<lparr>chunk_buf_list := None\<rparr>)"

definition ads131m08_data_init :: "'d kenv \<Rightarrow> 'd drv \<Rightarrow> (int \<times> 'd drv) option" where
  "ads131m08_data_init K s =
     (case kcall (devm_kzalloc K) s of (ok, s) \<Rightarrow>
        let s = alloc_driver_data ok s in
        if \<not> ok then Some (- ENOMEM, s)
        else
          let s = s\<lparr>chunk_sz := DEFAULT_CHUNK_SZ, run_stat := 0, drop_cnt := 0, adc_lock := 0, smpl_ts := 0\<rparr>
          in case kcall (devm_kzalloc K) s of (ok, s) \<Rightarrow>
          let s = alloc_chunk_bufs ok s in
          if \<not> ok then Some (- ENOMEM, s)
          else
            case new_list K ReadyL s of (r, s) \<Rightarrow>
            let s = s\<lparr>ready_list := r\<rparr> in
            case new_list K FreeL s of (f, s) \<Rightarrow>
            let s = s\<lparr>free_list := f\<rparr> in
            case new_list K ActiveL s of (a, s) \<Rightarrow>
            let s = s\<lparr>active_list := a\<rparr> in
            if r = None \<or> f = None \<or> a = None then Some (- ENOMEM, s)
            else do {
              s \<leftarrow> for_each (\<lambda>i s. do { s \<leftarrow> init_chunk_buf i DEFAULT_CHUNK_SZ s;
                                        ads131m08_data_return (Some (Chunk i)) s })
                     [0..<CHUNK_BUF_CNT] s;
              Some (SUCCESS, s) })"

section \<open>Frames\<close>

text \<open>The variables that moving buffers and talking to the device leave alone.\<close>

definition ctl where
  "ctl s = ((ads131m08_data s, ready_list s, active_list s, free_list s, xfer_list s),
            (chunk_sz s, run_stat s, drop_cnt s, adc_lock s, smpl_ts s),
            (spi_hdlr s, next_xfer s, irq_registered s, gpio_irq_no s, reset_gpiod s),
            (open_cnt s, proc_file s, data_cl s))"

lemma ctl_fields:
  assumes "ctl t = ctl s"
  shows "ads131m08_data t = ads131m08_data s" "ready_list t = ready_list s" "active_list t = active_list s"
    "free_list t = free_list s" "xfer_list t = xfer_list s" "chunk_sz t = chunk_sz s"
    "run_stat t = run_stat s" "drop_cnt t = drop_cnt s" "adc_lock t = adc_lock s" "smpl_ts t = smpl_ts s"
    "spi_hdlr t = spi_hdlr s" "next_xfer t = next_xfer s" "irq_registered t = irq_registered s"
    "gpio_irq_no t = gpio_irq_no s" "reset_gpiod t = reset_gpiod s" "open_cnt t = open_cnt s"
    "proc_file t = proc_file s" "data_cl t = data_cl s"
  using assms by (simp_all add: ctl_def)

lemma ctl_upd [simp]:
  "ctl (s\<lparr>elms := E\<rparr>) = ctl s" "ctl (s\<lparr>hdrs := D\<rparr>) = ctl s" "ctl (s\<lparr>dev := d\<rparr>) = ctl s"
  "ctl (s\<lparr>klog := lg\<rparr>) = ctl s" "ctl (s\<lparr>xmem := M\<rparr>) = ctl s" "ctl (s\<lparr>chunk_buf_list := B\<rparr>) = ctl s"
  "ctl (log_ev e s) = ctl s"
  by (simp_all add: ctl_def log_ev_def)

lemma io_only_ctl: "io_only s t \<Longrightarrow> ctl t = ctl s \<and> chunk_buf_list t = chunk_buf_list s"
  by (auto simp: io_only_def ctl_def)

text \<open>A step on the chunk buffers: no device, no transfer buffer, the logged events.\<close>

definition buf_step :: "'d drv \<Rightarrow> kev list \<Rightarrow> 'd drv \<Rightarrow> bool" where
  "buf_step s evs t \<longleftrightarrow>
     ctl t = ctl s \<and> xmem t = xmem s \<and> dev t = dev s \<and> klog t = klog s @ evs \<and> dom (elms t) = dom (elms s)"

lemma buf_step_refl [simp]: "buf_step s [] s"
  by (simp add: buf_step_def)

lemma buf_step_trans: "buf_step s evs t \<Longrightarrow> buf_step t evs' u \<Longrightarrow> buf_step s (evs @ evs') u"
  by (simp add: buf_step_def)

section \<open>The invariant of the buffers\<close>

definition drv_lists :: "nat list \<Rightarrow> nat list \<Rightarrow> nat list \<Rightarrow> nat list option \<Rightarrow> lid \<Rightarrow> obj list option" where
  "drv_lists R A F X l =
     (case l of
        ReadyL \<Rightarrow> Some (map Chunk R)
      | ActiveL \<Rightarrow> Some (map Chunk A)
      | FreeL \<Rightarrow> Some (map Chunk F)
      | XferL \<Rightarrow> map_option (map Xfer) X)"

lemma drv_lists_simps [simp]:
  "drv_lists R A F X ReadyL = Some (map Chunk R)" "drv_lists R A F X ActiveL = Some (map Chunk A)"
  "drv_lists R A F X FreeL = Some (map Chunk F)" "drv_lists R A F X XferL = map_option (map Xfer) X"
  by (simp_all add: drv_lists_def)

lemma drv_lists_upd [simp]:
  "(drv_lists R A F X)(ReadyL \<mapsto> map Chunk R') = drv_lists R' A F X"
  "(drv_lists R A F X)(ActiveL \<mapsto> map Chunk A') = drv_lists R A' F X"
  "(drv_lists R A F X)(FreeL \<mapsto> map Chunk F') = drv_lists R A F' X"
  "(drv_lists R A F X)(XferL \<mapsto> map Xfer X') = drv_lists R A F (Some X')"
  by (auto simp: drv_lists_def fun_eq_iff split: lid.splits)

definition smpl_ok :: "smpl \<Rightarrow> bool" where
  "smpl_ok m \<longleftrightarrow> length (s_data m) = nat ADC_CH_NUM"

definition buf_ok :: "int \<Rightarrow> chunk_buf \<Rightarrow> bool" where
  "buf_ok sz c \<longleftrightarrow> length (c_data c) = nat MAX_CHUNK_SZ \<and> (\<forall>m \<in> set (c_data c). smpl_ok m) \<and>
     c_chunk_sz c = sz \<and> 0 \<le> c_idx c \<and> c_idx c \<le> sz"

text \<open>What the list a buffer is on says of it.\<close>

definition ready_ok :: "int \<Rightarrow> chunk_buf \<Rightarrow> bool" where
  "ready_ok sz c \<longleftrightarrow> c_stat c = BUF_STAT_READY \<and> c_idx c = sz \<and> c_xfer c = None"

definition active_ok :: "int \<Rightarrow> chunk_buf \<Rightarrow> bool" where
  "active_ok sz c \<longleftrightarrow> c_stat c = BUF_STAT_ACTIVE \<and> c_idx c < sz \<and> c_xfer c = None"

definition free_ok :: "chunk_buf \<Rightarrow> bool" where
  "free_ok c \<longleftrightarrow> c_stat c = BUF_STAT_FREE \<and> c_idx c = 0 \<and> c_xfer c = None"

definition bufs_ok :: "int \<Rightarrow> chunk_buf list \<Rightarrow> nat list \<Rightarrow> nat list \<Rightarrow> nat list \<Rightarrow> bool" where
  "bufs_ok sz bs R A F \<longleftrightarrow> length bs = CHUNK_BUF_CNT \<and> 1 \<le> sz \<and> sz \<le> MAX_CHUNK_SZ \<and>
     (\<forall>c \<in> set bs. buf_ok sz c) \<and> (\<forall>b \<in> set R. ready_ok sz (bs ! b)) \<and>
     (\<forall>b \<in> set A. active_ok sz (bs ! b)) \<and> (\<forall>b \<in> set F. free_ok (bs ! b))"

text \<open>Every buffer has one owner: the ready, active or free list, or (\<open>H\<close>) the reader or
  the interrupt thread that fetched it.\<close>

definition owned :: "nat list \<Rightarrow> nat list \<Rightarrow> nat list \<Rightarrow> nat list \<Rightarrow> bool" where
  "owned R A F H \<longleftrightarrow> mset (R @ A @ F @ H) = mset [0..<CHUNK_BUF_CNT] \<and> length A \<le> 1"

definition data_inv ::
  "'d drv \<Rightarrow> nat list \<Rightarrow> nat list \<Rightarrow> nat list \<Rightarrow> nat list \<Rightarrow> nat list option \<Rightarrow> chunk_buf list \<Rightarrow> bool" where
  "data_inv s R A F H X bs \<longleftrightarrow>
     heap_rep s (drv_lists R A F X) \<and> Chunk ` {0..<CHUNK_BUF_CNT} \<subseteq> dom (elms s) \<and>
     ads131m08_data s \<and> ready_list s = Some ReadyL \<and> active_list s = Some ActiveL \<and>
     free_list s = Some FreeL \<and> chunk_buf_list s = Some bs \<and>
     owned R A F H \<and> bufs_ok (chunk_sz s) bs R A F"

lemma owned_lt:
  assumes "owned R A F H"
  shows "set R \<union> set A \<union> set F \<union> set H = {0..<CHUNK_BUF_CNT}" "distinct (R @ A @ F @ H)"
proof -
  have m: "mset (R @ A @ F @ H) = mset [0..<CHUNK_BUF_CNT]" using assms by (simp add: owned_def)
  from mset_eq_setD [OF m] show "set R \<union> set A \<union> set F \<union> set H = {0..<CHUNK_BUF_CNT}" by auto
  from mset_eq_imp_distinct_iff [OF m] show "distinct (R @ A @ F @ H)" by simp
qed

lemma data_inv_loose:
  assumes I: "data_inv s R A F H X bs" and h: "b \<in> set H"
  shows "loose (elms s) (Chunk b)"
proof -
  have R: "heap_rep s (drv_lists R A F X)" and O: "owned R A F H"
    and d: "Chunk ` {0..<CHUNK_BUF_CNT} \<subseteq> dom (elms s)"
    using I by (simp_all add: data_inv_def)
  have "b \<in> {0..<CHUNK_BUF_CNT}" using owned_lt(1) [OF O] h by blast
  with d have "Chunk b \<in> dom (elms s)" by blast
  moreover have "b \<notin> set R" "b \<notin> set A" "b \<notin> set F" using owned_lt(2) [OF O] h by auto
  then have "Chunk b \<notin> set xs" if "drv_lists R A F X l = Some xs" for l xs
    using that by (cases l) auto
  ultimately show ?thesis using loose_iff [OF R] by blast
qed

section \<open>Moving a buffer\<close>

lemma data_fetch:
  assumes I: "data_inv s R A F H X bs"
  shows "R = b # R' \<Longrightarrow> \<exists>t. list_fetch (Some ReadyL) s = Some (Some (Chunk b), t) \<and>
           data_inv t R' A F (b # H) X bs \<and> buf_step s [] t"
    and "A = b # A' \<Longrightarrow> \<exists>t. list_fetch (Some ActiveL) s = Some (Some (Chunk b), t) \<and>
           data_inv t R A' F (b # H) X bs \<and> buf_step s [] t"
    and "F = b # F' \<Longrightarrow> \<exists>t. list_fetch (Some FreeL) s = Some (Some (Chunk b), t) \<and>
           data_inv t R A F' (b # H) X bs \<and> buf_step s [] t"
proof -
  have H: "heap_rep s (drv_lists R A F X)" using I by (simp add: data_inv_def)
  {
    assume *: "R = b # R'"
    from list_fetch_ex [OF H, of ReadyL "Chunk b" "map Chunk R'"] * obtain E D where
      "list_fetch (Some ReadyL) s = Some (Some (Chunk b), s\<lparr>elms := E, hdrs := D\<rparr>)"
      "rep E D (drv_lists R' A F X)" "dom E = dom (elms s)" by auto
    with I * show "\<exists>t. list_fetch (Some ReadyL) s = Some (Some (Chunk b), t) \<and>
        data_inv t R' A F (b # H) X bs \<and> buf_step s [] t"
      by (simp add: data_inv_def buf_step_def owned_def bufs_ok_def)
  next
    assume *: "A = b # A'"
    from list_fetch_ex [OF H, of ActiveL "Chunk b" "map Chunk A'"] * obtain E D where
      "list_fetch (Some ActiveL) s = Some (Some (Chunk b), s\<lparr>elms := E, hdrs := D\<rparr>)"
      "rep E D (drv_lists R A' F X)" "dom E = dom (elms s)" by auto
    with I * show "\<exists>t. list_fetch (Some ActiveL) s = Some (Some (Chunk b), t) \<and>
        data_inv t R A' F (b # H) X bs \<and> buf_step s [] t"
      by (auto simp: data_inv_def buf_step_def owned_def bufs_ok_def)
  next
    assume *: "F = b # F'"
    from list_fetch_ex [OF H, of FreeL "Chunk b" "map Chunk F'"] * obtain E D where
      "list_fetch (Some FreeL) s = Some (Some (Chunk b), s\<lparr>elms := E, hdrs := D\<rparr>)"
      "rep E D (drv_lists R A F' X)" "dom E = dom (elms s)" by auto
    with I * show "\<exists>t. list_fetch (Some FreeL) s = Some (Some (Chunk b), t) \<and>
        data_inv t R A F' (b # H) X bs \<and> buf_step s [] t"
      by (simp add: data_inv_def buf_step_def owned_def bufs_ok_def)
  }
qed

lemma data_fetch_empty:
  assumes "data_inv s R A F H X bs"
  shows "R = [] \<Longrightarrow> list_fetch (Some ReadyL) s = Some (None, s)"
    and "A = [] \<Longrightarrow> list_fetch (Some ActiveL) s = Some (None, s)"
    and "F = [] \<Longrightarrow> list_fetch (Some FreeL) s = Some (None, s)"
  using assms list_fetch_empty [of s "drv_lists R A F X"] by (simp_all add: data_inv_def)

lemma data_append:
  assumes I: "data_inv s R A F (b # H) X bs"
  shows "ready_ok (chunk_sz s) (bs ! b) \<Longrightarrow>
      \<exists>t. list_append (Some ReadyL) (Some (Chunk b)) s = Some t \<and>
        data_inv t (R @ [b]) A F H X bs \<and> buf_step s [] t"
    and "active_ok (chunk_sz s) (bs ! b) \<Longrightarrow> A = [] \<Longrightarrow>
      \<exists>t. list_append (Some ActiveL) (Some (Chunk b)) s = Some t \<and>
        data_inv t R [b] F H X bs \<and> buf_step s [] t"
    and "free_ok (bs ! b) \<Longrightarrow>
      \<exists>t. list_append (Some FreeL) (Some (Chunk b)) s = Some t \<and>
        data_inv t R A (F @ [b]) H X bs \<and> buf_step s [] t"
proof -
  have H: "heap_rep s (drv_lists R A F X)" using I by (simp add: data_inv_def)
  have lo: "loose (elms s) (Chunk b)" by (rule data_inv_loose [OF I]) simp
  note U = drv_lists_upd [unfolded fun_upd_def]
  {
    assume *: "ready_ok (chunk_sz s) (bs ! b)"
    from list_append_ex [OF H _ lo, of ReadyL "map Chunk R"] obtain E D where
      "list_append (Some ReadyL) (Some (Chunk b)) s = Some (s\<lparr>elms := E, hdrs := D\<rparr>)"
      "rep E D ((drv_lists R A F X)(ReadyL \<mapsto> map Chunk R @ [Chunk b]))" "dom E = dom (elms s)"
      by auto
    with I * drv_lists_upd(1) [of R A F X "R @ [b]"]
    show "\<exists>t. list_append (Some ReadyL) (Some (Chunk b)) s = Some t \<and>
        data_inv t (R @ [b]) A F H X bs \<and> buf_step s [] t"
      by (auto simp: data_inv_def buf_step_def owned_def bufs_ok_def)
  next
    assume *: "active_ok (chunk_sz s) (bs ! b)" "A = []"
    from list_append_ex [OF H _ lo, of ActiveL "[]"] * obtain E D where
      "list_append (Some ActiveL) (Some (Chunk b)) s = Some (s\<lparr>elms := E, hdrs := D\<rparr>)"
      "rep E D ((drv_lists R A F X)(ActiveL \<mapsto> [Chunk b]))" "dom E = dom (elms s)"
      by auto
    with I * drv_lists_upd(2) [of R A F X "[b]"]
    show "\<exists>t. list_append (Some ActiveL) (Some (Chunk b)) s = Some t \<and>
        data_inv t R [b] F H X bs \<and> buf_step s [] t"
      by (auto simp: data_inv_def buf_step_def owned_def bufs_ok_def)
  next
    assume *: "free_ok (bs ! b)"
    from list_append_ex [OF H _ lo, of FreeL "map Chunk F"] obtain E D where
      "list_append (Some FreeL) (Some (Chunk b)) s = Some (s\<lparr>elms := E, hdrs := D\<rparr>)"
      "rep E D ((drv_lists R A F X)(FreeL \<mapsto> map Chunk F @ [Chunk b]))" "dom E = dom (elms s)"
      by auto
    with I * drv_lists_upd(3) [of R A F X "F @ [b]"]
    show "\<exists>t. list_append (Some FreeL) (Some (Chunk b)) s = Some t \<and>
        data_inv t R A (F @ [b]) H X bs \<and> buf_step s [] t"
      by (auto simp: data_inv_def buf_step_def owned_def bufs_ok_def)
  }
qed

text \<open>The holder of a buffer writes it.\<close>

lemma data_get_buf:
  assumes I: "data_inv s R A F H X bs" and b: "b \<in> set R \<union> set A \<union> set F \<union> set H"
  shows "get_buf b s = Some (bs ! b)" and "b < length bs" and "buf_ok (chunk_sz s) (bs ! b)"
proof -
  have O: "owned R A F H" and B: "bufs_ok (chunk_sz s) bs R A F" and c: "chunk_buf_list s = Some bs"
    using I by (simp_all add: data_inv_def)
  have "b < CHUNK_BUF_CNT" using owned_lt(1) [OF O] b by auto
  with B show l: "b < length bs" by (simp add: bufs_ok_def)
  with c show "get_buf b s = Some (bs ! b)" by (simp add: get_buf_def nth_opt_def)
  from l B show "buf_ok (chunk_sz s) (bs ! b)" by (simp add: bufs_ok_def)
qed

lemma data_upd_buf_eq:
  assumes I: "data_inv s R A F H X bs" and h: "b \<in> set H" and ok: "buf_ok (chunk_sz s) (f (bs ! b))"
  shows "upd_buf b f s = Some (s\<lparr>chunk_buf_list := Some (bs[b := f (bs ! b)])\<rparr>)"
    and "data_inv (s\<lparr>chunk_buf_list := Some (bs[b := f (bs ! b)])\<rparr>) R A F H X (bs[b := f (bs ! b)])"
proof -
  have b: "b < length bs" using data_get_buf(2) [OF I] h by blast
  have O: "owned R A F H" and B: "bufs_ok (chunk_sz s) bs R A F" and c: "chunk_buf_list s = Some bs"
    using I by (simp_all add: data_inv_def)
  from b c show "upd_buf b f s = Some (s\<lparr>chunk_buf_list := Some (bs[b := f (bs ! b)])\<rparr>)"
    by (simp add: upd_buf_def)
  have "b \<notin> set R" "b \<notin> set A" "b \<notin> set F" using owned_lt(2) [OF O] h by auto
  with B ok b have "bufs_ok (chunk_sz s) (bs[b := f (bs ! b)]) R A F"
    unfolding bufs_ok_def by (auto simp: nth_list_update dest!: set_update_subset_insert [THEN subsetD])
  with I show "data_inv (s\<lparr>chunk_buf_list := Some (bs[b := f (bs ! b)])\<rparr>) R A F H X (bs[b := f (bs ! b)])"
    by (simp add: data_inv_def)
qed

lemma data_upd_buf:
  assumes "data_inv s R A F H X bs" "b \<in> set H" "buf_ok (chunk_sz s) (f (bs ! b))"
  shows "\<exists>t. upd_buf b f s = Some t \<and> data_inv t R A F H X (bs[b := f (bs ! b)]) \<and> buf_step s [] t"
  using data_upd_buf_eq [of s R A F H X bs b f] assms by (simp add: buf_step_def)

definition reset_buf :: "chunk_buf \<Rightarrow> chunk_buf" where
  "reset_buf c = c\<lparr>c_idx := 0, c_stat := BUF_STAT_FREE, c_xfer := None\<rparr>"

definition reset_bufs :: "nat list \<Rightarrow> chunk_buf list \<Rightarrow> chunk_buf list" where
  "reset_bufs xs bs = fold (\<lambda>b bs. bs[b := reset_buf (bs ! b)]) xs bs"

lemma reset_bufs_simps [simp]:
  "reset_bufs [] bs = bs" "reset_bufs (b # xs) bs = reset_bufs xs (bs[b := reset_buf (bs ! b)])"
  "reset_bufs (xs @ ys) bs = reset_bufs ys (reset_bufs xs bs)"
  "length (reset_bufs xs bs) = length bs"
proof -
  show "length (reset_bufs xs bs) = length bs"
    unfolding reset_bufs_def by (induction xs arbitrary: bs) auto
qed (simp_all add: reset_bufs_def)

lemma data_return_ok:
  assumes I: "data_inv s R A F (b # H) X bs"
  shows "\<exists>t. ads131m08_data_return (Some (Chunk b)) s = Some t \<and>
    data_inv t R A (F @ [b]) H X (bs[b := reset_buf (bs ! b)]) \<and> buf_step s [] t"
proof -
  have b: "buf_ok (chunk_sz s) (bs ! b)" "b < length bs" using data_get_buf [OF I, of b] by auto
  have "1 \<le> chunk_sz s" using I by (simp add: data_inv_def bufs_ok_def)
  with b have "buf_ok (chunk_sz s) (reset_buf (bs ! b))" by (simp add: buf_ok_def reset_buf_def)
  from data_upd_buf [OF I, of b reset_buf, OF _ this] obtain t where
    t: "upd_buf b reset_buf s = Some t" "data_inv t R A F (b # H) X (bs[b := reset_buf (bs ! b)])"
      "buf_step s [] t" by auto
  have "free_ok (bs[b := reset_buf (bs ! b)] ! b)" using b by (simp add: free_ok_def reset_buf_def)
  from data_append(3) [OF t(2) this] obtain u where
    u: "list_append (Some FreeL) (Some (Chunk b)) t = Some u"
      "data_inv u R A (F @ [b]) H X (bs[b := reset_buf (bs ! b)])" "buf_step t [] u" by blast
  have "free_list t = Some FreeL" using t(2) by (simp add: data_inv_def)
  with t(1) u(1) have "ads131m08_data_return (Some (Chunk b)) s = Some u"
    by (simp add: ads131m08_data_return_def reset_buf_def [abs_def])
  with u(2) buf_step_trans [OF t(3) u(3)] show ?thesis by auto
qed

lemma data_get_ok:
  assumes I: "data_inv s R A F H X bs"
  shows "R = b # R' \<Longrightarrow> \<exists>t. ads131m08_data_get s = Some (Some (Chunk b), t) \<and>
           data_inv t R' A F (b # H) X bs \<and> buf_step s [] t"
    and "R = [] \<Longrightarrow> ads131m08_data_get s = Some (None, s)"
  using data_fetch(1) [OF I] data_fetch_empty(1) [OF I] I
  by (auto simp: ads131m08_data_get_def data_inv_def)

lemma owned_lengths:
  assumes "owned R A F H"
  shows "length R + length A + length F + length H = CHUNK_BUF_CNT"
proof -
  from assms have "size (mset (R @ A @ F @ H)) = size (mset [0..<CHUNK_BUF_CNT])"
    by (simp add: owned_def)
  then show ?thesis by simp
qed

lemma data_smpl_cnt_ok:
  assumes I: "data_inv s R A F H X bs"
  shows "ads131m08_data_smpl_cnt fc ac s = Some (int (length R),
    if fc then Some (int (length F)) else None, if ac then Some (int (length A)) else None)"
proof -
  have H: "heap_rep s (drv_lists R A F X)" using I by (simp add: data_inv_def)
  have "length R + length A + length F + length H = CHUNK_BUF_CNT"
    using I by (intro owned_lengths) (simp add: data_inv_def)
  then have "length R \<le> 8" "length A \<le> 8" "length F \<le> 8" by (simp_all add: CHUNK_BUF_CNT_def)
  with I list_get_cnt_rep [OF H, of ReadyL] list_get_cnt_rep [OF H, of ActiveL]
    list_get_cnt_rep [OF H, of FreeL]
  show ?thesis by (auto simp: ads131m08_data_smpl_cnt_def data_inv_def int32_id)
qed

lemma chunk_buf_ready_ok:
  assumes I: "data_inv s R A F (b # H) X bs" and ok: "ready_ok (chunk_sz s) (bs ! b)"
  shows "\<exists>t. ads131m08_chunk_buf_ready (Some b) s = Some t \<and> data_inv t (R @ [b]) A F H X bs \<and>
    buf_step s [KWakeUp] t"
proof -
  from data_append(1) [OF I ok] obtain t where
    t: "list_append (Some ReadyL) (Some (Chunk b)) s = Some t" "data_inv t (R @ [b]) A F H X bs"
    "buf_step s [] t" by blast
  then have "data_inv (log_ev KWakeUp t) (R @ [b]) A F H X bs" "buf_step s [KWakeUp] (log_ev KWakeUp t)"
    by (simp_all add: data_inv_def buf_step_def)
  with t I show ?thesis
    by (auto simp: chunk_buf_ready_eq ads131m08_iface_wakeup_def data_inv_def)
qed

lemma chunk_buf_active_ok:
  assumes I: "data_inv s R [] F (b # H) X bs" and ok: "active_ok (chunk_sz s) (bs ! b)"
  shows "\<exists>t. ads131m08_chunk_buf_active (Some b) s = Some t \<and> data_inv t R [b] F H X bs \<and> buf_step s [] t"
  using data_append(2) [OF I ok] I by (auto simp: ads131m08_chunk_buf_active_def data_inv_def)

section \<open>Emptying the lists\<close>

definition return_cb :: "obj \<Rightarrow> 'd drv \<Rightarrow> 'd drv option" where
  "return_cb data = ads131m08_data_return (Some data)"

lemma cleanup_ready_ok:
  fixes s :: "'d drv"
  assumes I: "data_inv s R A F H X bs"
  shows "\<exists>t. cleanup_loop (Some ReadyL) return_cb s = Some t \<and>
    data_inv t [] A (F @ R) H X (reset_bufs R bs) \<and> buf_step s [] t"
proof -
  define P :: "obj list \<Rightarrow> 'd drv \<Rightarrow> bool" where "P = (\<lambda>obs t. \<exists>us vs. R = us @ vs \<and> obs = map Chunk vs \<and>
    data_inv t vs A (F @ us) H X (reset_bufs us bs) \<and> buf_step s [] t)"
  have "P (map Chunk R) s" unfolding P_def using I by (intro exI [of _ "[]"] exI [of _ R]) simp
  moreover have "\<exists>h1 h2. list_fetch (Some ReadyL) h = Some (Some x, h1) \<and> return_cb x h1 = Some h2 \<and> P ys h2"
    if p: "P (x # ys) h" for x ys h
  proof -
    from p obtain us b vs where sp: "R = us @ b # vs" "x = Chunk b" "ys = map Chunk vs"
      and Ih: "data_inv h (b # vs) A (F @ us) H X (reset_bufs us bs)" and st: "buf_step s [] h"
      unfolding P_def by (auto simp: Cons_eq_map_conv)
    from data_fetch(1) [OF Ih] obtain t where t: "list_fetch (Some ReadyL) h = Some (Some (Chunk b), t)"
      "data_inv t vs A (F @ us) (b # H) X (reset_bufs us bs)" "buf_step h [] t" by blast
    from data_return_ok [OF t(2)] obtain u where u: "return_cb (Chunk b) t = Some u"
      "data_inv u vs A (F @ (us @ [b])) H X (reset_bufs (us @ [b]) bs)" "buf_step t [] u"
      by (auto simp: return_cb_def)
    have "buf_step s [] u" using st t(3) u(3) by (simp add: buf_step_def)
    with u(2) sp have "P ys u" unfolding P_def by (intro exI [of _ "us @ [b]"] exI [of _ vs]) simp
    with t(1) u(1) sp(2) show ?thesis by blast
  qed
  moreover have "list_fetch (Some ReadyL) h = Some (None, h)" if "P [] h" for h
    using that data_fetch_empty(1) [of h "[]" A "F @ R" H X "reset_bufs R bs"] unfolding P_def by auto
  ultimately obtain t where "cleanup_loop (Some ReadyL) return_cb s = Some t" "P [] t"
    using cleanup_loop_rule [of P "map Chunk R" s "Some ReadyL" return_cb] by metis
  then show ?thesis unfolding P_def by auto
qed

lemma cleanup_active_ok:
  assumes I: "data_inv s R A F H X bs"
  shows "\<exists>t. cleanup_loop (Some ActiveL) return_cb s = Some t \<and>
    data_inv t R [] (F @ A) H X (reset_bufs A bs) \<and> buf_step s [] t"
proof (cases A)
  case Nil
  with I data_fetch_empty(2) [OF I] show ?thesis by (simp add: cleanup_loop.simps)
next
  case (Cons b A')
  with I have A: "A = [b]" by (simp add: data_inv_def owned_def)
  from data_fetch(2) [OF I A] obtain t where t: "list_fetch (Some ActiveL) s = Some (Some (Chunk b), t)"
    "data_inv t R [] F (b # H) X bs" "buf_step s [] t" by blast
  from data_return_ok [OF t(2)] obtain u where u: "return_cb (Chunk b) t = Some u"
    "data_inv u R [] (F @ [b]) H X (bs[b := reset_buf (bs ! b)])" "buf_step t [] u"
    by (auto simp: return_cb_def)
  have "cleanup_loop (Some ActiveL) return_cb s = Some u"
    using t(1) u(1) data_fetch_empty(2) [OF u(2)]
    by (subst cleanup_loop.simps) (simp add: cleanup_loop.simps)
  with u(2) A buf_step_trans [OF t(3) u(3)] show ?thesis by auto
qed

lemma data_cleanup_ok:
  assumes I: "data_inv s R A F H X bs"
  shows "\<exists>t. ads131m08_data_cleanup s = Some t \<and>
    data_inv t [] [] (F @ R @ A) H X (reset_bufs (R @ A) bs) \<and> buf_step s [KWakeUp] t"
proof -
  from cleanup_ready_ok [OF I] obtain t where
    t: "cleanup_loop (Some ReadyL) return_cb s = Some t" "data_inv t [] A (F @ R) H X (reset_bufs R bs)"
    "buf_step s [] t" by blast
  from cleanup_active_ok [OF t(2)] obtain u where
    u: "cleanup_loop (Some ActiveL) return_cb t = Some u"
    "data_inv u [] [] (F @ R @ A) H X (reset_bufs (R @ A) bs)" "buf_step t [] u" by auto
  have "ads131m08_data_cleanup s = Some (log_ev KWakeUp u)"
    using t(1,2) u(1) I
    by (simp add: ads131m08_data_cleanup_def list_cleanup_def data_inv_def return_cb_def [abs_def])
  moreover have "data_inv (log_ev KWakeUp u) [] [] (F @ R @ A) H X (reset_bufs (R @ A) bs)"
    using u(2) by (simp add: data_inv_def)
  moreover have "buf_step s [KWakeUp] (log_ev KWakeUp u)"
    using t(3) u(3) by (simp add: buf_step_def)
  ultimately show ?thesis by blast
qed

section \<open>Resizing\<close>

lemma for_each_upd_buf:
  assumes "chunk_buf_list s = Some bs"
  shows "for_each (\<lambda>i. upd_buf i f) [0..<length bs] s = Some (s\<lparr>chunk_buf_list := Some (map f bs)\<rparr>)"
proof -
  define P where "P = (\<lambda>(ys::nat list) t. t = s\<lparr>chunk_buf_list := Some (map f (take (length ys) bs) @ drop (length ys) bs)\<rparr>)"
  have "\<exists>t. for_each (\<lambda>i. upd_buf i f) [0..<length bs] s = Some t \<and> P [0..<length bs] t"
  proof (rule for_each_rule)
    show "P [] s" using assms by (simp add: P_def)
  next
    fix ys x zs t
    assume sp: "[0..<length bs] = ys @ x # zs" and p: "P ys t"
    then have "[0..<length bs] ! length ys = x" and l: "length ys < length bs"
      by (simp_all add: nth_append) (metis length_append length_upt diff_zero less_add_same_cancel1
          length_Cons zero_less_Suc)
    then have x: "x = length ys" by simp
    have "(map f (take x bs) @ drop x bs)[x := f (bs ! x)] = map f (take (Suc x) bs) @ drop (Suc x) bs"
      using l x by (simp add: list_update_append take_Suc_conv_app_nth Cons_nth_drop_Suc [symmetric])
    with p l x show "\<exists>u. upd_buf x f t = Some u \<and> P (ys @ [x]) u"
      by (simp add: P_def upd_buf_def nth_append)
  qed
  then show ?thesis by (simp add: P_def)
qed

definition clamp_chunk_sz :: "int \<Rightarrow> int" where
  "clamp_chunk_sz n = min n MAX_CHUNK_SZ"

lemma resize_eq:
  assumes c: "chunk_buf_list s = Some bs" "CHUNK_BUF_CNT = length bs" and n: "0 < n"
  shows "ads131m08_data_resize_chunk_buf n s =
    Some (s\<lparr>chunk_buf_list := Some (map (\<lambda>c. c\<lparr>c_chunk_sz := clamp_chunk_sz n, c_idx := 0\<rparr>) bs), chunk_sz := clamp_chunk_sz n\<rparr>)"
proof -
  have "(if n > MAX_CHUNK_SZ then MAX_CHUNK_SZ else n) = clamp_chunk_sz n" by (simp add: clamp_chunk_sz_def)
  with n for_each_upd_buf [OF c(1)] show ?thesis unfolding ads131m08_data_resize_chunk_buf_def Let_def c(2) by simp
qed

lemma resize_ok:
  assumes I: "data_inv s [] [] F H X bs" and n: "0 < n"
  shows "\<exists>t. ads131m08_data_resize_chunk_buf n s = Some t \<and> chunk_sz t = clamp_chunk_sz n \<and>
    ctl (t\<lparr>chunk_sz := chunk_sz s\<rparr>) = ctl s \<and> xmem t = xmem s \<and> dev t = dev s \<and> klog t = klog s \<and>
    data_inv t [] [] F H X (map (\<lambda>c. c\<lparr>c_chunk_sz := clamp_chunk_sz n, c_idx := 0\<rparr>) bs)"
proof -
  let ?bs = "map (\<lambda>c. c\<lparr>c_chunk_sz := clamp_chunk_sz n, c_idx := 0\<rparr>) bs"
  let ?t = "s\<lparr>chunk_buf_list := Some ?bs, chunk_sz := clamp_chunk_sz n\<rparr>"
  have c: "chunk_buf_list s = Some bs" and l: "CHUNK_BUF_CNT = length bs"
    and O: "owned [] [] F H" and B: "bufs_ok (chunk_sz s) bs [] [] F"
    using I by (simp_all add: data_inv_def bufs_ok_def)
  note op = resize_eq [OF c l n]
  have F: "b < length bs" if "b \<in> set F" for b using owned_lt(1) [OF O] that l by auto
  have "bufs_ok (clamp_chunk_sz n) ?bs [] [] F"
    using B n F by (auto simp: bufs_ok_def buf_ok_def free_ok_def clamp_chunk_sz_def MAX_CHUNK_SZ_def)
  with I op show ?thesis by (simp add: data_inv_def ctl_def)
qed

section \<open>Initialisation\<close>

lemma new_list_rep:
  assumes "heap_rep s L" "L l = None" "devm_kzalloc K (dev s) = (True, d)"
  shows "new_list K l s = (Some l, s\<lparr>dev := d, hdrs := (hdrs s)(l \<mapsto> zero_hdr)\<rparr>)"
    and "rep (elms s) ((hdrs s)(l \<mapsto> zero_hdr)) (L(l \<mapsto> []))"
  using list_new_rep [OF assms(1,2)] assms(3) by (simp_all add: new_list_def kcall_def list_new_def)

definition fresh_chunk_buf :: chunk_buf where
  "fresh_chunk_buf = zero_chunk_buf\<lparr>c_chunk_sz := DEFAULT_CHUNK_SZ\<rparr>"

lemma fresh_bufs_ok:
  "bufs_ok DEFAULT_CHUNK_SZ (replicate CHUNK_BUF_CNT fresh_chunk_buf) [] [] [0..<CHUNK_BUF_CNT]"
  by (auto simp: bufs_ok_def buf_ok_def free_ok_def fresh_chunk_buf_def zero_chunk_buf_def dev_consts
      smpl_ok_def zero_smpl_def)

lemma alloc_chunk_bufs_rep:
  assumes "heap_rep s (\<lambda>_. None)"
  shows "heap_rep (alloc_chunk_bufs True s) (\<lambda>_. None)"
  using assms by (auto simp: rep_def alloc_chunk_bufs_def zero_elm_def split: obj.splits if_splits)

definition init_return :: "nat \<Rightarrow> 'd drv \<Rightarrow> 'd drv option" where
  "init_return i s = do { s \<leftarrow> init_chunk_buf i DEFAULT_CHUNK_SZ s; ads131m08_data_return (Some (Chunk i)) s }"

lemma replicate_set_next:
  "(replicate k a @ replicate (Suc m) z)[k := a] = replicate (Suc k) a @ replicate m z"
  "(replicate k a @ replicate (Suc m) z) ! k = z"
  by (induction k) simp_all

text \<open>Initialising a zeroed chunk and handing it to the free list.\<close>

lemma init_return_eq:
  assumes B: "chunk_buf_list t = Some B" "x < length B" "B ! x = zero_chunk_buf"
  shows "init_return x t = list_append (free_list t) (Some (Chunk x)) (t\<lparr>chunk_buf_list := Some (B[x := fresh_chunk_buf])\<rparr>)"
proof -
  let ?B = "B[x := fresh_chunk_buf]" let ?t = "t\<lparr>chunk_buf_list := Some ?B\<rparr>"
  have "init_chunk_buf x DEFAULT_CHUNK_SZ t = Some ?t"
    using B by (simp add: init_chunk_buf_def upd_buf_def fresh_chunk_buf_def zero_chunk_buf_def BUF_STAT_FREE_def)
  moreover have "fresh_chunk_buf\<lparr>c_idx := 0, c_stat := BUF_STAT_FREE, c_xfer := None\<rparr> = fresh_chunk_buf"
    by (simp add: fresh_chunk_buf_def zero_chunk_buf_def BUF_STAT_FREE_def)
  then have "upd_buf x (\<lambda>c. c\<lparr>c_idx := 0, c_stat := BUF_STAT_FREE, c_xfer := None\<rparr>) ?t = Some ?t"
    using B(2) by (simp add: upd_buf_def)
  ultimately show ?thesis by (simp add: init_return_def ads131m08_data_return_def)
qed

lemma init_loop_ok:
  fixes s :: "'d drv"
  assumes R: "heap_rep s (drv_lists [] [] [] None)" and fl: "free_list s = Some FreeL"
    and c: "chunk_buf_list s = Some (replicate CHUNK_BUF_CNT zero_chunk_buf)"
    and ch: "Chunk ` {0..<CHUNK_BUF_CNT} \<subseteq> dom (elms s)"
  shows "\<exists>t. for_each init_return [0..<CHUNK_BUF_CNT] s = Some t \<and>
    heap_rep t (drv_lists [] [] [0..<CHUNK_BUF_CNT] None) \<and>
    chunk_buf_list t = Some (replicate CHUNK_BUF_CNT fresh_chunk_buf) \<and> buf_step s [] t"
proof -
  define P where "P = (\<lambda>ys t. heap_rep t (drv_lists [] [] ys None) \<and> buf_step s [] t \<and>
    chunk_buf_list t = Some (replicate (length ys) fresh_chunk_buf @
      replicate (CHUNK_BUF_CNT - length ys) zero_chunk_buf))"
  have "\<exists>t. for_each init_return [0..<CHUNK_BUF_CNT] s = Some t \<and> P [0..<CHUNK_BUF_CNT] t"
  proof (rule for_each_rule)
    show "P [] s" using R c by (simp add: P_def)
  next
    fix ys x zs t
    assume sp: "[0..<CHUNK_BUF_CNT] = ys @ x # zs" and p: "P ys t"
    have "length ys < length [0..<CHUNK_BUF_CNT]" unfolding sp by simp
    then have l: "length ys < CHUNK_BUF_CNT" by simp
    have "[0..<CHUNK_BUF_CNT] ! length ys = x" unfolding sp by simp
    with l have x: "x = length ys" by simp
    have xn: "x \<notin> set ys" using sp [THEN arg_cong, of distinct] by simp
    let ?bs = "replicate (length ys) fresh_chunk_buf @ replicate (CHUNK_BUF_CNT - length ys) zero_chunk_buf"
    let ?n = "replicate (Suc x) fresh_chunk_buf @ replicate (CHUNK_BUF_CNT - Suc x) zero_chunk_buf"
    have "CHUNK_BUF_CNT - x = Suc (CHUNK_BUF_CNT - Suc x)" using l x by simp
    then have upd: "?bs[x := fresh_chunk_buf] = ?n" and nth: "?bs ! x = zero_chunk_buf"
      using replicate_set_next [of x fresh_chunk_buf _ zero_chunk_buf] x by metis+
    let ?t = "t\<lparr>chunk_buf_list := Some ?n\<rparr>"
    have B: "chunk_buf_list t = Some ?bs" "x < length ?bs" using p l x by (simp_all add: P_def)
    have "free_list t = Some FreeL" using p fl ctl_fields(4) [of t s] by (simp add: P_def buf_step_def)
    then have step: "init_return x t = list_append (Some FreeL) (Some (Chunk x)) ?t"
      using init_return_eq [OF B nth] upd by simp
    have T: "heap_rep ?t (drv_lists [] [] ys None)" using p by (simp add: P_def)
    have "Chunk x \<in> dom (elms s)" by (rule subsetD [OF ch imageI]) (use l x in simp)
    then have "Chunk x \<in> dom (elms ?t)" using p by (simp add: P_def buf_step_def)
    moreover have "Chunk x \<notin> set xs" if "drv_lists [] [] ys None k = Some xs" for k xs
      using that xn by (cases k) auto
    ultimately have "loose (elms ?t) (Chunk x)" using loose_iff [OF T] by blast
    from list_append_ex [OF T _ this, of FreeL "map Chunk ys"] obtain E D where
      "list_append (Some FreeL) (Some (Chunk x)) ?t = Some (?t\<lparr>elms := E, hdrs := D\<rparr>)"
      "rep E D ((drv_lists [] [] ys None)(FreeL \<mapsto> map Chunk ys @ [Chunk x]))" "dom E = dom (elms t)"
      by auto
    with step p x drv_lists_upd(3) [of "[]" "[]" ys None "ys @ [x]"]
    show "\<exists>u. init_return x t = Some u \<and> P (ys @ [x]) u"
      by (simp add: P_def buf_step_def)
  qed
  then show ?thesis by (auto simp: P_def)
qed

text \<open>The allocations of \<open>data_init\<close>, in order: driver data, buffers, three list headers.\<close>

definition data_allocs :: "'d kenv \<Rightarrow> 'd \<Rightarrow> bool list \<times> 'd" where
  "data_allocs K d0 =
     (case devm_kzalloc K d0 of (b1, d1) \<Rightarrow> case devm_kzalloc K d1 of (b2, d2) \<Rightarrow>
      case devm_kzalloc K d2 of (b3, d3) \<Rightarrow> case devm_kzalloc K d3 of (b4, d4) \<Rightarrow>
      case devm_kzalloc K d4 of (b5, d5) \<Rightarrow> ([b1, b2, b3, b4, b5], d5))"

text \<open>The three lists, one header each.\<close>

lemma init_lists_ok:
  assumes R: "heap_rep s (\<lambda>_. None)"
    and ds: "devm_kzalloc K (dev s) = (True, d3)" "devm_kzalloc K d3 = (True, d4)" "devm_kzalloc K d4 = (True, d)"
  defines "s3 \<equiv> s\<lparr>dev := d3, hdrs := (hdrs s)(ReadyL \<mapsto> zero_hdr), ready_list := Some ReadyL\<rparr>"
  defines "s4 \<equiv> s3\<lparr>dev := d4, hdrs := (hdrs s3)(FreeL \<mapsto> zero_hdr), free_list := Some FreeL\<rparr>"
  defines "s5 \<equiv> s4\<lparr>dev := d, hdrs := (hdrs s4)(ActiveL \<mapsto> zero_hdr), active_list := Some ActiveL\<rparr>"
  shows "new_list K ReadyL s = (Some ReadyL, s\<lparr>dev := d3, hdrs := (hdrs s)(ReadyL \<mapsto> zero_hdr)\<rparr>)"
    and "new_list K FreeL s3 = (Some FreeL, s3\<lparr>dev := d4, hdrs := (hdrs s3)(FreeL \<mapsto> zero_hdr)\<rparr>)"
    and "new_list K ActiveL s4 = (Some ActiveL, s4\<lparr>dev := d, hdrs := (hdrs s4)(ActiveL \<mapsto> zero_hdr)\<rparr>)"
    and "heap_rep s5 (drv_lists [] [] [] None)"
proof -
  note n3 = new_list_rep [OF R, where l = ReadyL and K = K and d = d3]
  have R3: "heap_rep s3 ((\<lambda>_. None)(ReadyL \<mapsto> []))" using n3 ds(1) by (simp add: s3_def)
  note n4 = new_list_rep [OF R3, where l = FreeL and K = K and d = d4]
  have R4: "heap_rep s4 ((\<lambda>_. None)(ReadyL \<mapsto> [], FreeL \<mapsto> []))" using n4 ds(2) by (simp add: s4_def s3_def)
  note n5 = new_list_rep [OF R4, where l = ActiveL and K = K and d = d]
  have "heap_rep s5 ((\<lambda>_. None)(ReadyL \<mapsto> [], FreeL \<mapsto> [], ActiveL \<mapsto> []))"
    using n5 ds(3) by (simp add: s5_def s4_def)
  moreover have "(\<lambda>_. None)(ReadyL \<mapsto> [], FreeL \<mapsto> [], ActiveL \<mapsto> []) = drv_lists [] [] [] None"
    by (auto simp: fun_eq_iff drv_lists_def split: lid.splits)
  ultimately show "heap_rep s5 (drv_lists [] [] [] None)" by simp
  show "new_list K ReadyL s = (Some ReadyL, s\<lparr>dev := d3, hdrs := (hdrs s)(ReadyL \<mapsto> zero_hdr)\<rparr>)"
    using n3 ds(1) by simp
  show "new_list K FreeL s3 = (Some FreeL, s3\<lparr>dev := d4, hdrs := (hdrs s3)(FreeL \<mapsto> zero_hdr)\<rparr>)"
    using n4 ds(2) by (simp add: s3_def)
  show "new_list K ActiveL s4 = (Some ActiveL, s4\<lparr>dev := d, hdrs := (hdrs s4)(ActiveL \<mapsto> zero_hdr)\<rparr>)"
    using n5 ds(3) by (simp add: s4_def)
qed

lemma data_init_ok:
  fixes s :: "'d drv"
  assumes R: "heap_rep s (\<lambda>_. None)" and al: "data_allocs K (dev s) = (replicate 5 True, d)"
  shows "\<exists>t. ads131m08_data_init K s = Some (SUCCESS, t) \<and>
    data_inv t [] [] [0..<CHUNK_BUF_CNT] [] None (replicate CHUNK_BUF_CNT fresh_chunk_buf) \<and>
    chunk_sz t = DEFAULT_CHUNK_SZ \<and> run_stat t = ADC_STOP \<and> drop_cnt t = 0 \<and> dev t = d \<and> klog t = klog s \<and>
    irq_registered t = irq_registered s \<and> xmem t = xmem s \<and> next_xfer t = next_xfer s \<and>
    spi_hdlr t = spi_hdlr s \<and> xfer_list t = xfer_list s \<and> open_cnt t = open_cnt s \<and>
    gpio_irq_no t = 0 \<and> \<not> reset_gpiod t \<and> \<not> data_cl t \<and>
    (\<forall>x. Xfer x \<in> dom (elms t) \<longleftrightarrow> Xfer x \<in> dom (elms s))"
proof -
  obtain d1 d2 d3 d4 where
    ds: "devm_kzalloc K (dev s) = (True, d1)" "devm_kzalloc K d1 = (True, d2)" "devm_kzalloc K d2 = (True, d3)"
      "devm_kzalloc K d3 = (True, d4)" "devm_kzalloc K d4 = (True, d)"
    using al by (auto simp: data_allocs_def numeral_eq_Suc split: prod.splits)
  define s1 where "s1 = (alloc_driver_data True (s\<lparr>dev := d1\<rparr>))
    \<lparr>chunk_sz := DEFAULT_CHUNK_SZ, run_stat := 0, drop_cnt := 0, adc_lock := 0, smpl_ts := 0\<rparr>"
  define s2 where "s2 = alloc_chunk_bufs True (s1\<lparr>dev := d2\<rparr>)"
  have R2: "heap_rep s2 (\<lambda>_. None)"
    unfolding s2_def using R by (intro alloc_chunk_bufs_rep) (simp add: s1_def alloc_driver_data_def)
  have d2: "dev s2 = d2" by (simp add: s2_def alloc_chunk_bufs_def)
  define s3 where "s3 = s2\<lparr>dev := d3, hdrs := (hdrs s2)(ReadyL \<mapsto> zero_hdr), ready_list := Some ReadyL\<rparr>"
  define s4 where "s4 = s3\<lparr>dev := d4, hdrs := (hdrs s3)(FreeL \<mapsto> zero_hdr), free_list := Some FreeL\<rparr>"
  define s5 where "s5 = s4\<lparr>dev := d, hdrs := (hdrs s4)(ActiveL \<mapsto> zero_hdr), active_list := Some ActiveL\<rparr>"
  note n = init_lists_ok [OF R2 ds(3) [folded d2] ds(4,5), folded s3_def, folded s4_def, folded s5_def]
  note defs = s5_def s4_def s3_def s2_def s1_def alloc_chunk_bufs_def alloc_driver_data_def
  have "free_list s5 = Some FreeL" "chunk_buf_list s5 = Some (replicate CHUNK_BUF_CNT zero_chunk_buf)"
    "Chunk ` {0..<CHUNK_BUF_CNT} \<subseteq> dom (elms s5)"
    by (auto simp: defs)
  from init_loop_ok [OF n(4) this] obtain t where
    t: "for_each init_return [0..<CHUNK_BUF_CNT] s5 = Some t"
      "heap_rep t (drv_lists [] [] [0..<CHUNK_BUF_CNT] None)"
      "chunk_buf_list t = Some (replicate CHUNK_BUF_CNT fresh_chunk_buf)" "buf_step s5 [] t" by blast
  have c: "ctl t = ctl s5" "klog t = klog s5" "dev t = dev s5" "xmem t = xmem s5" "dom (elms t) = dom (elms s5)"
    using t(4) by (simp_all add: buf_step_def)
  have "ads131m08_data_init K s = Some (SUCCESS, t)"
    using ds t(1) n(1-3)
    by (simp add: ads131m08_data_init_def kcall_def Let_def s5_def s4_def s3_def s2_def s1_def
        init_return_def [abs_def] alloc_driver_data_def)
  moreover have "data_inv t [] [] [0..<CHUNK_BUF_CNT] [] None (replicate CHUNK_BUF_CNT fresh_chunk_buf)"
    using t c fresh_bufs_ok ctl_fields [OF c(1)]
    by (auto simp: data_inv_def owned_def defs)
  moreover have "Xfer x \<in> dom (elms t) \<longleftrightarrow> Xfer x \<in> dom (elms s)" for x
    unfolding c(5) by (simp add: defs dom_def)
  ultimately show ?thesis
    using c(1-4) ctl_fields [OF c(1)] by (simp add: defs ADC_STOP_def)
qed

end
