(* ===== verification/Sample_Io.thy ===== *)
theory Sample_Io
  imports Chunk_Buf
begin

text \<open>
  The sampling half of \<open>src/ads131m08_spi.c\<close>: reading one sample frame into the active
  chunk buffer (\<open>ads131m08_read_data\<close>, \<open>xfer_complete\<close>) or throwing it away.
\<close>

section \<open>Operations\<close>

definition DATA_CNT :: int where "DATA_CNT = ADC_CH_NUM + 2"
definition DATA_LEN :: int where "DATA_LEN = DATA_CNT * BYTE_PER_WORD"

lemma DATA_LEN_30 [simp]: "DATA_LEN = 30"
  by (simp add: DATA_LEN_def DATA_CNT_def BYTE_PER_WORD_def ADC_CH_NUM_def)

definition get_smpl :: "nat \<times> int \<Rightarrow> 'd drv \<Rightarrow> smpl option" where
  "get_smpl p s =
     (case p of (b, i) \<Rightarrow> do { c \<leftarrow> get_buf b s; (if 0 \<le> i then nth_opt (c_data c) (nat i) else None) })"

definition xfer_complete :: "nat \<Rightarrow> 'd drv \<Rightarrow> 'd drv option" where
  "xfer_complete active_buf s = do {
     c \<leftarrow> get_buf active_buf s;
     (case c_xfer c of
        None \<Rightarrow> Some s
      | Some xfer \<Rightarrow> do {
          x \<leftarrow> as_xfer xfer;
          m \<leftarrow> xmem s x;
          new_data \<leftarrow> ads131m08_smpl_data_get (Some active_buf) s;
          (case new_data of
             None \<Rightarrow> do {
               s \<leftarrow> return_xfer_buf (Some xfer) s;
               s \<leftarrow> upd_buf active_buf (\<lambda>c. c\<lparr>c_xfer := None\<rparr>) s;
               ads131m08_chunk_buf_active (Some active_buf) s }
           | Some p \<Rightarrow> do {
               (idx, tmp16) \<leftarrow> frame2word (x_rx m) 0 [0] 1;
               old \<leftarrow> get_smpl p s;
               (_, ls) \<leftarrow> frame2long (x_rx m) idx (s_data old) ADC_CH_NUM;
               s \<leftarrow> upd_smpl p (\<lambda>d. d\<lparr>s_data := ls\<rparr>) s;
               s \<leftarrow> return_xfer_buf (Some xfer) s;
               s \<leftarrow> upd_buf active_buf (\<lambda>c. c\<lparr>c_xfer := None\<rparr>) s;
               s \<leftarrow> upd_buf active_buf (\<lambda>c. c\<lparr>c_idx := int32 (c_idx c + 1)\<rparr>) s;
               c \<leftarrow> get_buf active_buf s;
               (if c_idx c \<ge> c_chunk_sz c
                then do {
                  s \<leftarrow> upd_buf active_buf (\<lambda>c. c\<lparr>c_stat := BUF_STAT_READY\<rparr>) s;
                  ads131m08_chunk_buf_ready (Some active_buf) s }
                else ads131m08_chunk_buf_active (Some active_buf) s) })
        }) }"

definition ads131m08_read_data :: "'d kenv \<Rightarrow> nat option \<Rightarrow> 'd drv \<Rightarrow> (int \<times> 'd drv) option" where
  "ads131m08_read_data K active_buf s =
     (case active_buf of
        None \<Rightarrow> Some (- EINVAL, s)
      | Some b \<Rightarrow>
          if \<not> spi_hdlr s then Some (- ENODEV, s)
          else do {
            (xfer, s) \<leftarrow> get_xfer_buf s;
            (case xfer of
               None \<Rightarrow> Some (- ENOMEM, s)
             | Some ob \<Rightarrow> do {
                 x \<leftarrow> as_xfer ob;
                 m \<leftarrow> xmem s x;
                 tx_buf \<leftarrow> memset0 (x_tx m) DATA_LEN;
                 rx_buf \<leftarrow> memset0 (x_rx m) DATA_LEN;
                 s \<leftarrow> upd_buf b (\<lambda>c. c\<lparr>c_xfer := Some ob\<rparr>) s;
                 let (ret, rxd, s) = spi_sync K (take (nat DATA_LEN) tx_buf) s;
                 s \<leftarrow> upd_xmem x (\<lambda>m. m\<lparr>x_tx := tx_buf, x_rx := rx_fill (nat DATA_LEN) rxd rx_buf\<rparr>) s;
                 (if ret < 0
                  then do {
                    s \<leftarrow> upd_buf b (\<lambda>c. c\<lparr>c_xfer := None\<rparr>) s;
                    s \<leftarrow> return_xfer_buf (Some ob) s;
                    Some (ret, s) }
                  else do { s \<leftarrow> xfer_complete b s; Some (SUCCESS, s) })
               })
          })"

definition ads131m08_read_data_discard :: "'d kenv \<Rightarrow> 'd drv \<Rightarrow> int \<times> 'd drv" where
  "ads131m08_read_data_discard K s =
     (if \<not> spi_hdlr s then (- ENODEV, s)
      else case spi_sync K (replicate (nat DATA_LEN) 0) s of (ret, _, s) \<Rightarrow> (ret, s))"

section \<open>The stages of one read\<close>

text \<open>Between these stages of \<open>ads131m08_read_data\<close> and \<open>xfer_complete\<close> other contexts can run:
  each begins with or is one access to something shared, the transfer pool, the bus or the lists.\<close>

definition rd_arm :: "nat \<Rightarrow> 'd drv \<Rightarrow> (nat option \<times> 'd drv) option" where
  "rd_arm b s = do {
     (xfer, s) \<leftarrow> get_xfer_buf s;
     (case xfer of
        None \<Rightarrow> Some (None, s)
      | Some ob \<Rightarrow> do {
          x \<leftarrow> as_xfer ob;
          s \<leftarrow> upd_buf b (\<lambda>c. c\<lparr>c_xfer := Some ob\<rparr>) s;
          Some (Some x, s) }) }"

definition rd_trx :: "'d kenv \<Rightarrow> nat \<Rightarrow> 'd drv \<Rightarrow> (int \<times> 'd drv) option" where
  "rd_trx K x s = do {
     m \<leftarrow> xmem s x;
     tx_buf \<leftarrow> memset0 (x_tx m) DATA_LEN;
     rx_buf \<leftarrow> memset0 (x_rx m) DATA_LEN;
     let (ret, rxd, s) = spi_sync K (take (nat DATA_LEN) tx_buf) s;
     s \<leftarrow> upd_xmem x (\<lambda>m. m\<lparr>x_tx := tx_buf, x_rx := rx_fill (nat DATA_LEN) rxd rx_buf\<rparr>) s;
     Some (ret, s) }"

definition rd_fail :: "nat \<Rightarrow> nat \<Rightarrow> 'd drv \<Rightarrow> 'd drv option" where
  "rd_fail b x s = do {
     s \<leftarrow> upd_buf b (\<lambda>c. c\<lparr>c_xfer := None\<rparr>) s;
     return_xfer_buf (Some (Xfer x)) s }"

definition rd_store :: "nat \<Rightarrow> 'd drv \<Rightarrow> (bool \<times> 'd drv) option" where
  "rd_store b s = do {
     c \<leftarrow> get_buf b s;
     (case c_xfer c of
        None \<Rightarrow> Some (False, s)
      | Some xfer \<Rightarrow> do {
          x \<leftarrow> as_xfer xfer;
          m \<leftarrow> xmem s x;
          (idx, tmp16) \<leftarrow> frame2word (x_rx m) 0 [0] 1;
          old \<leftarrow> get_smpl (b, c_idx c) s;
          (_, ls) \<leftarrow> frame2long (x_rx m) idx (s_data old) ADC_CH_NUM;
          s \<leftarrow> upd_smpl (b, c_idx c) (\<lambda>d. d\<lparr>s_data := ls\<rparr>) s;
          s \<leftarrow> return_xfer_buf (Some xfer) s;
          s \<leftarrow> upd_buf b (\<lambda>c. c\<lparr>c_xfer := None\<rparr>) s;
          Some (True, s) }) }"

text \<open>The section under the lock of the chunk: the sample is counted; is the chunk full?\<close>

definition rd_count :: "nat \<Rightarrow> 'd drv \<Rightarrow> (bool \<times> 'd drv) option" where
  "rd_count b s = do {
     s \<leftarrow> upd_buf b (\<lambda>c. c\<lparr>c_idx := int32 (c_idx c + 1)\<rparr>) s;
     c \<leftarrow> get_buf b s;
     (if c_idx c \<ge> c_chunk_sz c
      then do { s \<leftarrow> upd_buf b (\<lambda>c. c\<lparr>c_stat := BUF_STAT_READY\<rparr>) s; Some (True, s) }
      else Some (False, s)) }"

text \<open>With what follows it: a full chunk goes to the ready list, any other back to the active one.\<close>

definition rd_done :: "nat \<Rightarrow> 'd drv \<Rightarrow> 'd drv option" where
  "rd_done b s = do {
     (ready, s) \<leftarrow> rd_count b s;
     (if ready then ads131m08_chunk_buf_ready (Some b) s else ads131m08_chunk_buf_active (Some b) s) }"

lemma rd_done_eq:
  "rd_done b s = do {
     s \<leftarrow> upd_buf b (\<lambda>c. c\<lparr>c_idx := int32 (c_idx c + 1)\<rparr>) s;
     c \<leftarrow> get_buf b s;
     (if c_idx c \<ge> c_chunk_sz c
      then do { s \<leftarrow> upd_buf b (\<lambda>c. c\<lparr>c_stat := BUF_STAT_READY\<rparr>) s; ads131m08_chunk_buf_ready (Some b) s }
      else ads131m08_chunk_buf_active (Some b) s) }"
  by (simp add: rd_done_def rd_count_def Option.bind_assoc if_distrib [of "\<lambda>x. Option.bind x f" for f] cong: if_cong)

lemma xfer_complete_stages:
  "xfer_complete b s = do { (stored, s) \<leftarrow> rd_store b s; (if stored then rd_done b s else Some s) }"
proof (cases "get_buf b s")
  case (Some c)
  then have g: "ads131m08_smpl_data_get (Some b) s = Some (Some (b, c_idx c))"
    by (simp add: ads131m08_smpl_data_get_def)
  show ?thesis
  proof (cases "c_xfer c")
    case (Some xfer)
    from Some \<open>get_buf b s = Some c\<close> g show ?thesis
      by (cases "as_xfer xfer") (simp_all add: xfer_complete_def rd_store_def rd_done_eq Option.bind_assoc split_def)
  qed (use Some in \<open>simp add: xfer_complete_def rd_store_def\<close>)
qed (simp add: xfer_complete_def rd_store_def)

lemma read_data_stages:
  "ads131m08_read_data K (Some b) s =
     (if \<not> spi_hdlr s then Some (- ENODEV, s)
      else do {
        (x, s) \<leftarrow> rd_arm b s;
        (case x of
           None \<Rightarrow> Some (- ENOMEM, s)
         | Some x \<Rightarrow> do {
             (ret, s) \<leftarrow> rd_trx K x s;
             (if ret < 0 then do { s \<leftarrow> rd_fail b x s; Some (ret, s) }
              else do { s \<leftarrow> xfer_complete b s; Some (SUCCESS, s) }) }) })"
proof (cases "get_xfer_buf s")
  case g: (Some p)
  obtain q t where p: "p = (q, t)" by (cases p)
  show ?thesis
  proof (cases q)
    case (Some ob)
    show ?thesis
    proof (cases ob)
      case (Xfer x)
      have "xmem t' = xmem t" if "upd_buf b f t = Some t'" for f t'
        using that by (auto simp: upd_buf_def split: option.splits if_splits)
      with g p Some Xfer show ?thesis
        by (cases "upd_buf b (\<lambda>c. c\<lparr>c_xfer := Some (Xfer x)\<rparr>) t"; cases "xmem t x")
          (simp_all add: ads131m08_read_data_def rd_arm_def rd_trx_def rd_fail_def Let_def Option.bind_assoc split_def
            cong: if_cong)
    qed (use g p Some in \<open>simp add: ads131m08_read_data_def rd_arm_def\<close>)
  qed (use g p in \<open>simp add: ads131m08_read_data_def rd_arm_def\<close>)
qed (simp add: ads131m08_read_data_def rd_arm_def)

section \<open>The transfer pool beside the chunk buffers\<close>

lemma data_get_xfer:
  assumes I: "data_inv s R A F H (Some (x # X)) bs" and q: "xfer_list s = Some XferL"
  shows "\<exists>t. get_xfer_buf s = Some (Some (Xfer x), t) \<and> data_inv t R A F H (Some X) bs \<and>
    buf_step s [] t \<and> loose (elms t) (Xfer x)"
proof -
  have H: "heap_rep s (drv_lists R A F (Some (x # X)))" using I by (simp add: data_inv_def)
  from H obtain E D where
    f: "list_fetch (Some XferL) s = Some (Some (Xfer x), s\<lparr>elms := E, hdrs := D\<rparr>)"
    and r: "rep E D ((drv_lists R A F (Some (x # X)))(XferL \<mapsto> map Xfer X))"
    and d: "dom E = dom (elms s)" and e: "E (Xfer x) = Some zero_elm"
    by (rule list_fetch_rep [where l = XferL and x = "Xfer x" and xs = "map Xfer X"]) simp_all
  from e have "loose E (Xfer x)" by (simp add: loose_def zero_elm_def)
  with f r d I q show ?thesis by (simp add: get_xfer_buf_def data_inv_def buf_step_def)
qed

lemma data_get_xfer_empty:
  assumes "data_inv s R A F H (Some []) bs" "xfer_list s = Some XferL"
  shows "get_xfer_buf s = Some (None, s)"
  using assms list_fetch_empty [of s "drv_lists R A F (Some [])" XferL]
  by (simp add: get_xfer_buf_def data_inv_def)

lemma data_return_xfer:
  assumes I: "data_inv s R A F H (Some X) bs" and q: "xfer_list s = Some XferL"
    and x: "loose (elms s) (Xfer x)"
  shows "\<exists>t. return_xfer_buf (Some (Xfer x)) s = Some t \<and> data_inv t R A F H (Some (X @ [x])) bs \<and>
    buf_step s [] t"
proof -
  have H: "heap_rep s (drv_lists R A F (Some X))" using I by (simp add: data_inv_def)
  from list_append_ex [OF H _ x, of XferL "map Xfer X"] obtain E D where
    "list_append (Some XferL) (Some (Xfer x)) s = Some (s\<lparr>elms := E, hdrs := D\<rparr>)"
    "rep E D ((drv_lists R A F (Some X))(XferL \<mapsto> map Xfer X @ [Xfer x]))" "dom E = dom (elms s)"
    by auto
  with I q drv_lists_upd(4) [of R A F "Some X" "X @ [x]"] show ?thesis
    by (auto simp: return_xfer_buf_def data_inv_def buf_step_def)
qed

section \<open>What one read does to the active buffer\<close>

text \<open>The sample decoded from the frame goes to the current index, which advances.\<close>

definition with_sample :: "s32 list \<Rightarrow> chunk_buf \<Rightarrow> chunk_buf" where
  "with_sample ls c =
     c\<lparr>c_data := (c_data c)[nat (c_idx c) := (c_data c ! nat (c_idx c))\<lparr>s_data := ls\<rparr>],
       c_idx := c_idx c + 1, c_xfer := None,
       c_stat := (if c_idx c + 1 \<ge> c_chunk_sz c then BUF_STAT_READY else c_stat c)\<rparr>"

text \<open>In two stages: the sample is stored, then counted.\<close>

definition stored :: "s32 list \<Rightarrow> chunk_buf \<Rightarrow> chunk_buf" where
  "stored ls c =
     c\<lparr>c_data := (c_data c)[nat (c_idx c) := (c_data c ! nat (c_idx c))\<lparr>s_data := ls\<rparr>], c_xfer := None\<rparr>"

definition counted :: "chunk_buf \<Rightarrow> chunk_buf" where
  "counted c =
     c\<lparr>c_idx := c_idx c + 1, c_stat := (if c_idx c + 1 \<ge> c_chunk_sz c then BUF_STAT_READY else c_stat c)\<rparr>"

lemma stored_simps [simp]:
  "c_idx (stored ls c) = c_idx c" "c_stat (stored ls c) = c_stat c" "c_chunk_sz (stored ls c) = c_chunk_sz c"
  "c_xfer (stored ls c) = None"
  by (simp_all add: stored_def)

lemma counted_simps [simp]:
  "c_idx (counted c) = c_idx c + 1" "c_data (counted c) = c_data c" "c_chunk_sz (counted c) = c_chunk_sz c"
  "c_xfer (counted c) = c_xfer c"
  "c_stat (counted c) = (if c_idx c + 1 \<ge> c_chunk_sz c then BUF_STAT_READY else c_stat c)"
  by (simp_all add: counted_def)

lemma counted_stored: "counted (stored ls c) = with_sample ls c"
  by (simp add: counted_def stored_def with_sample_def)

lemma with_sample_simps [simp]:
  "c_data (with_sample ls c) = (c_data c)[nat (c_idx c) := (c_data c ! nat (c_idx c))\<lparr>s_data := ls\<rparr>]"
  "c_idx (with_sample ls c) = c_idx c + 1" "c_xfer (with_sample ls c) = None"
  "c_chunk_sz (with_sample ls c) = c_chunk_sz c"
  "c_stat (with_sample ls c) = (if c_idx c + 1 \<ge> c_chunk_sz c then BUF_STAT_READY else c_stat c)"
  by (simp_all add: with_sample_def)

text \<open>A buffer in the hands of the interrupt thread.\<close>

definition filling :: "int \<Rightarrow> chunk_buf \<Rightarrow> bool" where
  "filling sz c \<longleftrightarrow> buf_ok sz c \<and> c_stat c = BUF_STAT_ACTIVE \<and> c_idx c < sz"

lemma buf_ok_with_sample:
  assumes "filling sz c" "length ls = nat ADC_CH_NUM"
  shows "buf_ok sz (with_sample ls c)"
  using assms by (auto simp: filling_def buf_ok_def smpl_ok_def dest!: set_update_subset_insert [THEN subsetD])

text \<open>The decoding of a received frame: a status word, then eight 24-bit channels.\<close>

definition frame_smpl :: "(nat \<Rightarrow> byte) \<Rightarrow> s32 list" where
  "frame_smpl rxd = map (\<lambda>i. dec_long (rxd (3 + 3 * i)) (rxd (4 + 3 * i)) (rxd (5 + 3 * i))) [0..<nat ADC_CH_NUM]"

lemma length_frame_smpl [simp]: "length (frame_smpl rxd) = nat ADC_CH_NUM"
  by (simp add: frame_smpl_def)

lemma frame_smpl_fill:
  "30 \<le> length buf \<Longrightarrow> longs_at (rx_fill 30 rxd buf) 3 8 = frame_smpl rxd"
  by (auto simp: longs_at_def frame_smpl_def rx_fill_def nth_append ADC_CH_NUM_def add.commute)

text \<open>Storing the decoded sample.\<close>

lemma store_smpl_ok:
  assumes I: "data_inv s R A F H X bs" and h: "b \<in> set H" and c: "filling (chunk_sz s) (bs ! b)"
    and rx: "27 \<le> length rx"
  defines "c1 \<equiv> (bs ! b)\<lparr>c_data := (c_data (bs ! b))[nat (c_idx (bs ! b)) :=
      (c_data (bs ! b) ! nat (c_idx (bs ! b)))\<lparr>s_data := longs_at rx 3 8\<rparr>]\<rparr>"
  shows "\<exists>old. get_smpl (b, c_idx (bs ! b)) s = Some old \<and>
      frame2long rx 3 (s_data old) ADC_CH_NUM = Some (24, longs_at rx 3 8)"
    and "upd_smpl (b, c_idx (bs ! b)) (\<lambda>d. d\<lparr>s_data := longs_at rx 3 8\<rparr>) s
      = Some (s\<lparr>chunk_buf_list := Some (bs[b := c1])\<rparr>)"
    and "data_inv (s\<lparr>chunk_buf_list := Some (bs[b := c1])\<rparr>) R A F H X (bs[b := c1])"
proof -
  let ?c = "bs ! b" let ?i = "nat (c_idx ?c)" let ?ls = "longs_at rx 3 8"
  have g: "get_buf b s = Some ?c" and ok: "buf_ok (chunk_sz s) ?c" using data_get_buf [OF I, of b] h by simp_all
  have "chunk_sz s \<le> 320" using I by (simp add: data_inv_def bufs_ok_def MAX_CHUNK_SZ_def)
  with ok c have len: "length (c_data ?c) = 320" and i0: "0 \<le> c_idx ?c" and "c_idx ?c < 320"
    by (simp_all add: filling_def buf_ok_def MAX_CHUNK_SZ_def)
  then have il: "?i < length (c_data ?c)" by simp
  with ok have old8: "length (s_data (c_data ?c ! ?i)) = 8"
    by (auto simp: buf_ok_def smpl_ok_def ADC_CH_NUM_def)
  with g il i0 rx show "\<exists>old. get_smpl (b, c_idx ?c) s = Some old \<and>
      frame2long rx 3 (s_data old) ADC_CH_NUM = Some (24, ?ls)"
    by (simp add: get_smpl_def nth_opt_def frame2long_spec ADC_CH_NUM_def)
  let ?f = "\<lambda>c. c\<lparr>c_data := (c_data c)[?i := (c_data c ! ?i)\<lparr>s_data := ?ls\<rparr>]\<rparr>"
  have c1: "c1 = ?f ?c" by (simp add: c1_def)
  have "buf_ok (chunk_sz s) (?f ?c)"
    using ok by (auto simp: buf_ok_def smpl_ok_def ADC_CH_NUM_def dest!: set_update_subset_insert [THEN subsetD])
  with I h have U: "upd_buf b ?f s = Some (s\<lparr>chunk_buf_list := Some (bs[b := c1])\<rparr>)"
    "data_inv (s\<lparr>chunk_buf_list := Some (bs[b := c1])\<rparr>) R A F H X (bs[b := c1])"
    unfolding c1 by (rule data_upd_buf_eq)+
  from U(2) show "data_inv (s\<lparr>chunk_buf_list := Some (bs[b := c1])\<rparr>) R A F H X (bs[b := c1])" .
  from U(1) g il i0 show "upd_smpl (b, c_idx ?c) (\<lambda>d. d\<lparr>s_data := ?ls\<rparr>) s
      = Some (s\<lparr>chunk_buf_list := Some (bs[b := c1])\<rparr>)"
    by (simp add: upd_smpl_def)
qed

lemma rd_store_ok:
  assumes I: "data_inv s R A F H (Some X) bs" and h: "b \<in> set H" and q: "xfer_list s = Some XferL"
    and lo: "loose (elms s) (Xfer x)" and m: "xmem s x = Some m" "27 \<le> length (x_rx m)"
    and c: "filling (chunk_sz s) (bs ! b)" "c_xfer (bs ! b) = Some (Xfer x)"
  shows "\<exists>t. rd_store b s = Some (True, t) \<and> buf_step s [] t \<and>
    data_inv t R A F H (Some (X @ [x])) (bs[b := stored (longs_at (x_rx m) 3 8) (bs ! b)])"
proof -
  let ?ls = "longs_at (x_rx m) 3 8"
  have g: "get_buf b s = Some (bs ! b)" and bl: "b < length bs" using data_get_buf [OF I, of b] h by simp_all
  define c1 where "c1 = (bs ! b)\<lparr>c_data := (c_data (bs ! b))[nat (c_idx (bs ! b)) :=
      (c_data (bs ! b) ! nat (c_idx (bs ! b)))\<lparr>s_data := ?ls\<rparr>]\<rparr>"
  define s1 where "s1 = s\<lparr>chunk_buf_list := Some (bs[b := c1])\<rparr>"
  note S = store_smpl_ok [OF I h c(1) m(2), folded c1_def s1_def, simplified]
  have q1: "xfer_list s1 = Some XferL" "loose (elms s1) (Xfer x)" using q lo by (simp_all add: s1_def)
  from data_return_xfer [OF S(3) q1] obtain s2 where
    s2: "return_xfer_buf (Some (Xfer x)) s1 = Some s2"
    and I2: "data_inv s2 R A F H (Some (X @ [x])) (bs[b := c1])" and b2: "buf_step s1 [] s2" by auto
  have "chunk_sz s2 = chunk_sz s" using ctl_fields(6) [of s2 s1] b2 by (simp add: buf_step_def s1_def)
  moreover have "buf_ok (chunk_sz s) c1" using data_get_buf(3) [OF S(3), of b] h bl by (simp add: s1_def)
  ultimately have "buf_ok (chunk_sz s2) ((bs[b := c1] ! b)\<lparr>c_xfer := None\<rparr>)" using bl by (simp add: buf_ok_def)
  from data_upd_buf [OF I2 h, of "\<lambda>c. c\<lparr>c_xfer := None\<rparr>", OF this] obtain t where
    t: "upd_buf b (\<lambda>c. c\<lparr>c_xfer := None\<rparr>) s2 = Some t" "buf_step s2 [] t"
      "data_inv t R A F H (Some (X @ [x])) (bs[b := stored ?ls (bs ! b)])"
    using bl by (auto simp: c1_def stored_def)
  have "frame2word (x_rx m) 0 [0] 1 = Some (3, words_at (x_rx m) 0 1)" using m by (simp add: frame2word_spec)
  with g c(2) m S(1,2) s2 t(1) have "rd_store b s = Some (True, t)" by (auto simp: rd_store_def)
  moreover have "buf_step s [] t" using b2 t(2) by (simp add: buf_step_def s1_def)
  ultimately show ?thesis using t(3) by blast
qed

lemma rd_count_ok:
  assumes I: "data_inv s R A F H X bs" and b: "b \<in> set H"
    and c: "filling (chunk_sz s) (bs ! b)" "c_xfer (bs ! b) = None"
  defines "full \<equiv> c_idx (bs ! b) + 1 \<ge> chunk_sz s"
  shows "\<exists>t. rd_count b s = Some (full, t) \<and> buf_step s [] t \<and> data_inv t R A F H X (bs[b := counted (bs ! b)]) \<and>
    (if full then ready_ok (chunk_sz s) (counted (bs ! b)) else active_ok (chunk_sz s) (counted (bs ! b)))"
proof -
  have bl: "b < length bs" and ok: "buf_ok (chunk_sz s) (bs ! b)" using data_get_buf [OF I, of b] b by simp_all
  have lt: "c_idx (bs ! b) < chunk_sz s" using c(1) by (simp add: filling_def)
  have "chunk_sz s \<le> 320" using I by (simp add: data_inv_def bufs_ok_def MAX_CHUNK_SZ_def)
  with ok lt have i32: "int32 (c_idx (bs ! b) + 1) = c_idx (bs ! b) + 1" and csz: "c_chunk_sz (bs ! b) = chunk_sz s"
    by (auto simp: buf_ok_def int32_id)
  let ?c = "(bs ! b)\<lparr>c_idx := c_idx (bs ! b) + 1\<rparr>"
  let ?s = "s\<lparr>chunk_buf_list := Some (bs[b := ?c])\<rparr>"
  have okc: "buf_ok (chunk_sz s) ?c" using ok lt by (simp add: buf_ok_def)
  with data_upd_buf_eq [OF I b, of "\<lambda>c. c\<lparr>c_idx := int32 (c_idx c + 1)\<rparr>"]
  have u: "upd_buf b (\<lambda>c. c\<lparr>c_idx := int32 (c_idx c + 1)\<rparr>) s = Some ?s"
    and I1: "data_inv ?s R A F H X (bs[b := ?c])" by (simp_all add: i32)
  have g: "get_buf b ?s = Some ?c" using data_get_buf(1) [OF I1, of b] b bl by simp
  show ?thesis
  proof (cases full)
    case False
    then have w: "counted (bs ! b) = ?c" using csz by (simp add: counted_def full_def)
    have "rd_count b s = Some (full, ?s)" using u g csz False by (simp add: rd_count_def full_def)
    moreover have "active_ok (chunk_sz s) ?c" using okc c False by (simp add: active_ok_def filling_def full_def)
    ultimately show ?thesis using I1 False by (simp add: w buf_step_def)
  next
    case True
    then have w: "counted (bs ! b) = ?c\<lparr>c_stat := BUF_STAT_READY\<rparr>" using csz by (simp add: counted_def full_def)
    let ?t = "?s\<lparr>chunk_buf_list := Some (bs[b := counted (bs ! b)])\<rparr>"
    have "buf_ok (chunk_sz ?s) (?c\<lparr>c_stat := BUF_STAT_READY\<rparr>)" using okc by (simp add: buf_ok_def)
    with data_upd_buf_eq [OF I1 b, of "\<lambda>c. c\<lparr>c_stat := BUF_STAT_READY\<rparr>"] bl
    have v: "upd_buf b (\<lambda>c. c\<lparr>c_stat := BUF_STAT_READY\<rparr>) ?s = Some ?t"
      and I2: "data_inv ?t R A F H X (bs[b := counted (bs ! b)])" by (simp_all add: w)
    have "rd_count b s = Some (full, ?t)" using u g csz v True by (simp add: rd_count_def full_def)
    moreover have "ready_ok (chunk_sz s) (counted (bs ! b))"
      using okc c(2) lt True by (simp add: w ready_ok_def buf_ok_def full_def)
    ultimately show ?thesis using I2 True by (simp add: buf_step_def)
  qed
qed

lemma rd_done_ok:
  assumes I: "data_inv s R [] F (b # H) X bs" and c: "filling (chunk_sz s) (bs ! b)" "c_xfer (bs ! b) = None"
  defines "full \<equiv> c_idx (bs ! b) + 1 \<ge> chunk_sz s"
  shows "\<exists>t. rd_done b s = Some t \<and> buf_step s (if full then [KWakeUp] else []) t \<and>
    data_inv t (if full then R @ [b] else R) (if full then [] else [b]) F H X (bs[b := counted (bs ! b)])"
proof -
  from rd_count_ok [OF I _ c] obtain u where u: "rd_count b s = Some (full, u)" "buf_step s [] u"
    "data_inv u R [] F (b # H) X (bs[b := counted (bs ! b)])"
    "if full then ready_ok (chunk_sz s) (counted (bs ! b)) else active_ok (chunk_sz s) (counted (bs ! b))"
    by (auto simp: full_def)
  have bl: "b < length bs" using data_get_buf(2) [OF I, of b] by simp
  have z: "chunk_sz u = chunk_sz s" using ctl_fields(6) [of u s] u(2) by (simp add: buf_step_def)
  show ?thesis
  proof (cases full)
    case True
    then have "ready_ok (chunk_sz u) (bs[b := counted (bs ! b)] ! b)" using u(4) bl z by simp
    from chunk_buf_ready_ok [OF u(3) this] True u(1) buf_step_trans [OF u(2)] show ?thesis
      by (fastforce simp: rd_done_def)
  next
    case False
    then have "active_ok (chunk_sz u) (bs[b := counted (bs ! b)] ! b)" using u(4) bl z by simp
    from chunk_buf_active_ok [OF u(3) this] False u(1) buf_step_trans [OF u(2)] show ?thesis
      by (fastforce simp: rd_done_def)
  qed
qed

lemma xfer_complete_ok:
  assumes I: "data_inv s R [] F (b # H) (Some X) bs" and q: "xfer_list s = Some XferL"
    and lo: "loose (elms s) (Xfer x)" and m: "xmem s x = Some m" "27 \<le> length (x_rx m)"
    and c: "filling (chunk_sz s) (bs ! b)" "c_xfer (bs ! b) = Some (Xfer x)"
  defines "full \<equiv> c_idx (bs ! b) + 1 \<ge> chunk_sz s"
  shows "\<exists>t. xfer_complete b s = Some t \<and> buf_step s (if full then [KWakeUp] else []) t \<and>
    data_inv t (if full then R @ [b] else R) (if full then [] else [b]) F H (Some (X @ [x]))
      (bs[b := with_sample (longs_at (x_rx m) 3 8) (bs ! b)])"
proof -
  let ?bs = "bs[b := stored (longs_at (x_rx m) 3 8) (bs ! b)]"
  have bl: "b < length bs" using data_get_buf [OF I, of b] by simp
  from rd_store_ok [OF I _ q lo m c] obtain s1 where
    s1: "rd_store b s = Some (True, s1)" "buf_step s [] s1" and I1: "data_inv s1 R [] F (b # H) (Some (X @ [x])) ?bs"
    by auto
  have z: "chunk_sz s1 = chunk_sz s" using ctl_fields(6) [of s1 s] s1(2) by (simp add: buf_step_def)
  have "buf_ok (chunk_sz s1) (?bs ! b)" using data_get_buf(3) [OF I1, of b] by simp
  then have c1: "filling (chunk_sz s1) (?bs ! b)" "c_xfer (?bs ! b) = None"
    using bl c(1) z by (simp_all add: filling_def)
  have b1: "?bs ! b = stored (longs_at (x_rx m) 3 8) (bs ! b)" "(c_idx (?bs ! b) + 1 \<ge> chunk_sz s1) = full"
    using bl z by (simp_all add: full_def)
  from rd_done_ok [OF I1 c1, unfolded b1(2)] obtain t where
    "rd_done b s1 = Some t" "buf_step s1 (if full then [KWakeUp] else []) t"
    "data_inv t (if full then R @ [b] else R) (if full then [] else [b]) F H (Some (X @ [x]))
      (bs[b := with_sample (longs_at (x_rx m) 3 8) (bs ! b)])"
    unfolding b1(1) counted_stored by auto
  with s1(1) buf_step_trans [OF s1(2)] show ?thesis by (fastforce simp: xfer_complete_stages)
qed

section \<open>Reading a sample\<close>

text \<open>The driver's resources: the chunk buffers and the transfer pool.\<close>

definition drv_inv ::
  "'d drv \<Rightarrow> nat list \<Rightarrow> nat list \<Rightarrow> nat list \<Rightarrow> nat list \<Rightarrow> nat list \<Rightarrow> chunk_buf list \<Rightarrow> bool" where
  "drv_inv s R A F H X bs \<longleftrightarrow> data_inv s R A F H (Some X) bs \<and> xfer_list s = Some XferL \<and>
     mem_ok (xmem s) (set X) \<and> X \<noteq> []"

lemma drv_inv_pool: "drv_inv s R A F H X bs \<Longrightarrow> xfer_pool s (drv_lists R A F (Some X)) X"
  by (simp add: drv_inv_def xfer_pool_def data_inv_def)

text \<open>A step on both: the pool is rotated, the control variables stay.\<close>

definition drv_step :: "'d drv \<Rightarrow> nat list \<Rightarrow> kev list \<Rightarrow> 'd drv \<Rightarrow> nat list \<Rightarrow> bool" where
  "drv_step s X evs t X' \<longleftrightarrow> ctl t = ctl s \<and> klog t = klog s @ evs \<and> mset X' = mset X \<and>
     dom (elms t) = dom (elms s) \<and> dom (xmem t) = dom (xmem s) \<and> (\<forall>x. x \<notin> set X \<longrightarrow> xmem t x = xmem s x)"

lemma drv_step_trans: "drv_step s X evs t X' \<Longrightarrow> drv_step t X' evs' u X'' \<Longrightarrow> drv_step s X (evs @ evs') u X''"
  using mset_eq_setD [of X' X] by (auto simp: drv_step_def)

lemma pool_step_drv:
  assumes I: "drv_inv s R A F H X bs" and ps: "pool_step s (drv_lists R A F (Some X)) X evs t X'"
  shows "drv_inv t R A F H X' bs \<and> drv_step s X evs t X'"
proof -
  have i: "io_only s t" and p: "xfer_pool t (drv_lists R A F (Some X')) X'" and m: "mset X' = mset X"
    using ps by (simp_all add: pool_step_def)
  have "X' \<noteq> []" using m I by (auto simp: drv_inv_def)
  with io_only_ctl [OF i] p m I ps ctl_fields [of t s] show ?thesis
    by (simp add: drv_inv_def drv_step_def data_inv_def xfer_pool_def pool_step_def)
qed

lemma data_inv_frame:
  assumes "data_inv s R A F H X bs" "elms t = elms s" "hdrs t = hdrs s" "ctl t = ctl s"
    "chunk_buf_list t = chunk_buf_list s"
  shows "data_inv t R A F H X bs"
  using assms ctl_fields [OF assms(4)] by (simp add: data_inv_def)

lemma mem_ok_set: "mset X' = mset X \<Longrightarrow> mem_ok M (set X') = mem_ok M (set X)"
  by (metis mset_eq_setD)

text \<open>A transfer buffer goes to the chunk and comes back.\<close>

lemma rd_arm_ok:
  assumes I: "data_inv s R A F H (Some (x # X)) bs" and h: "b \<in> set H" and q: "xfer_list s = Some XferL"
  shows "\<exists>t. rd_arm b s = Some (Some x, t) \<and> buf_step s [] t \<and> loose (elms t) (Xfer x) \<and>
    data_inv t R A F H (Some X) (bs[b := (bs ! b)\<lparr>c_xfer := Some (Xfer x)\<rparr>])"
proof -
  from data_get_xfer [OF I q] obtain s1 where
    g: "get_xfer_buf s = Some (Some (Xfer x), s1)" and I1: "data_inv s1 R A F H (Some X) bs"
    and b1: "buf_step s [] s1" and lo: "loose (elms s1) (Xfer x)" by blast
  have "buf_ok (chunk_sz s1) ((bs ! b)\<lparr>c_xfer := Some (Xfer x)\<rparr>)"
    using data_get_buf(3) [OF I1, of b] h by (simp add: buf_ok_def)
  from data_upd_buf_eq [OF I1 h, of "\<lambda>c. c\<lparr>c_xfer := Some (Xfer x)\<rparr>", OF this] g b1 lo
  show ?thesis by (simp add: rd_arm_def buf_step_def)
qed

lemma rd_fail_ok:
  assumes I: "data_inv s R A F H (Some X) bs" and h: "b \<in> set H" and q: "xfer_list s = Some XferL"
    and lo: "loose (elms s) (Xfer x)"
  shows "\<exists>t. rd_fail b x s = Some t \<and> buf_step s [] t \<and>
    data_inv t R A F H (Some (X @ [x])) (bs[b := (bs ! b)\<lparr>c_xfer := None\<rparr>])"
proof -
  let ?s = "s\<lparr>chunk_buf_list := Some (bs[b := (bs ! b)\<lparr>c_xfer := None\<rparr>])\<rparr>"
  have "buf_ok (chunk_sz s) ((bs ! b)\<lparr>c_xfer := None\<rparr>)"
    using data_get_buf(3) [OF I, of b] h by (simp add: buf_ok_def)
  note U = data_upd_buf_eq [OF I h, of "\<lambda>c. c\<lparr>c_xfer := None\<rparr>", OF this]
  from data_return_xfer [OF U(2), of x] q lo U(1) show ?thesis
    by (auto simp: rd_fail_def buf_step_def)
qed

text \<open>The transfer itself: the buffer afterwards holds what the device sent.\<close>

definition trx_mem :: "(nat \<Rightarrow> byte) \<Rightarrow> xfer \<Rightarrow> xfer" where
  "trx_mem rxd m = m\<lparr>x_tx := replicate 30 0 @ drop 30 (x_tx m),
     x_rx := rx_fill 30 rxd (replicate 30 0 @ drop 30 (x_rx m))\<rparr>"

lemma trx_mem_ok:
  assumes "xfer_ok m"
  shows "xfer_ok (trx_mem rxd m)" "27 \<le> length (x_rx (trx_mem rxd m))"
    "longs_at (x_rx (trx_mem rxd m)) 3 8 = frame_smpl rxd"
proof -
  have l: "length (x_tx m) = 2048" "length (x_rx m) = 2048" using assms by (simp_all add: xfer_ok_def MAX_BUF_SZ_def)
  then show "xfer_ok (trx_mem rxd m)" "27 \<le> length (x_rx (trx_mem rxd m))"
    by (simp_all add: trx_mem_def xfer_ok_def MAX_BUF_SZ_def rx_fill_def)
  show "longs_at (x_rx (trx_mem rxd m)) 3 8 = frame_smpl rxd" using l by (simp add: trx_mem_def frame_smpl_fill)
qed

lemma rd_trx_ok:
  assumes m: "xmem s x = Some m" "xfer_ok m"
    and io: "spi_sync_transfer K (dev s) (replicate 30 0) = (ret, rxd, d)"
  shows "rd_trx K x s = Some (ret, s\<lparr>dev := d, klog := klog s @ [KSpi (replicate 30 0)],
    xmem := (xmem s)(x \<mapsto> trx_mem rxd m)\<rparr>)"
  using m io by (simp add: rd_trx_def memset0_def xfer_ok_def MAX_BUF_SZ_def spi_sync_def upd_xmem_def trx_mem_def)

lemma read_data_ok:
  assumes I: "drv_inv s R [] F (b # H) X bs" and up: "spi_hdlr s"
    and c: "filling (chunk_sz s) (bs ! b)" "c_xfer (bs ! b) = None"
    and io: "spi_sync_transfer K (dev s) (replicate 30 0) = (ret, rxd, d)"
  defines "full \<equiv> c_idx (bs ! b) + 1 \<ge> chunk_sz s"
  shows "\<exists>t X'. dev t = d \<and>
    (if ret < 0 then ads131m08_read_data K (Some b) s = Some (ret, t) \<and>
       drv_inv t R [] F (b # H) X' bs \<and> drv_step s X [KSpi (replicate 30 0)] t X'
     else ads131m08_read_data K (Some b) s = Some (SUCCESS, t) \<and>
       drv_step s X (KSpi (replicate 30 0) # (if full then [KWakeUp] else [])) t X' \<and>
       drv_inv t (if full then R @ [b] else R) (if full then [] else [b]) F H X'
         (bs[b := with_sample (frame_smpl rxd) (bs ! b)]))"
proof -
  have D: "data_inv s R [] F (b # H) (Some X) bs" and q: "xfer_list s = Some XferL"
    and mo: "mem_ok (xmem s) (set X)" and "X \<noteq> []" using I by (simp_all add: drv_inv_def)
  then obtain x Y where X: "X = x # Y" by (cases X) auto
  let ?cx = "(bs ! b)\<lparr>c_xfer := Some (Xfer x)\<rparr>"
  from rd_arm_ok [OF D [unfolded X] _ q, of b] obtain s1 where
    g: "rd_arm b s = Some (Some x, s1)" and b1: "buf_step s [] s1" and lo: "loose (elms s1) (Xfer x)"
    and D1: "data_inv s1 R [] F (b # H) (Some Y) (bs[b := ?cx])" by auto
  have f1: "xfer_list s1 = Some XferL" "xmem s1 = xmem s" "dev s1 = dev s" "chunk_sz s1 = chunk_sz s"
    using b1 ctl_fields [of s1 s] q by (simp_all add: buf_step_def)
  obtain m where m: "xmem s1 x = Some m" "xfer_ok m" using mo X f1 by (auto simp: mem_ok_def)
  define s2 where "s2 = s1\<lparr>dev := d, klog := klog s1 @ [KSpi (replicate 30 0)], xmem := (xmem s1)(x \<mapsto> trx_mem rxd m)\<rparr>"
  have tr: "rd_trx K x s1 = Some (ret, s2)" unfolding s2_def by (rule rd_trx_ok [OF m]) (use io f1 in simp)
  have D2: "data_inv s2 R [] F (b # H) (Some Y) (bs[b := ?cx])"
    by (rule data_inv_frame [OF D1]) (simp_all add: s2_def)
  have f2: "xfer_list s2 = Some XferL" "chunk_sz s2 = chunk_sz s" "loose (elms s2) (Xfer x)"
    "xmem s2 x = Some (trx_mem rxd m)" using f1 lo by (simp_all add: s2_def)
  have bl: "b < length bs" using data_get_buf(2) [OF D, of b] by simp
  have fin: "drv_inv t R' A' F H' (Y @ [x]) bs'" "drv_step s X (KSpi (replicate 30 0) # evs) t (Y @ [x])" "dev t = d"
    if "data_inv t R' A' F H' (Some (Y @ [x])) bs'" "buf_step s2 evs t" for t R' A' H' bs' evs
    using that mo X f1 f2 b1 m trx_mem_ok(1) [OF m(2), of rxd] ctl_fields(5) [of t s2]
    by (auto simp: drv_inv_def buf_step_def drv_step_def s2_def mem_ok_def)
  note run = read_data_stages [of K b s] g tr up
  show ?thesis
  proof (cases "ret < 0")
    case True
    have "bs[b := ?cx, b := (bs[b := ?cx] ! b)\<lparr>c_xfer := None\<rparr>] = bs" using bl c(2) by (simp add: list_update_same_conv)
    with rd_fail_ok [OF D2 _ f2(1,3), of b] obtain t where t: "rd_fail b x s2 = Some t" "buf_step s2 [] t"
      "data_inv t R [] F (b # H) (Some (Y @ [x])) bs" by auto
    with run True fin [OF t(3,2)] show ?thesis by auto
  next
    case False
    have c2: "filling (chunk_sz s2) (bs[b := ?cx] ! b)" "c_xfer (bs[b := ?cx] ! b) = Some (Xfer x)"
      using bl c(1) f2 by (simp_all add: filling_def buf_ok_def)
    have f3: "(c_idx (bs[b := ?cx] ! b) + 1 \<ge> chunk_sz s2) = full"
      "bs[b := ?cx, b := with_sample ls (bs[b := ?cx] ! b)] = bs[b := with_sample ls (bs ! b)]" for ls
      using bl f2 by (simp_all add: full_def with_sample_def)
    from xfer_complete_ok [OF D2 f2(1,3,4) trx_mem_ok(2) [OF m(2)] c2, unfolded f3 trx_mem_ok(3) [OF m(2)]]
    obtain t where t: "xfer_complete b s2 = Some t" "buf_step s2 (if full then [KWakeUp] else []) t"
      "data_inv t (if full then R @ [b] else R) (if full then [] else [b]) F H (Some (Y @ [x]))
        (bs[b := with_sample (frame_smpl rxd) (bs ! b)])" by blast
    with run False fin [OF t(3,2)] show ?thesis by auto
  qed
qed

end
