(* ===== verification/Gpio.thy ===== *)
theory Gpio
  imports Driver_State
begin

text \<open>
  \<open>src/ads131m08_gpio.c\<close>: the RESET line and the data-ready interrupt. A GPIO descriptor or
  a class pointer obtained from the kernel is read as zero/positive for a valid pointer and
  as a negative error otherwise.
\<close>

section \<open>Operations\<close>

definition ads131m08_adc_rst :: "'d drv \<Rightarrow> 'd drv" where
  "ads131m08_adc_rst s =
     (if \<not> ads131m08_data s \<or> \<not> reset_gpiod s then s
      else log_ev (KGpio False) (log_ev (KMsleep 1) (log_ev (KGpio True) s)))"

definition ads131m08_adc_sync :: "'d drv \<Rightarrow> 'd drv" where
  "ads131m08_adc_sync s =
     (if \<not> ads131m08_data s \<or> \<not> reset_gpiod s then s
      else log_ev (KGpio False) (log_ev (KUdelay 1) (log_ev (KGpio True) s)))"

definition ads131m08_gpio_set_irq :: "'d kenv \<Rightarrow> 'd drv \<Rightarrow> int \<times> 'd drv" where
  "ads131m08_gpio_set_irq K s =
     (if \<not> ads131m08_data s then (- EINVAL, s)
      else if irq_registered s then (0, s)
      else if gpio_irq_no s \<le> 0 then (- EINVAL, s)
      else
        case kcall (\<lambda>d. request_threaded_irq K d (gpio_irq_no s)) s of (ret, s) \<Rightarrow>
          if ret \<noteq> 0 then (ret, s)
          else (0, log_ev (KRequestIrq (gpio_irq_no s)) (s\<lparr>irq_registered := True\<rparr>)))"

definition ads131m08_gpio_clr_irq :: "'d drv \<Rightarrow> 'd drv" where
  "ads131m08_gpio_clr_irq s =
     (if irq_registered s \<and> ads131m08_data s
      then log_ev (KFreeIrq (gpio_irq_no s)) (s\<lparr>irq_registered := False\<rparr>) else s)"

text \<open>\<open>data->spi\<close> is set by \<open>ads131m08_data_init\<close> before this runs.\<close>

definition ads131m08_gpio_init :: "'d kenv \<Rightarrow> 'd drv \<Rightarrow> int \<times> 'd drv" where
  "ads131m08_gpio_init K s =
     (if \<not> ads131m08_data s then (- EINVAL, s)
      else
        case kcall (gpiod_get_drdy K) (s\<lparr>irq_registered := False\<rparr>) of (p, s) \<Rightarrow>
        if p < 0 then (p, s)
        else
          case kcall (gpiod_get_reset K) s of (p, s) \<Rightarrow>
          let s = s\<lparr>reset_gpiod := (p \<noteq> 0)\<rparr> in
          if p < 0 then (p, s)
          else
            case kcall (gpiod_to_irq K) s of (ret, s) \<Rightarrow>
            if ret < 0 then (ret, s) else (SUCCESS, s\<lparr>gpio_irq_no := ret\<rparr>))"

definition ads131m08_gpio_exit :: "'d drv \<Rightarrow> 'd drv" where
  "ads131m08_gpio_exit s = ads131m08_gpio_clr_irq s"

end
