(* ===== verification/Acquire.thy ===== *)
theory Acquire
  imports Sample_Io Gpio
begin

text \<open>
  The acquisition side of \<open>src/ads131m08_data.c\<close>: the data-ready interrupt and its thread,
  starting and stopping (\<open>ads131m08_run_cmd\<close>), the report of \<open>/proc\<close>; and the stream of
  samples that the ready and active buffers stand for.
\<close>

section \<open>Operations\<close>

text \<open>\<open>IRQF_ONESHOT\<close> keeps the line masked until the thread returns, so the handler and the
  thread are two steps.\<close>

definition ads131m08_isr :: "'d kenv \<Rightarrow> 'd drv \<Rightarrow> 'd drv" where
  "ads131m08_isr K s = (case kcall (ktime_get_real K) s of (ts, s) \<Rightarrow> s\<lparr>smpl_ts := ts\<rparr>)"

definition ads131m08_irq_thread :: "'d kenv \<Rightarrow> 'd drv \<Rightarrow> 'd drv option" where
  "ads131m08_irq_thread K s = do {
     (active_buf, s) \<leftarrow> list_fetch (active_list s) s;
     (active_buf, s) \<leftarrow> (if active_buf = None then list_fetch (free_list s) s else Some (active_buf, s));
     (case active_buf of
        None \<Rightarrow>
          let s = s\<lparr>drop_cnt := drop_cnt s + 1\<rparr>;
              (ret, s) = ads131m08_read_data_discard K s
          in Some s
      | Some ob \<Rightarrow> do {
          b \<leftarrow> as_chunk ob;
          s \<leftarrow> upd_buf b (\<lambda>c. c\<lparr>c_stat := BUF_STAT_ACTIVE\<rparr>) s;
          new_data \<leftarrow> ads131m08_smpl_data_get (Some b) s;
          s \<leftarrow> (case new_data of
                 None \<Rightarrow> Some s
               | Some p \<Rightarrow> upd_smpl p (\<lambda>d. d\<lparr>s_ts := smpl_ts s\<rparr>) s);
          (ret, s) \<leftarrow> ads131m08_read_data K (Some b) s;
          (if ret < 0 then ads131m08_chunk_buf_active (Some b) s else Some s) }) }"

text \<open>The statements of a stop, on the variable \<open>ret\<close> and the state. Their order matters to the
  interrupt thread and to readers that run between them.\<close>

definition stop_stmts :: "'d kenv \<Rightarrow> (int \<times> 'd drv \<Rightarrow> (int \<times> 'd drv) option) list" where
  "stop_stmts K =
     [\<lambda>(ret, s). Some (ret, s\<lparr>run_stat := ADC_STOP\<rparr>),
      \<lambda>(ret, s). Some (ret, ads131m08_gpio_clr_irq s),
      \<lambda>(ret, s). ads131m08_cmd_standby K s,
      \<lambda>(ret, s). do { s \<leftarrow> ads131m08_data_cleanup s; Some (ret, s) }]"

lemma stop_stmts_nth [simp]:
  "stop_stmts K ! 0 = (\<lambda>(ret, s). Some (ret, s\<lparr>run_stat := ADC_STOP\<rparr>))"
  "stop_stmts K ! Suc 0 = (\<lambda>(ret, s). Some (ret, ads131m08_gpio_clr_irq s))"
  "stop_stmts K ! 2 = (\<lambda>(ret, s). ads131m08_cmd_standby K s)"
  by (simp_all add: stop_stmts_def)

lemma run_stop_stmts [simp]:
  "run_stmts (stop_stmts K) (r, s) = do {
     (ret, s) \<leftarrow> ads131m08_cmd_standby K (ads131m08_gpio_clr_irq (s\<lparr>run_stat := ADC_STOP\<rparr>));
     s \<leftarrow> ads131m08_data_cleanup s;
     Some (ret, s) }"
  by (cases "ads131m08_cmd_standby K (ads131m08_gpio_clr_irq (s\<lparr>run_stat := ADC_STOP\<rparr>))")
    (auto simp: stop_stmts_def Option.bind_assoc)

definition ads131m08_run_cmd :: "'d kenv \<Rightarrow> int \<Rightarrow> 'd drv \<Rightarrow> (int \<times> 'd drv) option" where
  "ads131m08_run_cmd K run s =
     (if ads131m08_run_stat s = run then Some (SUCCESS, s)
      else if run \<noteq> 0 then do {
        s \<leftarrow> ads131m08_data_cleanup s;
        let s = s\<lparr>run_stat := ADC_RUN\<rparr>;
        let (ret, s) = ads131m08_gpio_set_irq K s;
        (if ret < 0 then Some (ret, s\<lparr>run_stat := ADC_STOP\<rparr>)
         else do {
           (ret, s) \<leftarrow> ads131m08_cmd_wakeup K s;
           (if ret < 0 then do {
              let s = ads131m08_gpio_clr_irq s;
              let s = s\<lparr>run_stat := ADC_STOP\<rparr>;
              s \<leftarrow> ads131m08_data_cleanup s;
              Some (ret, s) }
            else Some (SUCCESS, s)) }) }
      else do {
        (ret, s) \<leftarrow> run_stmts (stop_stmts K) (SUCCESS, s);
        (if ret < 0 then Some (ret, s) else Some (SUCCESS, s)) })"

definition ads131m08_data_exit :: "'d kenv \<Rightarrow> 'd drv \<Rightarrow> 'd drv option" where
  "ads131m08_data_exit K s = map_option snd (ads131m08_run_cmd K ADC_STOP s)"

text \<open>What \<open>ads131m08_data_buf_seq_show\<close> prints, one value per \<open>seq_printf\<close>.\<close>

datatype seq_line =
    SeqVersion string
  | SeqSummary (seq_run: int) (seq_open: int) (seq_free: int) (seq_ready: int) (seq_active: int) (seq_drop: int)
  | SeqBuf int int int int

definition ads131m08_driver_version :: string where "ads131m08_driver_version = ''2.0''"

fun seq_show_bufs :: "nat list \<Rightarrow> 'd drv \<Rightarrow> seq_line list option" where
  "seq_show_bufs [] s = Some []"
| "seq_show_bufs (i # is) s = do {
     c \<leftarrow> get_buf i s;
     r \<leftarrow> seq_show_bufs is s;
     Some (SeqBuf (int i + 1) (c_stat c) (c_idx c) (c_chunk_sz c) # r) }"

definition ads131m08_data_buf_seq_show :: "'d drv \<Rightarrow> seq_line list option" where
  "ads131m08_data_buf_seq_show s = do {
     f \<leftarrow> list_get_cnt (free_list s) s;
     r \<leftarrow> list_get_cnt (ready_list s) s;
     a \<leftarrow> list_get_cnt (active_list s) s;
     bufs \<leftarrow> seq_show_bufs [0..<CHUNK_BUF_CNT] s;
     Some ([SeqVersion ads131m08_driver_version,
            SeqSummary (ads131m08_run_stat s) (open_cnt s) f r a (sint (drop_cnt s))] @ bufs) }"

section \<open>The stream of samples\<close>

definition taken :: "chunk_buf \<Rightarrow> smpl list" where
  "taken c = take (nat (c_idx c)) (c_data c)"

text \<open>The samples acquired and not yet read, oldest first.\<close>

definition pending :: "chunk_buf list \<Rightarrow> nat list \<Rightarrow> nat list \<Rightarrow> smpl list" where
  "pending bs R A = concat (map (\<lambda>b. taken (bs ! b)) (R @ A))"

lemma pending_simps [simp]:
  "pending bs [] [] = []" "pending bs (b # R) A = taken (bs ! b) @ pending bs R A"
  "pending bs [] (b # A) = taken (bs ! b) @ pending bs [] A"
  by (simp_all add: pending_def)

lemma pending_cong:
  "(\<And>b. b \<in> set R \<union> set A \<Longrightarrow> taken (bs' ! b) = taken (bs ! b)) \<Longrightarrow> pending bs' R A = pending bs R A"
  unfolding pending_def by (rule arg_cong [where f = concat], rule map_cong) auto

lemma pending_ready: "pending bs (R @ [b]) [] = pending bs R [b]"
  by (simp add: pending_def)

lemma pending_split: "pending bs R A = pending bs R [] @ pending bs [] A"
  by (simp add: pending_def)

text \<open>What the readers hold: unchanged, or (\<open>e\<close>) every chunk of it emptied.\<close>

definition kept :: "bool \<Rightarrow> nat list \<Rightarrow> chunk_buf list \<Rightarrow> chunk_buf list \<Rightarrow> bool" where
  "kept e H bs bs' \<longleftrightarrow> (\<forall>b \<in> set H. taken (bs' ! b) = (if e then [] else taken (bs ! b)))"

lemma kept_refl [simp]: "kept False H bs bs"
  by (simp add: kept_def)

lemma keptI: "(\<And>b. b \<in> set H \<Longrightarrow> bs' ! b = bs ! b) \<Longrightarrow> kept False H bs bs'"
  by (simp add: kept_def)

lemma kept_upd: "b \<notin> set H \<Longrightarrow> kept False H bs (bs[b := c])"
  by (rule keptI) (metis nth_list_update_neq)

lemma nth_reset_bufs: "x \<notin> set R \<Longrightarrow> reset_bufs R bs ! x = bs ! x"
  by (induction R arbitrary: bs) auto

lemma kept_reset_bufs: "set H \<inter> set R = {} \<Longrightarrow> kept False H bs (reset_bufs R bs)"
  by (rule keptI) (auto intro: nth_reset_bufs)

lemma same_hand:
  assumes "data_inv s R A F (b # H) X bs"
  shows "\<forall>x \<in> set H. bs[b := c] ! x = bs ! x"
proof -
  have "owned R A F (b # H)" using assms by (simp add: data_inv_def)
  from owned_lt(2) [OF this] have "b \<notin> set H" by simp
  then show ?thesis by (metis nth_list_update_neq)
qed

lemma kept_lists:
  assumes "data_inv s R A F H X bs"
  shows "kept False H bs (reset_bufs R bs)" "kept False H bs (reset_bufs A bs)" "kept False H bs (reset_bufs (R @ A) bs)"
proof -
  have "owned R A F H" using assms by (simp add: data_inv_def)
  from owned_lt(2) [OF this] have "set H \<inter> set R = {}" "set H \<inter> set A = {}" by auto
  then show "kept False H bs (reset_bufs R bs)" "kept False H bs (reset_bufs A bs)" "kept False H bs (reset_bufs (R @ A) bs)"
    by (auto simp del: reset_bufs_simps intro!: kept_reset_bufs)
qed

section \<open>Frames of the invariant\<close>

lemma drv_inv_upd [simp]:
  "drv_inv (s\<lparr>run_stat := x1\<rparr>) R A F H X bs = drv_inv s R A F H X bs"
  "drv_inv (s\<lparr>irq_registered := x2\<rparr>) R A F H X bs = drv_inv s R A F H X bs"
  "drv_inv (s\<lparr>drop_cnt := x3\<rparr>) R A F H X bs = drv_inv s R A F H X bs"
  "drv_inv (s\<lparr>smpl_ts := x4\<rparr>) R A F H X bs = drv_inv s R A F H X bs"
  "drv_inv (s\<lparr>open_cnt := x5\<rparr>) R A F H X bs = drv_inv s R A F H X bs"
  "drv_inv (s\<lparr>dev := x6\<rparr>) R A F H X bs = drv_inv s R A F H X bs"
  "drv_inv (s\<lparr>klog := x7\<rparr>) R A F H X bs = drv_inv s R A F H X bs"
  "drv_inv (log_ev e s) R A F H X bs = drv_inv s R A F H X bs"
  by (simp_all add: drv_inv_def data_inv_def)

lemma strobe_drv:
  assumes I: "drv_inv s R A F H X bs" and up: "spi_hdlr s"
    and io: "spi_sync_transfer K (dev s) (trx_frame cmd [] 1) = (ret, rxd, d)"
  shows "\<exists>t X'. cmd_strobe K cmd [] 0 0 s = Some (ret, t) \<and> dev t = d \<and> drv_inv t R A F H X' bs \<and>
    drv_step s X [KSpi (trx_frame cmd [] 1)] t X'"
proof -
  have "trx_words 0 0 = 1" by (simp add: trx_words_def)
  moreover have "X \<noteq> []" using I by (simp add: drv_inv_def)
  ultimately obtain t X' where t: "cmd_strobe K cmd [] 0 0 s = Some (ret, t)" "dev t = d"
    and ps: "pool_step s (drv_lists R A F (Some X)) X [KSpi (trx_frame cmd [] 1)] t X'"
    using cmd_strobe_ok [OF drv_inv_pool [OF I] _ up, of 0 "[]" K cmd ret rxd d 0] io by auto
  from t pool_step_drv [OF I ps] show ?thesis by blast
qed

lemma cleanup_drv:
  assumes I: "drv_inv s R A F H X bs"
  shows "\<exists>t. ads131m08_data_cleanup s = Some t \<and> drv_inv t [] [] (F @ R @ A) H X (reset_bufs (R @ A) bs) \<and>
    drv_step s X [KWakeUp] t X \<and> dev t = dev s"
proof -
  have "data_inv s R A F H (Some X) bs" using I by (simp add: drv_inv_def)
  from data_cleanup_ok [OF this] obtain t where t: "ads131m08_data_cleanup s = Some t"
    "data_inv t [] [] (F @ R @ A) H (Some X) (reset_bufs (R @ A) bs)" "buf_step s [KWakeUp] t" by blast
  with I ctl_fields(5) [of t s] show ?thesis
    by (simp add: drv_inv_def drv_step_def buf_step_def)
qed

section \<open>The interrupt thread\<close>

definition stamped :: "int \<Rightarrow> chunk_buf \<Rightarrow> chunk_buf" where
  "stamped ts c = c\<lparr>c_stat := BUF_STAT_ACTIVE,
     c_data := (c_data c)[nat (c_idx c) := (c_data c ! nat (c_idx c))\<lparr>s_ts := ts\<rparr>]\<rparr>"

lemma stamped_simps [simp]:
  "c_idx (stamped ts c) = c_idx c" "c_xfer (stamped ts c) = c_xfer c"
  "c_chunk_sz (stamped ts c) = c_chunk_sz c" "c_stat (stamped ts c) = BUF_STAT_ACTIVE"
  by (simp_all add: stamped_def)

lemma taken_stamped [simp]: "taken (stamped ts c) = taken c"
  by (simp add: taken_def stamped_def)

lemma taken_sample:
  assumes "buf_ok sz c" "c_idx c < sz" "sz \<le> MAX_CHUNK_SZ"
  shows "taken (with_sample ls (stamped ts c)) = taken c @ [\<lparr>s_ts = ts, s_data = ls\<rparr>]"
proof -
  have i: "nat (c_idx c) < length (c_data c)" and i0: "0 \<le> c_idx c" using assms by (auto simp: buf_ok_def)
  have "m\<lparr>s_ts := ts, s_data := ls\<rparr> = \<lparr>s_ts = ts, s_data = ls\<rparr>" for m :: smpl by (cases m) simp
  with i i0 show ?thesis
    by (simp add: taken_def stamped_def with_sample_def nat_add_distrib take_Suc_conv_app_nth)
qed

lemma buf_ok_stamped:
  assumes ok: "buf_ok sz c"
  shows "buf_ok sz (stamped ts c)"
proof (cases "nat (c_idx c) < length (c_data c)")
  case True
  with ok have "smpl_ok ((c_data c ! nat (c_idx c))\<lparr>s_ts := ts\<rparr>)" by (simp add: buf_ok_def smpl_ok_def)
  with ok show ?thesis
    by (auto simp: buf_ok_def stamped_def dest!: set_update_subset_insert [THEN subsetD])
next
  case False
  then have "(c_data c)[nat (c_idx c) := v] = c_data c" for v by (intro list_update_beyond) simp
  with ok show ?thesis by (simp add: buf_ok_def stamped_def)
qed

text \<open>The buffer the thread works on: the active one, or else the first free one.\<close>

lemma irq_fetch:
  assumes I: "drv_inv s R A F H X bs" and ne: "A @ F \<noteq> []"
  defines "b \<equiv> hd (A @ F)" and "F' \<equiv> if A = [] then tl F else F"
  shows "\<exists>t. do { (a, s) \<leftarrow> list_fetch (active_list s) s;
                  (if a = None then list_fetch (free_list s) s else Some (a, s)) } = Some (Some (Chunk b), t) \<and>
    drv_inv t R [] F' (b # H) X bs \<and> buf_step s [] t"
    and "buf_ok (chunk_sz s) (bs ! b)" "c_xfer (bs ! b) = None" "c_idx (bs ! b) < chunk_sz s"
proof -
  have D: "data_inv s R A F H (Some X) bs" using I by (simp add: drv_inv_def)
  have l: "active_list s = Some ActiveL" "free_list s = Some FreeL" using D by (simp_all add: data_inv_def)
  have B: "bufs_ok (chunk_sz s) bs R A F" using D by (simp add: data_inv_def)
  have dr: "drv_inv t R [] F' (b # H) X bs" if "data_inv t R [] F' (b # H) (Some X) bs" "buf_step s [] t" for t
    using that I ctl_fields(5) [of t s] by (simp add: drv_inv_def buf_step_def)
  show "\<exists>t. do { (a, s) \<leftarrow> list_fetch (active_list s) s;
                  (if a = None then list_fetch (free_list s) s else Some (a, s)) } = Some (Some (Chunk b), t) \<and>
    drv_inv t R [] F' (b # H) X bs \<and> buf_step s [] t"
  proof (cases A)
    case Nil
    with ne obtain F0 where F: "F = b # F0" by (cases F) (auto simp: b_def)
    from data_fetch(3) [OF D F] data_fetch_empty(2) [OF D Nil] dr Nil F l show ?thesis
      by (auto simp: F'_def)
  next
    case (Cons a A0)
    with D have A: "A = [b]" by (simp add: b_def data_inv_def owned_def)
    from data_fetch(2) [OF D A] dr A l show ?thesis by (auto simp: F'_def)
  qed
  have "b \<in> set A \<union> set F" using ne by (cases A; cases F) (auto simp: b_def)
  then show "buf_ok (chunk_sz s) (bs ! b)" using data_get_buf(3) [OF D] by blast
  show "c_xfer (bs ! b) = None" "c_idx (bs ! b) < chunk_sz s"
    using \<open>b \<in> set A \<union> set F\<close> B by (auto simp: bufs_ok_def active_ok_def free_ok_def)
qed

text \<open>What the thread did, as a relation between the resources before and after.\<close>

lemma irq_thread_drop:
  assumes I: "drv_inv s R [] [] H X bs" and up: "spi_hdlr s"
    and io: "spi_sync_transfer K (dev s) (replicate 30 0) = (ret, rxd, d)"
  shows "ads131m08_irq_thread K s = Some (s\<lparr>drop_cnt := drop_cnt s + 1, dev := d,
    klog := klog s @ [KSpi (replicate 30 0)]\<rparr>)"
proof -
  have D: "data_inv s R [] [] H (Some X) bs" using I by (simp add: drv_inv_def)
  with data_fetch_empty(2,3) [OF D] up io show ?thesis
    by (simp add: ads131m08_irq_thread_def data_inv_def ads131m08_read_data_discard_def spi_sync_def)
qed

text \<open>The thread marks the buffer active and stores the time in its next sample.\<close>

definition irq_stamp :: "nat \<Rightarrow> 'd drv \<Rightarrow> 'd drv option" where
  "irq_stamp b s = do {
     s \<leftarrow> upd_buf b (\<lambda>c. c\<lparr>c_stat := BUF_STAT_ACTIVE\<rparr>) s;
     new_data \<leftarrow> ads131m08_smpl_data_get (Some b) s;
     (case new_data of None \<Rightarrow> Some s | Some p \<Rightarrow> upd_smpl p (\<lambda>d. d\<lparr>s_ts := smpl_ts s\<rparr>) s) }"

lemma irq_stamp_ok:
  assumes I: "data_inv s R A F H X bs" and h: "b \<in> set H" and c: "c_idx (bs ! b) < chunk_sz s"
  shows "\<exists>t. irq_stamp b s = Some t \<and> buf_step s [] t \<and>
    data_inv t R A F H X (bs[b := stamped (smpl_ts s) (bs ! b)])"
proof -
  let ?c = "bs ! b" let ?ca = "?c\<lparr>c_stat := BUF_STAT_ACTIVE\<rparr>" let ?c2 = "stamped (smpl_ts s) ?c"
  have bl: "b < length bs" and ok: "buf_ok (chunk_sz s) ?c" using data_get_buf [OF I, of b] h by simp_all
  have "chunk_sz s \<le> 320" using I by (simp add: data_inv_def bufs_ok_def MAX_CHUNK_SZ_def)
  with ok c have i: "0 \<le> c_idx ?c" "nat (c_idx ?c) < length (c_data ?c)"
    by (simp_all add: buf_ok_def MAX_CHUNK_SZ_def)
  let ?s1 = "s\<lparr>chunk_buf_list := Some (bs[b := ?ca])\<rparr>" let ?s2 = "s\<lparr>chunk_buf_list := Some (bs[b := ?c2])\<rparr>"
  have "buf_ok (chunk_sz s) ?ca" using ok by (simp add: buf_ok_def)
  with data_upd_buf_eq [OF I h, of "\<lambda>c. c\<lparr>c_stat := BUF_STAT_ACTIVE\<rparr>"]
  have ua: "upd_buf b (\<lambda>c. c\<lparr>c_stat := BUF_STAT_ACTIVE\<rparr>) s = Some ?s1" by simp
  have gb: "get_buf b ?s1 = Some ?ca" using bl by (simp add: get_buf_def nth_opt_def)
  have us: "upd_smpl (b, c_idx ?c) (\<lambda>d. d\<lparr>s_ts := smpl_ts s\<rparr>) ?s1 = Some ?s2"
    using i bl by (simp add: upd_smpl_def gb) (simp add: upd_buf_def stamped_def)
  have "irq_stamp b s = Some ?s2" using ua gb us by (simp add: irq_stamp_def ads131m08_smpl_data_get_def)
  moreover have "data_inv ?s2 R A F H X (bs[b := ?c2])"
    using data_upd_buf_eq(2) [OF I h, of "stamped (smpl_ts s)"] buf_ok_stamped [OF ok] by simp
  ultimately show ?thesis by (simp add: buf_step_def)
qed

lemma irq_thread_stages:
  "ads131m08_irq_thread K s = do {
     (a, s) \<leftarrow> do { (a, s) \<leftarrow> list_fetch (active_list s) s;
                    (if a = None then list_fetch (free_list s) s else Some (a, s)) };
     (case a of
        None \<Rightarrow> Some (snd (ads131m08_read_data_discard K (s\<lparr>drop_cnt := drop_cnt s + 1\<rparr>)))
      | Some ob \<Rightarrow> do {
          b \<leftarrow> as_chunk ob;
          s \<leftarrow> irq_stamp b s;
          (ret, s) \<leftarrow> ads131m08_read_data K (Some b) s;
          (if ret < 0 then ads131m08_chunk_buf_active (Some b) s else Some s) }) }"
  by (simp add: ads131m08_irq_thread_def irq_stamp_def Option.bind_assoc split_def Let_def cong: option.case_cong)

text \<open>After a failed exchange the buffer goes back to the active list.\<close>

lemma irq_put_back:
  assumes I: "drv_inv u R [] F (b # H) X' bs" and a: "active_ok (chunk_sz u) (bs ! b)" and st: "drv_step s X evs u X'"
  obtains t where "ads131m08_chunk_buf_active (Some b) u = Some t" "drv_inv t R [b] F H X' bs" "dev t = dev u"
    "drv_step s X evs t X'"
proof -
  have "data_inv u R [] F (b # H) (Some X') bs" using I by (simp add: drv_inv_def)
  from chunk_buf_active_ok [OF this a] obtain t where
    t: "ads131m08_chunk_buf_active (Some b) u = Some t" "data_inv t R [b] F H (Some X') bs" "buf_step u [] t" by blast
  have "drv_inv t R [b] F H X' bs" using t I ctl_fields(5) [of t u] by (simp add: drv_inv_def buf_step_def)
  moreover have "drv_step s X evs t X'" using st t(3) by (simp add: drv_step_def buf_step_def)
  moreover have "dev t = dev u" using t(3) by (simp add: buf_step_def)
  ultimately show thesis using t(1) that by blast
qed

lemma irq_thread_smpl:
  assumes I: "drv_inv s R A F H X bs" and up: "spi_hdlr s" and ne: "A @ F \<noteq> []"
    and io: "spi_sync_transfer K (dev s) (replicate 30 0) = (ret, rxd, d)"
  defines "b \<equiv> hd (A @ F)" and "F' \<equiv> if A = [] then tl F else F"
  defines "full \<equiv> 0 \<le> ret \<and> c_idx (bs ! b) + 1 \<ge> chunk_sz s"
  shows "\<exists>t X'. ads131m08_irq_thread K s = Some t \<and> dev t = d \<and>
    drv_step s X (KSpi (replicate 30 0) # (if full then [KWakeUp] else [])) t X' \<and>
    drv_inv t (if full then R @ [b] else R) (if full then [] else [b]) F' H X'
      (bs[b := (if ret < 0 then id else with_sample (frame_smpl rxd)) (stamped (smpl_ts s) (bs ! b))])"
proof -
  note F = irq_fetch [OF I ne, folded b_def F'_def]
  from F(1) obtain s1 where
    f: "do { (a, s) \<leftarrow> list_fetch (active_list s) s;
             (if a = None then list_fetch (free_list s) s else Some (a, s)) } = Some (Some (Chunk b), s1)"
    and I1: "drv_inv s1 R [] F' (b # H) X bs" and b1: "buf_step s [] s1" by blast
  have f1: "chunk_sz s1 = chunk_sz s" "smpl_ts s1 = smpl_ts s" using b1 ctl_fields [of s1 s] by (simp_all add: buf_step_def)
  let ?c = "bs ! b" let ?c2 = "stamped (smpl_ts s) ?c"
  from irq_stamp_ok [of s1 R "[]" F' "b # H" "Some X" bs b] I1 F(4) f1 obtain s2 where
    st: "irq_stamp b s1 = Some s2" and b2: "buf_step s [] s2"
    and D2: "data_inv s2 R [] F' (b # H) (Some X) (bs[b := ?c2])"
    using buf_step_trans [OF b1] by (auto simp: drv_inv_def)
  have f2: "chunk_sz s2 = chunk_sz s" "spi_hdlr s2" "dev s2 = dev s" "xfer_list s2 = xfer_list s" "xmem s2 = xmem s"
    and ds: "drv_step s X [] s2 X" using b2 up ctl_fields [of s2 s] by (simp_all add: buf_step_def drv_step_def)
  have I2: "drv_inv s2 R [] F' (b # H) X (bs[b := ?c2])" using D2 I f2 by (simp add: drv_inv_def)
  have bl: "b < length bs" using data_get_buf(2) [OF D2, of b] by simp
  have run: "ads131m08_irq_thread K s = do { (ret, s) \<leftarrow> ads131m08_read_data K (Some b) s2;
      (if ret < 0 then ads131m08_chunk_buf_active (Some b) s else Some s) }"
    unfolding irq_thread_stages f by (simp add: st)
  have c2: "filling (chunk_sz s2) (bs[b := ?c2] ! b)" "c_xfer (bs[b := ?c2] ! b) = None"
    using bl F(2-4) f2 buf_ok_stamped [OF F(2)] by (simp_all add: filling_def)
  have e: "bs[b := ?c2] ! b = ?c2" "bs[b := ?c2, b := x] = bs[b := x]" for x using bl by simp_all
  have io2: "spi_sync_transfer K (dev s2) (replicate 30 0) = (ret, rxd, d)" using io f2 by simp
  note R = read_data_ok [OF I2 f2(2) c2 io2, unfolded e f2(1) stamped_simps]
  show ?thesis
  proof (cases "ret < 0")
    case False
    then have "full \<longleftrightarrow> c_idx ?c + 1 \<ge> chunk_sz s" by (simp add: full_def)
    with R False obtain t X' where t: "dev t = d" "ads131m08_read_data K (Some b) s2 = Some (SUCCESS, t)"
      "drv_step s2 X (KSpi (replicate 30 0) # (if full then [KWakeUp] else [])) t X'"
      "drv_inv t (if full then R @ [b] else R) (if full then [] else [b]) F' H X'
         (bs[b := with_sample (frame_smpl rxd) ?c2])" by (simp only: if_False) blast
    have "ads131m08_irq_thread K s = Some t" using run t(2) by (simp add: SUCCESS_def)
    with t drv_step_trans [OF ds t(3)] False show ?thesis by auto
  next
    case True
    with R obtain u X' where u: "dev u = d" "ads131m08_read_data K (Some b) s2 = Some (ret, u)"
      "drv_inv u R [] F' (b # H) X' (bs[b := ?c2])" "drv_step s2 X [KSpi (replicate 30 0)] u X'" by auto
    have "chunk_sz u = chunk_sz s" using u(4) f2 ctl_fields(6) [of u s2] by (simp add: drv_step_def)
    then have a: "active_ok (chunk_sz u) (bs[b := ?c2] ! b)" using bl F(3,4) by (simp add: active_ok_def)
    have "drv_step s X [KSpi (replicate 30 0)] u X'" using drv_step_trans [OF ds u(4)] by simp
    from irq_put_back [OF u(3) a this] obtain t where "ads131m08_chunk_buf_active (Some b) u = Some t"
      "drv_inv t R [b] F' H X' (bs[b := ?c2])" "dev t = dev u" "drv_step s X [KSpi (replicate 30 0)] t X'" .
    then show ?thesis using True run u(1,2) by (auto simp: full_def)
  qed
qed

section \<open>The thread and the stream\<close>

lemma irq_pending:
  assumes I: "drv_inv s R A F H X bs" and ne: "A @ F \<noteq> []"
  defines "b \<equiv> hd (A @ F)"
  shows "pending (bs[b := stamped ts (bs ! b)]) R [b] = pending bs R A"
    and "pending (bs[b := with_sample ls (stamped ts (bs ! b))]) R [b]
      = pending bs R A @ [\<lparr>s_ts = ts, s_data = ls\<rparr>]"
proof -
  have O: "owned R A F H" and B: "bufs_ok (chunk_sz s) bs R A F"
    using I by (simp_all add: drv_inv_def data_inv_def)
  have bAF: "b \<in> set A \<union> set F" using ne by (cases A; cases F) (auto simp: b_def)
  then have "b < CHUNK_BUF_CNT" "b \<notin> set R" using owned_lt [OF O] by auto
  with B have bl: "b < length bs" and bR: "b \<notin> set R" by (simp_all add: bufs_ok_def)
  have r: "pending (bs[b := c]) R [] = pending bs R []" for c
  proof (rule pending_cong)
    fix x assume "x \<in> set R \<union> set []"
    with bR have "b \<noteq> x" by auto
    then show "taken (bs[b := c] ! x) = taken (bs ! x)" by simp
  qed
  have a: "pending bs [] A = taken (bs ! b)"
  proof (cases A)
    case Nil
    then have "b \<in> set F" using bAF by simp
    with B have "c_idx (bs ! b) = 0" by (simp add: bufs_ok_def free_ok_def)
    with Nil show ?thesis by (simp add: taken_def)
  next
    case (Cons x A0)
    with O have "A = [b]" by (simp add: b_def owned_def)
    then show ?thesis by simp
  qed
  have "pending bs R A = pending bs R [] @ taken (bs ! b)"
    by (subst pending_split) (simp only: a)
  moreover have "pending (bs[b := c]) R [b] = pending bs R [] @ taken c" for c
    by (subst pending_split) (use r bl in simp)
  moreover have "taken (with_sample ls (stamped ts (bs ! b))) = taken (bs ! b) @ [\<lparr>s_ts = ts, s_data = ls\<rparr>]"
    using irq_fetch(2,4) [OF I ne] B taken_sample
    by (intro taken_sample) (auto simp: b_def bufs_ok_def)
  ultimately show "pending (bs[b := stamped ts (bs ! b)]) R [b] = pending bs R A"
    and "pending (bs[b := with_sample ls (stamped ts (bs ! b))]) R [b]
      = pending bs R A @ [\<lparr>s_ts = ts, s_data = ls\<rparr>]"
    by simp_all
qed

text \<open>The specification of the thread on the abstract state: the pending samples and the
  drop counter.\<close>

definition irq_spec :: "bool \<Rightarrow> int \<Rightarrow> smpl \<Rightarrow> smpl list \<times> u64 \<Rightarrow> smpl list \<times> u64" where
  "irq_spec room ret m q = (case q of (ps, n) \<Rightarrow>
     if \<not> room then (ps, n + 1) else if ret < 0 then (ps, n) else (ps @ [m], n))"

lemma irq_thread_spec:
  assumes I: "drv_inv s R A F H X bs" and up: "spi_hdlr s"
    and io: "spi_sync_transfer K (dev s) (replicate 30 0) = (ret, rxd, d)"
  shows "\<exists>t R' A' F' X' bs'. ads131m08_irq_thread K s = Some t \<and> drv_inv t R' A' F' H X' bs' \<and>
    (pending bs' R' A', drop_cnt t)
      = irq_spec (A @ F \<noteq> []) ret \<lparr>s_ts = smpl_ts s, s_data = frame_smpl rxd\<rparr> (pending bs R A, drop_cnt s) \<and>
    ctl t = ctl (s\<lparr>drop_cnt := drop_cnt t\<rparr>) \<and> dev t = d \<and> mset X' = mset X \<and>
    klog t = klog s @ KSpi (replicate 30 0) # (if length R' = length R then [] else [KWakeUp]) \<and>
    (A \<noteq> [] \<or> R' \<noteq> R \<or> A' = [] \<or> length F = Suc (length F'))"
proof (cases "A @ F = []")
  case True
  then have "drv_inv s R [] [] H X bs" using I by simp
  note D = irq_thread_drop [OF this up io]
  show ?thesis
    by (rule exI, rule exI [of _ R], rule exI [of _ A], rule exI [of _ F], rule exI [of _ X],
        rule exI [of _ bs], intro conjI, rule D)
      (use True I in \<open>simp_all add: irq_spec_def ctl_def\<close>)
next
  case False
  define b where "b = hd (A @ F)"
  define F' where "F' = (if A = [] then tl F else F)"
  define full where "full \<longleftrightarrow> 0 \<le> ret \<and> c_idx (bs ! b) + 1 \<ge> chunk_sz s"
  define bs' where "bs' = bs[b := (if ret < 0 then id else with_sample (frame_smpl rxd)) (stamped (smpl_ts s) (bs ! b))]"
  from irq_thread_smpl [OF I up False io, folded b_def, folded F'_def full_def bs'_def] obtain t X' where
    t: "ads131m08_irq_thread K s = Some t" "dev t = d"
    "drv_step s X (KSpi (replicate 30 0) # (if full then [KWakeUp] else [])) t X'"
    "drv_inv t (if full then R @ [b] else R) (if full then [] else [b]) F' H X' bs'" by blast
  have p: "pending bs' (if full then R @ [b] else R) (if full then [] else [b])
      = (if ret < 0 then pending bs R A else pending bs R A @ [\<lparr>s_ts = smpl_ts s, s_data = frame_smpl rxd\<rparr>])"
    using irq_pending [OF I False, folded b_def] by (simp add: bs'_def pending_ready)
  have "ctl t = ctl s" using t(3) by (simp add: drv_step_def)
  then have c: "ctl t = ctl (s\<lparr>drop_cnt := drop_cnt t\<rparr>)" "drop_cnt t = drop_cnt s" by (auto simp: ctl_def)
  show ?thesis
    by (intro exI conjI, rule t(1), rule t(4))
      (use p c t False in \<open>auto simp: irq_spec_def drv_step_def F'_def\<close>)
qed

section \<open>Starting and stopping\<close>

lemma set_irq_cases:
  assumes "ads131m08_data s" "\<not> irq_registered s"
    and rq: "request_threaded_irq K (dev s) (gpio_irq_no s) = (rc, d)"
  shows "ads131m08_gpio_set_irq K s =
    (if gpio_irq_no s \<le> 0 then (- EINVAL, s)
     else if rc \<noteq> 0 then (rc, s\<lparr>dev := d\<rparr>)
     else (0, log_ev (KRequestIrq (gpio_irq_no s)) (s\<lparr>dev := d, irq_registered := True\<rparr>)))"
  using assms by (simp add: ads131m08_gpio_set_irq_def kcall_def)

text \<open>Stopped, nothing is acquired: no data left and no interrupt.\<close>

definition sys_inv ::
  "'d drv \<Rightarrow> nat list \<Rightarrow> nat list \<Rightarrow> nat list \<Rightarrow> nat list \<Rightarrow> nat list \<Rightarrow> chunk_buf list \<Rightarrow> bool" where
  "sys_inv s R A F H X bs \<longleftrightarrow> drv_inv s R A F H X bs \<and> spi_hdlr s \<and>
     (run_stat s = ADC_RUN \<or> run_stat s = ADC_STOP \<and> R = [] \<and> A = [] \<and> \<not> irq_registered s)"

lemma drv_inv_data: "drv_inv s R A F H X bs \<Longrightarrow> ads131m08_data s"
  by (simp add: drv_inv_def data_inv_def)

text \<open>A stop, statement by statement: the interrupt is freed and the run state is STOP while the chunks
  are still on their lists; so they are when STANDBY goes out; then they are reclaimed.\<close>

lemma run_cmd_stop_stmts:
  assumes I: "sys_inv s R A F H X bs" and run: "run_stat s = ADC_RUN"
    and io: "spi_sync_transfer K (dev s) (trx_frame CMD_STANDBY [] 1) = (ret, rxd, d)"
  defines "u \<equiv> ads131m08_gpio_clr_irq (s\<lparr>run_stat := ADC_STOP\<rparr>)"
  shows "\<exists>v t X'. run_stmts (take 3 (stop_stmts K)) (SUCCESS, s) = Some (ret, v) \<and>
    run_stmts (stop_stmts K) (SUCCESS, s) = Some (ret, t) \<and>
    drv_inv u R A F H X bs \<and> drv_inv v R A F H X' bs \<and> sys_inv t [] [] (F @ R @ A) H X' (reset_bufs (R @ A) bs) \<and>
    drv_step u X [KSpi (trx_frame CMD_STANDBY [] 1)] v X' \<and> drv_step v X' [KWakeUp] t X' \<and>
    ctl u = ctl (s\<lparr>run_stat := ADC_STOP, irq_registered := False\<rparr>) \<and> dev v = d \<and> dev t = d \<and>
    elms u = elms s \<and> klog u = klog s @ (if irq_registered s then [KFreeIrq (gpio_irq_no s)] else [])"
proof -
  have I0: "drv_inv s R A F H X bs" "spi_hdlr s" using I by (simp_all add: sys_inv_def)
  have s1: "drv_inv u R A F H X bs" "spi_hdlr u" "dev u = dev s" "elms u = elms s"
    "ctl u = ctl (s\<lparr>run_stat := ADC_STOP, irq_registered := False\<rparr>)"
    "klog u = klog s @ (if irq_registered s then [KFreeIrq (gpio_irq_no s)] else [])"
    using I0 drv_inv_data [OF I0(1)] by (auto simp: u_def ads131m08_gpio_clr_irq_def ctl_def log_ev_def)
  from strobe_drv [OF s1(1,2), of K CMD_STANDBY ret rxd d] io s1(3) obtain v X' where
    v: "cmd_strobe K CMD_STANDBY [] 0 0 u = Some (ret, v)" "dev v = d" "drv_inv v R A F H X' bs"
    "drv_step u X [KSpi (trx_frame CMD_STANDBY [] 1)] v X'" by auto
  from cleanup_drv [OF v(3)] obtain t where
    t: "ads131m08_data_cleanup v = Some t" "drv_inv t [] [] (F @ R @ A) H X' (reset_bufs (R @ A) bs)"
    "drv_step v X' [KWakeUp] t X'" "dev t = dev v" by blast
  have "ctl t = ctl (s\<lparr>run_stat := ADC_STOP, irq_registered := False\<rparr>)"
    using s1(5) v(4) t(3) by (simp add: drv_step_def)
  from ctl_fields [OF this] have "run_stat t = ADC_STOP" "\<not> irq_registered t" "spi_hdlr t" using I0 by simp_all
  with t(2) have "sys_inv t [] [] (F @ R @ A) H X' (reset_bufs (R @ A) bs)" by (simp add: sys_inv_def)
  moreover have "run_stmts (take 3 (stop_stmts K)) (SUCCESS, s) = Some (ret, v)"
    using v(1) by (simp add: stop_stmts_def u_def ads131m08_cmd_standby_def)
  moreover have "run_stmts (stop_stmts K) (SUCCESS, s) = Some (ret, t)"
    using v(1) t(1) by (simp add: u_def ads131m08_cmd_standby_def)
  ultimately show ?thesis using s1 v t by (intro exI [of _ v] exI [of _ t] exI [of _ X']) simp
qed

lemma run_cmd_stop_eq:
  assumes "run_stat s = ADC_RUN" "run_stmts (stop_stmts K) (SUCCESS, s) = Some (ret, t)"
  shows "ads131m08_run_cmd K ADC_STOP s = Some (if ret < 0 then ret else SUCCESS, t)"
  using assms by (auto simp: ads131m08_run_cmd_def ads131m08_run_stat_def ADC_RUN_def ADC_STOP_def simp del: run_stop_stmts)

lemma run_cmd_stop:
  assumes I: "sys_inv s R A F H X bs" and run: "run_stat s = ADC_RUN"
    and io: "spi_sync_transfer K (dev s) (trx_frame CMD_STANDBY [] 1) = (ret, rxd, d)"
  shows "\<exists>t X'. ads131m08_run_cmd K ADC_STOP s = Some (if ret < 0 then ret else SUCCESS, t) \<and>
    sys_inv t [] [] (F @ R @ A) H X' (reset_bufs (R @ A) bs) \<and> mset X' = mset X \<and>
    ctl t = ctl (s\<lparr>run_stat := ADC_STOP, irq_registered := False\<rparr>) \<and> dev t = d \<and>
    dom (elms t) = dom (elms s) \<and>
    klog t = klog s @ (if irq_registered s then [KFreeIrq (gpio_irq_no s)] else [])
      @ [KSpi (trx_frame CMD_STANDBY [] 1), KWakeUp]"
proof -
  let ?u = "ads131m08_gpio_clr_irq (s\<lparr>run_stat := ADC_STOP\<rparr>)"
  from run_cmd_stop_stmts [OF assms] obtain v t X' where
    st: "run_stmts (stop_stmts K) (SUCCESS, s) = Some (ret, t)"
    and t: "sys_inv t [] [] (F @ R @ A) H X' (reset_bufs (R @ A) bs)" "dev t = d" "elms ?u = elms s"
      "drv_step ?u X [KSpi (trx_frame CMD_STANDBY [] 1)] v X'" "drv_step v X' [KWakeUp] t X'"
      "ctl ?u = ctl (s\<lparr>run_stat := ADC_STOP, irq_registered := False\<rparr>)"
      "klog ?u = klog s @ (if irq_registered s then [KFreeIrq (gpio_irq_no s)] else [])" by blast
  have "drv_step ?u X [KSpi (trx_frame CMD_STANDBY [] 1), KWakeUp] t X'"
    using drv_step_trans [OF t(4,5)] by simp
  with run_cmd_stop_eq [OF run st] t(1-3,6,7) show ?thesis
    by (intro exI [of _ t] exI [of _ X']) (simp add: drv_step_def)
qed

text \<open>Starting: the branch the code takes, from the answers of the kernel.\<close>

lemma run_cmd_start_irq:
  assumes I: "sys_inv s R A F H X bs" and stop: "run_stat s = ADC_STOP"
  shows "\<exists>s1. R = [] \<and> A = [] \<and> ads131m08_data_cleanup s = Some s1 \<and> drv_inv s1 [] [] F H X bs \<and>
    drv_step s X [KWakeUp] s1 X \<and> dev s1 = dev s \<and> \<not> irq_registered s1 \<and> spi_hdlr s1 \<and>
    ads131m08_data s1 \<and> gpio_irq_no s1 = gpio_irq_no s"
proof -
  have I0: "drv_inv s [] [] F H X bs" and e: "R = []" "A = []" "\<not> irq_registered s" "spi_hdlr s"
    using I stop by (auto simp: sys_inv_def ADC_RUN_def ADC_STOP_def)
  from cleanup_drv [OF I0] obtain t where t: "ads131m08_data_cleanup s = Some t"
    "drv_inv t [] [] F H X bs" "drv_step s X [KWakeUp] t X" "dev t = dev s" by auto
  have "ctl t = ctl s" using t(3) by (simp add: drv_step_def)
  from ctl_fields [OF this] t e drv_inv_data [OF I0] show ?thesis by simp
qed

lemma run_cmd_start_fail_irq:
  assumes I: "sys_inv s R A F H X bs" and stop: "run_stat s = ADC_STOP"
    and rq: "request_threaded_irq K (dev s) (gpio_irq_no s) = (rc, d)"
    and bad: "gpio_irq_no s \<le> 0 \<or> rc < 0"
  shows "\<exists>t. ads131m08_run_cmd K ADC_RUN s = Some (if gpio_irq_no s \<le> 0 then - EINVAL else rc, t) \<and>
    sys_inv t R A F H X bs \<and> ctl t = ctl s \<and> klog t = klog s @ [KWakeUp]"
proof -
  from run_cmd_start_irq [OF I stop] obtain s1 where s1: "R = []" "A = []"
    "ads131m08_data_cleanup s = Some s1" "drv_inv s1 [] [] F H X bs" "drv_step s X [KWakeUp] s1 X"
    "dev s1 = dev s" "\<not> irq_registered s1" "spi_hdlr s1" "ads131m08_data s1" "gpio_irq_no s1 = gpio_irq_no s"
    by blast
  let ?s2 = "s1\<lparr>run_stat := ADC_RUN\<rparr>"
  have q: "ads131m08_gpio_set_irq K ?s2 = (if gpio_irq_no s \<le> 0 then - EINVAL else rc,
      if gpio_irq_no s \<le> 0 then ?s2 else ?s2\<lparr>dev := d\<rparr>)"
    using set_irq_cases [of ?s2 K rc d] s1 rq bad by auto
  let ?t = "(if gpio_irq_no s \<le> 0 then ?s2 else ?s2\<lparr>dev := d\<rparr>)\<lparr>run_stat := ADC_STOP\<rparr>"
  have "ads131m08_run_cmd K ADC_RUN s = Some (if gpio_irq_no s \<le> 0 then - EINVAL else rc, ?t)"
    using s1(3) stop q bad
    by (simp add: ads131m08_run_cmd_def ads131m08_run_stat_def ADC_RUN_def ADC_STOP_def EINVAL_def split: if_splits)
  moreover have "sys_inv ?t R A F H X bs" using s1 by (simp add: sys_inv_def)
  moreover have "ctl ?t = ctl s" "klog ?t = klog s @ [KWakeUp]"
    using s1(5) stop by (simp_all add: drv_step_def) (simp_all add: ctl_def)
  ultimately show ?thesis by blast
qed

text \<open>A WAKEUP that fails: the interrupt is freed, the state goes back, the lists are emptied again.\<close>

lemma start_backs_out:
  assumes I: "drv_inv s [] [] F H X bs" and reg: "irq_registered s"
  obtains t where "ads131m08_data_cleanup ((ads131m08_gpio_clr_irq s)\<lparr>run_stat := ADC_STOP\<rparr>) = Some t"
    "drv_inv t [] [] F H X bs" "ctl t = ctl (s\<lparr>run_stat := ADC_STOP, irq_registered := False\<rparr>)" "dev t = dev s"
    "klog t = klog s @ [KFreeIrq (gpio_irq_no s), KWakeUp]"
proof -
  let ?u = "(ads131m08_gpio_clr_irq s)\<lparr>run_stat := ADC_STOP\<rparr>"
  have u: "?u = (log_ev (KFreeIrq (gpio_irq_no s)) (s\<lparr>irq_registered := False\<rparr>))\<lparr>run_stat := ADC_STOP\<rparr>"
    using reg drv_inv_data [OF I] by (simp add: ads131m08_gpio_clr_irq_def)
  have "drv_inv ?u [] [] F H X bs" using I by (simp add: u)
  from cleanup_drv [OF this] obtain t where t: "ads131m08_data_cleanup ?u = Some t"
    "drv_inv t [] [] F H X bs" "drv_step ?u X [KWakeUp] t X" "dev t = dev ?u" by auto
  moreover have "ctl ?u = ctl (s\<lparr>run_stat := ADC_STOP, irq_registered := False\<rparr>)" unfolding u by (simp add: ctl_def)
  moreover have "klog ?u = klog s @ [KFreeIrq (gpio_irq_no s)]" "dev ?u = dev s" unfolding u by simp_all
  ultimately show thesis by (intro that [of t]) (simp_all add: drv_step_def)
qed

lemma run_cmd_start_ok:
  assumes I: "sys_inv s R A F H X bs" and stop: "run_stat s = ADC_STOP" and irq: "0 < gpio_irq_no s"
    and rq: "request_threaded_irq K (dev s) (gpio_irq_no s) = (0, d)"
    and io: "spi_sync_transfer K d (trx_frame CMD_WAKEUP [] 1) = (ret, rxd, d')"
  shows "\<exists>t X'. mset X' = mset X \<and> dev t = d' \<and>
    (if ret < 0
     then ads131m08_run_cmd K ADC_RUN s = Some (ret, t) \<and> sys_inv t R A F H X' bs \<and> ctl t = ctl s \<and>
       klog t = klog s @ [KWakeUp, KRequestIrq (gpio_irq_no s), KSpi (trx_frame CMD_WAKEUP [] 1),
         KFreeIrq (gpio_irq_no s), KWakeUp]
     else ads131m08_run_cmd K ADC_RUN s = Some (SUCCESS, t) \<and> sys_inv t [] [] F H X' bs \<and>
       ctl t = ctl (s\<lparr>run_stat := ADC_RUN, irq_registered := True\<rparr>) \<and>
       klog t = klog s @ [KWakeUp, KRequestIrq (gpio_irq_no s), KSpi (trx_frame CMD_WAKEUP [] 1)])"
proof -
  from run_cmd_start_irq [OF I stop] obtain s1 where s1: "R = []" "A = []"
    "ads131m08_data_cleanup s = Some s1" "drv_inv s1 [] [] F H X bs" "drv_step s X [KWakeUp] s1 X"
    "dev s1 = dev s" "\<not> irq_registered s1" "spi_hdlr s1" "ads131m08_data s1" "gpio_irq_no s1 = gpio_irq_no s"
    by blast
  let ?s3 = "log_ev (KRequestIrq (gpio_irq_no s)) (s1\<lparr>run_stat := ADC_RUN, dev := d, irq_registered := True\<rparr>)"
  have q: "ads131m08_gpio_set_irq K (s1\<lparr>run_stat := ADC_RUN\<rparr>) = (0, ?s3)"
    using set_irq_cases [of "s1\<lparr>run_stat := ADC_RUN\<rparr>" K 0 d] s1 rq irq by simp
  have i3: "drv_inv ?s3 [] [] F H X bs" "spi_hdlr ?s3" "dev ?s3 = d" using s1 by simp_all
  from strobe_drv [OF i3(1,2), of K CMD_WAKEUP ret rxd d'] io obtain s4 X' where
    s4: "cmd_strobe K CMD_WAKEUP [] 0 0 ?s3 = Some (ret, s4)" "dev s4 = d'" "drv_inv s4 [] [] F H X' bs"
    "drv_step ?s3 X [KSpi (trx_frame CMD_WAKEUP [] 1)] s4 X'" by auto
  have "ctl s1 = ctl s" using s1(5) by (simp add: drv_step_def)
  then have "ctl ?s3 = ctl (s\<lparr>run_stat := ADC_RUN, irq_registered := True\<rparr>)" by (simp add: ctl_def)
  then have c4: "ctl s4 = ctl (s\<lparr>run_stat := ADC_RUN, irq_registered := True\<rparr>)"
    using s4(4) by (simp add: drv_step_def)
  have k4: "klog s4 = klog s @ [KWakeUp, KRequestIrq (gpio_irq_no s), KSpi (trx_frame CMD_WAKEUP [] 1)]"
    "mset X' = mset X"
    using s1(5) s4(4) by (simp_all add: drv_step_def)
  have f4: "run_stat s4 = ADC_RUN" "irq_registered s4" "spi_hdlr s4" "gpio_irq_no s4 = gpio_irq_no s"
    using ctl_fields [OF c4] I by (simp_all add: sys_inv_def)
  have run: "ads131m08_run_cmd K ADC_RUN s = (if ret < 0
      then do { t \<leftarrow> ads131m08_data_cleanup ((ads131m08_gpio_clr_irq s4)\<lparr>run_stat := ADC_STOP\<rparr>); Some (ret, t) }
      else Some (SUCCESS, s4))"
    using s1(3) stop q s4(1)
    by (simp add: ads131m08_run_cmd_def ads131m08_run_stat_def ADC_RUN_def ADC_STOP_def ads131m08_cmd_wakeup_def)
  show ?thesis
  proof (cases "ret < 0")
    case False
    with run c4 k4 f4 s4 show ?thesis by (auto simp: sys_inv_def)
  next
    case True
    from start_backs_out [OF s4(3) f4(2)] obtain t where
      t: "ads131m08_data_cleanup ((ads131m08_gpio_clr_irq s4)\<lparr>run_stat := ADC_STOP\<rparr>) = Some t"
        "drv_inv t [] [] F H X' bs" "ctl t = ctl (s4\<lparr>run_stat := ADC_STOP, irq_registered := False\<rparr>)" "dev t = dev s4"
        "klog t = klog s4 @ [KFreeIrq (gpio_irq_no s4), KWakeUp]" .
    have ct: "ctl t = ctl s" using t(3) c4 stop I by (auto simp: ctl_def sys_inv_def ADC_RUN_def ADC_STOP_def)
    have "sys_inv t R A F H X' bs"
      using t(2) s1(1,2) ctl_fields [OF ct] I stop by (auto simp: sys_inv_def ADC_RUN_def ADC_STOP_def)
    with True run t(1,4,5) ct k4 f4(4) s4(2) show ?thesis by auto
  qed
qed

lemma sys_inv_step:
  assumes I: "sys_inv s R A F H X bs" and t: "drv_inv t R A F H X' bs" and st: "drv_step s X evs t X'"
  shows "sys_inv t R A F H X' bs"
proof -
  have "ctl t = ctl s" using st by (simp add: drv_step_def)
  from ctl_fields [OF this] I t show ?thesis by (simp add: sys_inv_def)
qed

lemma sys_inv_upd [simp]:
  "sys_inv (s\<lparr>drop_cnt := x3\<rparr>) R A F H X bs = sys_inv s R A F H X bs"
  "sys_inv (s\<lparr>smpl_ts := x4\<rparr>) R A F H X bs = sys_inv s R A F H X bs"
  "sys_inv (s\<lparr>open_cnt := x5\<rparr>) R A F H X bs = sys_inv s R A F H X bs"
  "sys_inv (s\<lparr>dev := x6\<rparr>) R A F H X bs = sys_inv s R A F H X bs"
  "sys_inv (log_ev e s) R A F H X bs = sys_inv s R A F H X bs"
  by (simp_all add: sys_inv_def)

text \<open>Every run of \<open>ads131m08_run_cmd\<close> keeps the invariant and ends in one of the two
  states; \<open>request_threaded_irq\<close> returns zero or a negative error.\<close>

lemma run_cmd_stop_sys:
  assumes I: "sys_inv s R A F H X bs" and run: "run_stat s = ADC_RUN"
  shows "\<exists>ret t R' A' F' X' bs'. ads131m08_run_cmd K ADC_STOP s = Some (ret, t) \<and> sys_inv t R' A' F' H X' bs' \<and>
    ret \<le> 0 \<and> mset X' = mset X \<and> open_cnt t = open_cnt s \<and> chunk_sz t = chunk_sz s \<and> run_stat t = ADC_STOP \<and>
    R' = [] \<and> A' = []"
proof -
  obtain ret rxd d where io: "spi_sync_transfer K (dev s) (trx_frame CMD_STANDBY [] 1) = (ret, rxd, d)"
    by (cases "spi_sync_transfer K (dev s) (trx_frame CMD_STANDBY [] 1)")
  from run_cmd_stop [OF I run io] obtain t X' where
    t: "ads131m08_run_cmd K ADC_STOP s = Some (if ret < 0 then ret else SUCCESS, t)"
      "sys_inv t [] [] (F @ R @ A) H X' (reset_bufs (R @ A) bs)"
      "ctl t = ctl (s\<lparr>run_stat := ADC_STOP, irq_registered := False\<rparr>)" "mset X' = mset X" by blast
  from ctl_fields [OF t(3)] t show ?thesis
    by (intro exI [of _ "if ret < 0 then ret else SUCCESS"] exI [of _ t] exI [of _ "[]"] exI [of _ "F @ R @ A"]
        exI [of _ X'] exI [of _ "reset_bufs (R @ A) bs"]) (simp add: SUCCESS_def)
qed

lemma run_cmd_start_sys:
  assumes I: "sys_inv s R A F H X bs" and rq: "\<And>d n. fst (request_threaded_irq K d n) \<le> 0" and stop: "run_stat s = ADC_STOP"
  shows "\<exists>ret t X'. ads131m08_run_cmd K ADC_RUN s = Some (ret, t) \<and> sys_inv t [] [] F H X' bs \<and> R = [] \<and> A = [] \<and>
    ret \<le> 0 \<and> mset X' = mset X \<and> open_cnt t = open_cnt s \<and> chunk_sz t = chunk_sz s"
proof -
  have e: "R = []" "A = []" using I stop by (auto simp: sys_inv_def ADC_RUN_def ADC_STOP_def)
  obtain rc d where q: "request_threaded_irq K (dev s) (gpio_irq_no s) = (rc, d)"
    by (cases "request_threaded_irq K (dev s) (gpio_irq_no s)")
  have rc: "rc \<le> 0" using rq [of "dev s" "gpio_irq_no s"] q by simp
  show ?thesis
  proof (cases "gpio_irq_no s \<le> 0 \<or> rc < 0")
    case True
    from run_cmd_start_fail_irq [OF I stop q True] obtain t where
      t: "ads131m08_run_cmd K ADC_RUN s = Some (if gpio_irq_no s \<le> 0 then - EINVAL else rc, t)"
        "sys_inv t R A F H X bs" "ctl t = ctl s" by blast
    from ctl_fields(6,16) [OF t(3)] t rc e show ?thesis by (simp add: EINVAL_def) blast
  next
    case False
    then have irq: "0 < gpio_irq_no s" and q0: "request_threaded_irq K (dev s) (gpio_irq_no s) = (0, d)" using rc q by auto
    obtain ret rxd d' where io: "spi_sync_transfer K d (trx_frame CMD_WAKEUP [] 1) = (ret, rxd, d')"
      by (cases "spi_sync_transfer K d (trx_frame CMD_WAKEUP [] 1)")
    from run_cmd_start_ok [OF I stop irq q0 io] obtain t X' where
      t: "ads131m08_run_cmd K ADC_RUN s = Some (if ret < 0 then ret else SUCCESS, t)" "sys_inv t [] [] F H X' bs"
        "ctl t = ctl s \<or> ctl t = ctl (s\<lparr>run_stat := ADC_RUN, irq_registered := True\<rparr>)" "mset X' = mset X"
      using e by (auto split: if_splits)
    have "open_cnt t = open_cnt s" using t(3) ctl_fields(16) [of t s]
        ctl_fields(16) [of t "s\<lparr>run_stat := ADC_RUN, irq_registered := True\<rparr>"] by auto
    moreover have "chunk_sz t = chunk_sz s" using t(3) ctl_fields(6) [of t s]
        ctl_fields(6) [of t "s\<lparr>run_stat := ADC_RUN, irq_registered := True\<rparr>"] by auto
    moreover note t(1,2,4) e
    ultimately show ?thesis
      by (intro exI [of _ "if ret < 0 then ret else SUCCESS"] exI [of _ t] exI [of _ X']) (simp add: SUCCESS_def)
  qed
qed

lemma run_cmd_sys:
  assumes I: "sys_inv s R A F H X bs"
    and rq: "\<And>d n. fst (request_threaded_irq K d n) \<le> 0" and run: "run = ADC_RUN \<or> run = ADC_STOP"
  shows "\<exists>ret t R' A' F' X' bs'. ads131m08_run_cmd K run s = Some (ret, t) \<and> sys_inv t R' A' F' H X' bs' \<and>
    ret \<le> 0 \<and> mset X' = mset X \<and> open_cnt t = open_cnt s \<and> chunk_sz t = chunk_sz s \<and> (run = ADC_STOP \<longrightarrow> run_stat t = ADC_STOP) \<and>
    (R' = R \<and> A' = A \<and> bs' = bs \<or> R' = [] \<and> A' = [] \<and> run_stat t \<noteq> run_stat s)"
proof -
  have ne: "ADC_RUN \<noteq> ADC_STOP" by (simp add: ADC_RUN_def ADC_STOP_def)
  have "run_stat s = ADC_RUN \<or> run_stat s = ADC_STOP" using I by (auto simp: sys_inv_def)
  with run consider "run_stat s = run" | "run_stat s = ADC_RUN" "run = ADC_STOP" | "run_stat s = ADC_STOP" "run = ADC_RUN" by auto
  then show ?thesis
  proof cases
    case 1
    then have "ads131m08_run_cmd K run s = Some (0, s)" by (simp add: ads131m08_run_cmd_def ads131m08_run_stat_def SUCCESS_def)
    with I 1 show ?thesis by auto
  next
    case 2
    from run_cmd_stop_sys [OF I 2(1), of K] 2 ne show ?thesis by metis
  next
    case 3
    from run_cmd_start_sys [OF I rq 3(1)] 3 ne show ?thesis by metis
  qed
qed

section \<open>Histories of samples\<close>

text \<open>Two histories that only grow, from probe on. \<open>sent\<close>: every sample that the interrupt thread has
  clocked out of the device, \<open>Stored\<close> in a chunk or, for want of one, \<open>Dropped\<close>. \<open>gone\<close>: every stored
  sample that has left the ready and the active list, \<open>Fetched\<close> by a reader or \<open>Discarded\<close> by a start
  or stop.\<close>

datatype arrival = Stored | Dropped

datatype leave = Fetched | Discarded

definition with_fate :: "'f \<Rightarrow> ('f \<times> smpl) list \<Rightarrow> smpl list" where
  "with_fate f h = map snd (filter (\<lambda>e. fst e = f) h)"

lemma with_fate_simps [simp]:
  "with_fate f [] = []" "with_fate f (h @ h') = with_fate f h @ with_fate f h'"
  "with_fate f ((g, m) # h) = (if g = f then [m] else []) @ with_fate f h"
  "with_fate f (map (Pair g) ms) = (if g = f then ms else [])"
  by (simp_all add: with_fate_def filter_map comp_def)

lemma snd_Pair [simp]: "snd \<circ> Pair f = id"
  by auto

text \<open>The sample that the device sends in the transfer of the interrupt thread, if it succeeds.\<close>

definition clocked_out :: "'d kenv \<Rightarrow> arrival \<Rightarrow> 'd drv \<Rightarrow> (arrival \<times> smpl) list" where
  "clocked_out K f s =
     (case spi_sync_transfer K (dev s) (replicate 30 0) of (ret, rxd, d) \<Rightarrow>
        if ret < 0 then [] else [(f, \<lparr>s_ts = smpl_ts s, s_data = frame_smpl rxd\<rparr>)])"

lemma clocked_out_fate [simp]:
  "f \<noteq> g \<Longrightarrow> with_fate g (clocked_out K f s) = []" "with_fate f (clocked_out K f s) = map snd (clocked_out K f s)"
  by (simp_all add: clocked_out_def split: prod.split)

text \<open>The samples in the chunks of a list, as they are in memory.\<close>

definition on_list :: "lid \<Rightarrow> 'd drv \<Rightarrow> smpl list" where
  "on_list l s =
     (case list_foreach (Some l) None s of
        None \<Rightarrow> []
      | Some obs \<Rightarrow> concat (map (\<lambda>ob. case Option.bind (as_chunk ob) (\<lambda>b. get_buf b s) of None \<Rightarrow> [] | Some c \<Rightarrow> taken c) obs))"

text \<open>What is on the ready and on the active list, in memory and in the abstraction.\<close>

lemma on_list_ok:
  assumes I: "data_inv s R A F H X bs"
  shows "on_list ReadyL s = pending bs R []" "on_list ActiveL s = pending bs [] A"
proof -
  have H: "heap_rep s (drv_lists R A F X)" using I by (simp add: data_inv_def)
  have c: "map (\<lambda>b. case get_buf b s of None \<Rightarrow> [] | Some c \<Rightarrow> taken c) B = map (\<lambda>b. taken (bs ! b)) B"
    if "set B \<subseteq> set R \<union> set A" for B
    using that data_get_buf(1) [OF I] by (intro map_cong) auto
  show "on_list ReadyL s = pending bs R []" using rep_foreach [OF H, of ReadyL] by (simp add: on_list_def pending_def comp_def c)
  show "on_list ActiveL s = pending bs [] A" using rep_foreach [OF H, of ActiveL] by (simp add: on_list_def pending_def comp_def c)
qed

end
