(* ===== verification/Iface.thy ===== *)
theory Iface
  imports Acquire
begin

text \<open>
  The character device of \<open>src/ads131m08_iface.c\<close>: open, release, read, write, poll, ioctl,
  the \<open>/proc\<close> file, and the registration of all that.
\<close>

section \<open>The proc file\<close>

definition proc_show :: "'d drv \<Rightarrow> (int \<times> seq_line list) option" where
  "proc_show s = map_option (\<lambda>ls. (0, ls)) (ads131m08_data_buf_seq_show s)"

definition proc_file_init :: "'d kenv \<Rightarrow> 'd drv \<Rightarrow> int \<times> 'd drv" where
  "proc_file_init K s =
     (case kcall (proc_create K) s of (ok, s) \<Rightarrow>
        let s = s\<lparr>proc_file := ok\<rparr> in
        if ok then (SUCCESS, log_ev KProcCreate s) else (FAIL, s))"

definition proc_file_exit :: "'d drv \<Rightarrow> 'd drv" where
  "proc_file_exit s = (if proc_file s then log_ev KProcRemove s else s)"

section \<open>Open, release, read, write, poll\<close>

definition ads131m08_open_stat :: "'d drv \<Rightarrow> int" where
  "ads131m08_open_stat s = open_cnt s"

definition ads131m08_open :: "'d drv \<Rightarrow> int \<times> 'd drv" where
  "ads131m08_open s = (if open_cnt s \<noteq> 0 then (- EBUSY, s) else (0, s\<lparr>open_cnt := 1\<rparr>))"

definition ads131m08_release :: "'d kenv \<Rightarrow> 'd drv \<Rightarrow> (int \<times> 'd drv) option" where
  "ads131m08_release K s = do {
     (_, s) \<leftarrow> ads131m08_run_cmd K ADC_STOP s;
     Some (0, s\<lparr>open_cnt := 0\<rparr>) }"

definition SMPL_SIZE :: nat where "SMPL_SIZE = 40"

text \<open>The condition the reader sleeps on.\<close>

definition wait_cond :: "'d drv \<Rightarrow> bool option" where
  "wait_cond s = do {
     (n, _, _) \<leftarrow> ads131m08_data_smpl_cnt False False s;
     Some (n > 0 \<or> ads131m08_run_stat s = ADC_STOP) }"

text \<open>\<open>wait_event_interruptible\<close> evaluates its condition at the call and after each wake-up;
  while it is false, a pending signal ends the wait with -ERESTARTSYS. An element \<open>(w, v)\<close> of
  the list is one evaluation: \<open>w\<close> is what other contexts do to the state before it and whether
  a signal is pending, \<open>v\<close> what they do between a true condition and the fetch. A read whose
  list runs out is still asleep.\<close>

datatype read_out = RBlocked | RReturn int | RGot obj

fun read_loop ::
  "(('d drv \<Rightarrow> bool \<times> 'd drv) \<times> ('d drv \<Rightarrow> 'd drv)) list \<Rightarrow> 'd drv \<Rightarrow> (read_out \<times> 'd drv) option" where
  "read_loop [] s = Some (RBlocked, s)"
| "read_loop ((w, v) # ws) s =
     (case w s of (sig, s) \<Rightarrow> do {
        c \<leftarrow> wait_cond s;
        (if c then do {
           (ready_buf, s) \<leftarrow> ads131m08_data_get (v s);
           (case ready_buf of
              Some ob \<Rightarrow> Some (RGot ob, s)
            | None \<Rightarrow>
                if ads131m08_run_stat s = ADC_STOP then Some (RReturn 0, s) else read_loop ws s) }
         else if sig then Some (RReturn (- EINTR), s) else read_loop ws s) })"

text \<open>\<open>min_t (size_t, n, i)\<close>: a negative \<open>i\<close> is a huge \<open>size_t\<close>.\<close>

definition min_size :: "nat \<Rightarrow> int \<Rightarrow> nat" where
  "min_size n i = (if i < 0 then n else min n (nat i))"

definition read_copy :: "'d kenv \<Rightarrow> nat \<Rightarrow> obj \<Rightarrow> 'd drv \<Rightarrow> (int \<times> 'd drv) option" where
  "read_copy K cnt ob s = do {
     b \<leftarrow> as_chunk ob;
     c \<leftarrow> get_buf b s;
     let n = min_size (cnt div SMPL_SIZE) (c_idx c);
     (if n \<le> length (c_data c) then do {
        let (ok, s) = kcall (\<lambda>d. copy_smpls_to_user K d (take n (c_data c))) s;
        let ret = (if ok then int (n * SMPL_SIZE) else - EFAULT);
        s \<leftarrow> ads131m08_data_return (Some ob) s;
        Some (ret, s) }
      else None) }"

definition ads131m08_read ::
  "'d kenv \<Rightarrow> (('d drv \<Rightarrow> bool \<times> 'd drv) \<times> ('d drv \<Rightarrow> 'd drv)) list \<Rightarrow> nat \<Rightarrow> 'd drv
     \<Rightarrow> (read_out \<times> 'd drv) option" where
  "ads131m08_read K ws cnt s =
     (if cnt < SMPL_SIZE then Some (RReturn (- EINVAL), s)
      else do {
        (r, s) \<leftarrow> read_loop ws s;
        (case r of
           RGot ob \<Rightarrow> do { (ret, s) \<leftarrow> read_copy K cnt ob s; Some (RReturn ret, s) }
         | _ \<Rightarrow> Some (r, s)) })"

definition ads131m08_write :: "'d drv \<Rightarrow> int \<times> 'd drv" where
  "ads131m08_write s = (- EINVAL, s)"

definition POLLIN :: "32 word" where "POLLIN = 0x0001"
definition POLLRDNORM :: "32 word" where "POLLRDNORM = 0x0040"

definition ads131m08_poll :: "'d drv \<Rightarrow> (32 word) option" where
  "ads131m08_poll s = do {
     (n, _, _) \<leftarrow> ads131m08_data_smpl_cnt False False s;
     Some (if n > 0 then 0 OR (POLLIN OR POLLRDNORM) else 0) }"

section \<open>Ioctl\<close>

text \<open>\<open>struct ads_ioctl_reg\<close> is an array of 16-bit words: start address, count, data. The
  header is fetched from user memory twice. \<open>kernel_data\<close> lives in the call only; every
  path frees it.\<close>

definition ioctl_reg_call ::
  "'d kenv \<Rightarrow> u64 \<Rightarrow> bool
     \<Rightarrow> (byte \<Rightarrow> int \<Rightarrow> u16 list \<Rightarrow> 'd drv \<Rightarrow> (int \<times> u16 list \<times> 'd drv) option)
     \<Rightarrow> u16 list \<Rightarrow> 'd drv \<Rightarrow> (int \<times> 'd drv) option" where
  "ioctl_reg_call K arg read_reg reg_func kernel_data s = do {
     (ret, regs, s) \<leftarrow> reg_func (ucast (kernel_data ! 0)) (uint (kernel_data ! 1)) (drop 2 kernel_data) s;
     (if ret < 0 then Some (ret, s)
      else if read_reg then
        (if unat (kernel_data ! 1) \<le> length regs then
           (case kcall (\<lambda>d. copy_to_user K d (arg + 4) (take (unat (kernel_data ! 1)) regs)) s of
              (ok, s) \<Rightarrow> if ok then Some (0, s) else Some (- EFAULT, s))
         else None)
      else Some (0, s)) }"

definition ioctl_reg ::
  "'d kenv \<Rightarrow> u64 \<Rightarrow> bool
     \<Rightarrow> (byte \<Rightarrow> int \<Rightarrow> u16 list \<Rightarrow> 'd drv \<Rightarrow> (int \<times> u16 list \<times> 'd drv) option)
     \<Rightarrow> 'd drv \<Rightarrow> (int \<times> 'd drv) option" where
  "ioctl_reg K arg read_reg reg_func s =
     (case kcall (\<lambda>d. copy_from_user K d arg 2) s of
        (None, s) \<Rightarrow> Some (- EFAULT, s)
      | (Some user_hdr, s) \<Rightarrow>
          let reg_count = unat (user_hdr 1) in
          if reg_count = 0 \<or> reg_count > 1024 then Some (- EINVAL, s)
          else if \<not> access_ok K (dev s) arg (4 + 2 * reg_count) then Some (- EFAULT, s)
          else
            (case kcall (kzalloc K) s of (ok, s) \<Rightarrow>
              if \<not> ok then Some (- ENOMEM, s)
              else
                let n = (if read_reg then 2 else 2 + reg_count) in
                (case kcall (\<lambda>d. copy_from_user K d arg n) s of
                   (None, s) \<Rightarrow> Some (- EFAULT, s)
                 | (Some src, s) \<Rightarrow>
                     ioctl_reg_call K arg read_reg reg_func
                       (map src [0..<n] @ replicate (2 + reg_count - n) 0) s)))"

definition ioctl_rreg :: "'d kenv \<Rightarrow> u64 \<Rightarrow> 'd drv \<Rightarrow> (int \<times> 'd drv) option" where
  "ioctl_rreg K arg s = ioctl_reg K arg True (ads131m08_reg_read K) s"

definition ioctl_wreg :: "'d kenv \<Rightarrow> u64 \<Rightarrow> 'd drv \<Rightarrow> (int \<times> 'd drv) option" where
  "ioctl_wreg K arg s = ioctl_reg K arg False (ads131m08_reg_write K) s"

definition ioctl_chunk_sz :: "u64 \<Rightarrow> 'd drv \<Rightarrow> (int \<times> 'd drv) option" where
  "ioctl_chunk_sz sz s =
     (if ads131m08_run_stat s = ADC_RUN then Some (- EBUSY, s)
      else do {
        s \<leftarrow> (if sz > 0 then ads131m08_data_resize_chunk_buf (c_int_of_ulong sz) s else Some s);
        Some (ads131m08_data_get_chunk_sz s, s) })"

definition cmd_reset :: "'d kenv \<Rightarrow> 'd drv \<Rightarrow> (int \<times> 'd drv) option" where
  "cmd_reset K s = do {
     (ret, s) \<leftarrow> ads131m08_cmd_reset K s;
     (if ret < 0 then Some (ret, s) else ads131m08_cmd_standby K s) }"

definition cmd_stat :: "'d kenv \<Rightarrow> u64 \<Rightarrow> 'd drv \<Rightarrow> (int \<times> 'd drv) option" where
  "cmd_stat K arg s =
     (let stat = c_int_of_ulong arg in
      if stat = 0 \<or> stat = 1 then ads131m08_run_cmd K stat s
      else Some (ads131m08_run_stat s, s))"

text \<open>The request numbers of \<open>src/ads131m08_ioctl.h\<close> are pairwise distinct; any other number
  is \<open>IOC_other\<close>.\<close>

datatype ioctl_nr =
    CMD_RESET_nr | CMD_LOCK_nr | CMD_UNLOCK_nr | CMD_WAKEUP_nr | CMD_STANDBY_nr
  | CMD_RREG_nr | CMD_WREG_nr | CMD_CHUNK_SZ_nr | CMD_STAT_nr | IOC_other nat

fun ads131m08_ioctl_allowed_while_running :: "ioctl_nr \<Rightarrow> bool" where
  "ads131m08_ioctl_allowed_while_running CMD_STANDBY_nr = True"
| "ads131m08_ioctl_allowed_while_running CMD_STAT_nr = True"
| "ads131m08_ioctl_allowed_while_running _ = False"

definition ads131m08_ioctl :: "'d kenv \<Rightarrow> ioctl_nr \<Rightarrow> u64 \<Rightarrow> 'd drv \<Rightarrow> (int \<times> 'd drv) option" where
  "ads131m08_ioctl K cmd arg s =
     (if ads131m08_run_stat s = ADC_RUN \<and> \<not> ads131m08_ioctl_allowed_while_running cmd
      then Some (- EBUSY, s)
      else
        (case cmd of
           CMD_RESET_nr \<Rightarrow> cmd_reset K s
         | CMD_STANDBY_nr \<Rightarrow> ads131m08_run_cmd K ADC_STOP s
         | CMD_WAKEUP_nr \<Rightarrow> ads131m08_run_cmd K ADC_RUN s
         | CMD_LOCK_nr \<Rightarrow> ads131m08_cmd_lock K s
         | CMD_UNLOCK_nr \<Rightarrow> ads131m08_cmd_unlock K s
         | CMD_RREG_nr \<Rightarrow> ioctl_rreg K arg s
         | CMD_WREG_nr \<Rightarrow> ioctl_wreg K arg s
         | CMD_CHUNK_SZ_nr \<Rightarrow> ioctl_chunk_sz arg s
         | CMD_STAT_nr \<Rightarrow> cmd_stat K arg s
         | IOC_other _ \<Rightarrow> Some (- ENOTTY, s)))"

section \<open>Registration\<close>

definition fops_init :: "'d kenv \<Rightarrow> 'd drv \<Rightarrow> int \<times> 'd drv" where
  "fops_init K s =
     (case kcall (alloc_chrdev_region K) s of (ret, s) \<Rightarrow>
        if ret < 0 then (ret, s)
        else
          case kcall (cdev_add K) (log_ev KAllocRegion s) of (ret, s) \<Rightarrow>
          if ret < 0 then (ret, log_ev KUnregRegion s)
          else
            case kcall (class_create K) (log_ev KCdevAdd s) of (cl, s) \<Rightarrow>
            let s = s\<lparr>data_cl := (cl \<noteq> 0)\<rparr> in
            if cl < 0 then (cl, log_ev KUnregRegion (log_ev KCdevDel s))
            else
              case kcall (device_create K) (log_ev KClassCreate s) of (dev_ret, s) \<Rightarrow>
              if dev_ret < 0
              then (dev_ret, log_ev KUnregRegion (log_ev KCdevDel (log_ev KClassDestroy s)))
              else (SUCCESS, log_ev KDevCreate s))"

definition fops_exit :: "'d drv \<Rightarrow> 'd drv" where
  "fops_exit s =
     (if \<not> ads131m08_data s \<or> \<not> data_cl s then s
      else log_ev KUnregRegion (log_ev KCdevDel (log_ev KClassDestroy (log_ev KDevDestroy s))))"

definition ads131m08_iface_init :: "'d kenv \<Rightarrow> 'd drv \<Rightarrow> int \<times> 'd drv" where
  "ads131m08_iface_init K s =
     (case proc_file_init K (s\<lparr>open_cnt := 0\<rparr>) of (ret, s) \<Rightarrow>
        if ret < 0 then (FAIL, s)
        else
          case fops_init K s of (ret, s) \<Rightarrow>
          if ret < 0 then (FAIL, proc_file_exit s) else (SUCCESS, s))"

definition ads131m08_iface_exit :: "'d drv \<Rightarrow> 'd drv" where
  "ads131m08_iface_exit s = fops_exit (proc_file_exit s)"

section \<open>Reading a chunk\<close>

lemma read_copy_ok:
  fixes cnt :: nat
  assumes I: "drv_inv s R A F (b # H) X bs"
  defines "n \<equiv> min (cnt div SMPL_SIZE) (nat (c_idx (bs ! b)))"
  assumes cp: "copy_smpls_to_user K (dev s) (take n (taken (bs ! b))) = (ok, d)"
  shows "\<exists>t. read_copy K cnt (Chunk b) s = Some (if ok then int (n * SMPL_SIZE) else - EFAULT, t) \<and>
    drv_inv t R A (F @ [b]) H X (bs[b := reset_buf (bs ! b)]) \<and> drv_step s X [] t X \<and> dev t = d"
proof -
  have D: "data_inv s R A F (b # H) (Some X) bs" using I by (simp add: drv_inv_def)
  have g: "get_buf b s = Some (bs ! b)" and ok: "buf_ok (chunk_sz s) (bs ! b)"
    using data_get_buf [OF D, of b] by simp_all
  have "chunk_sz s \<le> 320" using D by (simp add: data_inv_def bufs_ok_def MAX_CHUNK_SZ_def)
  with ok have len: "nat (c_idx (bs ! b)) \<le> length (c_data (bs ! b))" "0 \<le> c_idx (bs ! b)"
    by (auto simp: buf_ok_def MAX_CHUNK_SZ_def)
  then have n: "min_size (cnt div SMPL_SIZE) (c_idx (bs ! b)) = n" "n \<le> length (c_data (bs ! b))"
    by (simp_all add: min_size_def n_def)
  have tk: "take n (c_data (bs ! b)) = take n (taken (bs ! b))" by (simp add: taken_def n_def)
  let ?s = "s\<lparr>dev := d\<rparr>"
  have I1: "data_inv ?s R A F (b # H) (Some X) bs" using D by (simp add: data_inv_def)
  from data_return_ok [OF I1] obtain t where t: "ads131m08_data_return (Some (Chunk b)) ?s = Some t"
    "data_inv t R A (F @ [b]) H (Some X) (bs[b := reset_buf (bs ! b)])" "buf_step ?s [] t" by blast
  have "read_copy K cnt (Chunk b) s = Some (if ok then int (n * SMPL_SIZE) else - EFAULT, t)"
    using g n cp tk t(1) by (simp add: read_copy_def kcall_def Let_def)
  moreover have "drv_inv t R A (F @ [b]) H X (bs[b := reset_buf (bs ! b)])"
    using t I ctl_fields(5) [of t ?s] by (simp add: drv_inv_def buf_step_def)
  ultimately show ?thesis using t(3) by (simp add: drv_step_def buf_step_def)
qed

lemma wait_cond_ok:
  assumes I: "drv_inv s R A F H X bs"
  shows "wait_cond s = Some (R \<noteq> [] \<or> run_stat s = ADC_STOP)"
proof -
  have "data_inv s R A F H (Some X) bs" using I by (simp add: drv_inv_def)
  from data_smpl_cnt_ok [OF this, of False False] show ?thesis
    by (simp add: wait_cond_def ads131m08_run_stat_def)
qed

text \<open>One evaluation of the condition: asleep, or awake and fetching.\<close>

lemma read_asleep:
  assumes I: "drv_inv s [] A F H X bs" and run: "run_stat s \<noteq> ADC_STOP" and w: "w z = (sig, s)"
  shows "read_loop ((w, v) # ws) z = (if sig then Some (RReturn (- EINTR), s) else read_loop ws s)"
  using wait_cond_ok [OF I] run w by simp

lemma read_awake:
  assumes c: "wait_cond s = Some True" and w: "w z = (sig, s)" and I: "drv_inv (v s) R A F H X bs"
  shows "R = b # R' \<Longrightarrow> \<exists>t. read_loop ((w, v) # ws) z = Some (RGot (Chunk b), t) \<and>
      drv_inv t R' A F (b # H) X bs \<and> drv_step (v s) X [] t X \<and> dev t = dev (v s)"
    and "R = [] \<Longrightarrow> read_loop ((w, v) # ws) z
      = (if run_stat (v s) = ADC_STOP then Some (RReturn 0, v s) else read_loop ws (v s))"
proof -
  have D: "data_inv (v s) R A F H (Some X) bs" using I by (simp add: drv_inv_def)
  {
    assume *: "R = b # R'"
    from data_get_ok(1) [OF D *] obtain t where t: "ads131m08_data_get (v s) = Some (Some (Chunk b), t)"
      "data_inv t R' A F (b # H) (Some X) bs" "buf_step (v s) [] t" by blast
    with I w c ctl_fields(5) [of t "v s"] show "\<exists>t. read_loop ((w, v) # ws) z = Some (RGot (Chunk b), t) \<and>
      drv_inv t R' A F (b # H) X bs \<and> drv_step (v s) X [] t X \<and> dev t = dev (v s)"
      by (auto simp: drv_inv_def buf_step_def drv_step_def)
  next
    assume *: "R = []"
    with data_get_ok(2) [OF D *] w c show "read_loop ((w, v) # ws) z
      = (if run_stat (v s) = ADC_STOP then Some (RReturn 0, v s) else read_loop ws (v s))"
      by (simp add: ads131m08_run_stat_def)
  }
qed

lemma pending_reset:
  assumes I: "drv_inv s R A F H X bs" and b: "b \<in> set H"
  shows "pending (bs[b := c]) R A = pending bs R A"
proof (rule pending_cong)
  fix x assume "x \<in> set R \<union> set A"
  moreover have "owned R A F H" using I by (simp add: drv_inv_def data_inv_def)
  from owned_lt(2) [OF this] b have "b \<notin> set R" "b \<notin> set A" by auto
  ultimately have "b \<noteq> x" by auto
  then show "taken (bs[b := c] ! x) = taken (bs ! x)" by simp
qed

text \<open>A read that finds a ready chunk.\<close>

lemma read_ok:
  assumes I: "drv_inv s (b # R) A F H X bs" and w: "w z = (sig, y)" "wait_cond y = Some True" "v y = s"
    and cnt: "SMPL_SIZE \<le> cnt"
  defines "n \<equiv> min (cnt div SMPL_SIZE) (nat (chunk_sz s))"
  assumes cp: "copy_smpls_to_user K (dev s) (take n (pending bs (b # R) A)) = (ok, d)"
  shows "\<exists>t. ads131m08_read K ((w, v) # ws) cnt z = Some (RReturn (if ok then int (n * SMPL_SIZE) else - EFAULT), t) \<and>
    drv_inv t R A (F @ [b]) H X (bs[b := reset_buf (bs ! b)]) \<and>
    pending (bs[b := reset_buf (bs ! b)]) R A = drop (nat (chunk_sz s)) (pending bs (b # R) A) \<and>
    drv_step s X [] t X \<and> dev t = d"
proof -
  have B: "bufs_ok (chunk_sz s) bs (b # R) A F" and O: "owned (b # R) A F H"
    using I by (simp_all add: drv_inv_def data_inv_def)
  have idx: "c_idx (bs ! b) = chunk_sz s" using B by (simp add: bufs_ok_def ready_ok_def)
  from read_awake(1) [where w = w and v = v and z = z and s = y, OF w(2,1), of "b # R" A F H X bs b R ws] I w obtain t1 where
    t1: "read_loop ((w, v) # ws) z = Some (RGot (Chunk b), t1)" "drv_inv t1 R A F (b # H) X bs"
      "drv_step s X [] t1 X" "dev t1 = dev s" by auto
  have "b < CHUNK_BUF_CNT" using owned_lt(1) [OF O] by auto
  then have "buf_ok (chunk_sz s) (bs ! b)" and "chunk_sz s \<le> MAX_CHUNK_SZ" using B by (auto simp: bufs_ok_def)
  then have lt: "length (taken (bs ! b)) = nat (chunk_sz s)" by (simp add: taken_def buf_ok_def idx)
  have tk: "take n (pending bs (b # R) A) = take n (taken (bs ! b))" by (simp add: n_def lt)
  have cp1: "copy_smpls_to_user K (dev t1)
      (take (min (cnt div SMPL_SIZE) (nat (c_idx (bs ! b)))) (taken (bs ! b))) = (ok, d)"
    unfolding idx t1(4) n_def [symmetric] by (rule cp [unfolded tk])
  from read_copy_ok [OF t1(2) cp1] obtain t where
    t: "read_copy K cnt (Chunk b) t1 = Some (if ok then int (n * SMPL_SIZE) else - EFAULT, t)"
      "drv_inv t R A (F @ [b]) H X (bs[b := reset_buf (bs ! b)])" "drv_step t1 X [] t X" "dev t = d"
    by (auto simp: idx n_def)
  have "ads131m08_read K ((w, v) # ws) cnt z = Some (RReturn (if ok then int (n * SMPL_SIZE) else - EFAULT), t)"
    using t1(1) t(1) cnt by (simp add: ads131m08_read_def)
  moreover have "pending (bs[b := reset_buf (bs ! b)]) R A = drop (nat (chunk_sz s)) (pending bs (b # R) A)"
    using pending_reset [OF t1(2), of b] lt by simp
  ultimately show ?thesis using t drv_step_trans [OF t1(3) t(3)] by auto
qed

section \<open>Register access\<close>

lemma reg_read_drv:
  assumes I: "drv_inv s R A F H X bs" and up: "spi_hdlr s"
    and cnt: "1 \<le> cnt" "cnt \<le> 1024" "nat cnt \<le> length ret_reg"
  shows "\<exists>ret regs t X' evs. ads131m08_reg_read K a cnt ret_reg s = Some (ret, regs, t) \<and>
    drv_inv t R A F H X' bs \<and> drv_step s X evs t X' \<and>
    (0 \<le> ret \<longrightarrow> length regs = length ret_reg) \<and> (680 < cnt \<longrightarrow> ret < 0)"
proof -
  have P: "xfer_pool s (drv_lists R A F (Some X)) X" "X \<noteq> []"
    using I by (simp_all add: drv_inv_pool) (simp add: drv_inv_def)
  let ?f = "trx_frame (reg_cmd CMD_RREG a cnt) [] 10"
  obtain r1 rx1 d1 where io1: "spi_sync_transfer K (dev s) ?f = (r1, rx1, d1)"
    by (cases "spi_sync_transfer K (dev s) ?f")
  show ?thesis
  proof (cases "cnt \<le> 680")
    case True
    obtain r2 rx2 d2 where io2: "spi_sync_transfer K d1 (trx_frame CMD_NULL [] (nat cnt + 2)) = (r2, rx2, d2)"
      by (cases "spi_sync_transfer K d1 (trx_frame CMD_NULL [] (nat cnt + 2))")
    from reg_read_ok [OF P up cnt(1) True cnt(3) io1 io2] obtain t ys evs where
      t: "ads131m08_reg_read K a cnt ret_reg s =
        Some (if r1 < 0 then (r1, ret_reg, t) else if r2 < 0 then (r2, ret_reg, t)
            else (r2, (if cnt = 1 then [dec_word (rx2 0) (rx2 1)] else rx_words rx2 (nat cnt))
                        @ drop (nat cnt) ret_reg, t))"
      and ps: "pool_step s (drv_lists R A F (Some X)) X evs t ys" by blast
    from pool_step_drv [OF I ps] t True cnt show ?thesis by (auto simp: rx_words_def)
  next
    case False
    have "trx_words 0 8 = 10" by (simp add: trx_words_def)
    with adc_trx_ok [OF P up, of 0 8 "[]" None None K "reg_cmd CMD_RREG a cnt" r1 rx1 d1] io1 obtain t ys where
      t: "adc_trx K (reg_cmd CMD_RREG a cnt) [] 0 None 8 None s
        = Some (r1, if r1 < 0 then None else Some (dec_word (rx1 0) (rx1 1)), None, t)"
      and ps: "pool_step s (drv_lists R A F (Some X)) X [KSpi ?f] t ys"
      by (auto simp: trx_rx_def)
    from pool_step_drv [OF I ps] have D: "drv_inv t R A F H ys bs" "drv_step s X [KSpi ?f] t ys" by simp_all
    then have "spi_hdlr t" using up ctl_fields(11) [of t s] by (simp add: drv_step_def)
    from adc_trx_toolong [OF this, of 0 cnt K CMD_NULL "[]" "Some ret_reg" "Some frame2word"] False cnt
    have "adc_trx K CMD_NULL [] 0 (Some ret_reg) cnt (Some frame2word) t = Some (- EINVAL, None, Some ret_reg, t)"
      by simp
    with t have "ads131m08_reg_read K a cnt ret_reg s
        = Some (if r1 < 0 then (r1, ret_reg, t) else (- EINVAL, ret_reg, t))"
      by (simp add: ads131m08_reg_read_def ADC_CH_NUM_def EINVAL_def)
    with D show ?thesis by (auto simp: EINVAL_def)
  qed
qed

lemma reg_write_drv:
  assumes I: "drv_inv s R A F H X bs" and up: "spi_hdlr s"
    and cnt: "1 \<le> cnt" "cnt \<le> 1024" "nat cnt \<le> length vals"
  shows "\<exists>ret t X' evs. ads131m08_reg_write K a cnt vals s = Some (ret, vals, t) \<and>
    drv_inv t R A F H X' bs \<and> drv_step s X evs t X' \<and> (680 < cnt \<longrightarrow> ret < 0)"
proof (cases "cnt \<le> 680")
  case True
  have P: "xfer_pool s (drv_lists R A F (Some X)) X" "X \<noteq> []"
    using I by (simp_all add: drv_inv_pool) (simp add: drv_inv_def)
  let ?f = "trx_frame (reg_cmd CMD_WREG a cnt) (take (nat cnt) vals) (nat cnt + 2)"
  obtain r1 rx1 d1 where io1: "spi_sync_transfer K (dev s) ?f = (r1, rx1, d1)"
    by (cases "spi_sync_transfer K (dev s) ?f")
  obtain r2 rx2 d2 where io2: "spi_sync_transfer K d1 (trx_frame CMD_NULL [] 1) = (r2, rx2, d2)"
    by (cases "spi_sync_transfer K d1 (trx_frame CMD_NULL [] 1)")
  from reg_write_ok [OF P up cnt(1) True cnt(3) io1 io2] obtain t ys evs where
    t: "ads131m08_reg_write K a cnt vals s = Some (if r1 < 0 then (r1, vals, t) else (r2, vals, t))"
    and ps: "pool_step s (drv_lists R A F (Some X)) X evs t ys" by blast
  from pool_step_drv [OF I ps] t True show ?thesis by auto
next
  case False
  from adc_trx_toolong [OF up, of cnt 0 K "reg_cmd CMD_WREG a cnt" vals None None] False cnt
  have "ads131m08_reg_write K a cnt vals s = Some (- EINVAL, vals, s)"
    by (simp add: ads131m08_reg_write_def EINVAL_def)
  moreover have "drv_step s X [] s X" by (simp add: drv_step_def)
  ultimately show ?thesis using I by (auto simp: EINVAL_def)
qed

text \<open>User memory that another thread does not rewrite between the two fetches of the header.\<close>

definition fetch_stable :: "'d kenv \<Rightarrow> bool" where
  "fetch_stable K \<longleftrightarrow> (\<forall>d arg h d1 ok d2 n src d3.
     copy_from_user K d arg 2 = (Some h, d1) \<longrightarrow> kzalloc K d1 = (ok, d2) \<longrightarrow>
     copy_from_user K d2 arg n = (Some src, d3) \<longrightarrow> src 1 = h 1)"

text \<open>What \<open>ioctl_reg\<close> needs of its register function.\<close>

definition reg_func_ok ::
  "(byte \<Rightarrow> int \<Rightarrow> u16 list \<Rightarrow> 'd drv \<Rightarrow> (int \<times> u16 list \<times> 'd drv) option) \<Rightarrow> bool" where
  "reg_func_ok f \<longleftrightarrow> (\<forall>a cnt rs s R A F H X bs. drv_inv s R A F H X bs \<longrightarrow> spi_hdlr s \<longrightarrow> 1 \<le> cnt \<longrightarrow>
     cnt \<le> 1024 \<longrightarrow> nat cnt \<le> length rs \<longrightarrow>
     (\<exists>ret regs t X' evs. f a cnt rs s = Some (ret, regs, t) \<and> drv_inv t R A F H X' bs \<and>
        drv_step s X evs t X' \<and> (0 \<le> ret \<longrightarrow> length regs = length rs)))"

lemma reg_func_ok_read:
  fixes K :: "'d kenv"
  shows "reg_func_ok (ads131m08_reg_read K)"
  unfolding reg_func_ok_def
proof (intro allI impI)
  fix a and cnt :: int and rs :: "u16 list" and s :: "'d drv" and R A F H X bs
  assume "drv_inv s R A F H X bs" "spi_hdlr s" "1 \<le> cnt" "cnt \<le> (1024::int)" "nat cnt \<le> length rs"
  from reg_read_drv [OF this, of K a] show "\<exists>ret regs t X' evs.
      ads131m08_reg_read K a cnt rs s = Some (ret, regs, t) \<and> drv_inv t R A F H X' bs \<and>
      drv_step s X evs t X' \<and> (0 \<le> ret \<longrightarrow> length regs = length rs)"
    by metis
qed

lemma reg_func_ok_write:
  fixes K :: "'d kenv"
  shows "reg_func_ok (ads131m08_reg_write K)"
  unfolding reg_func_ok_def
proof (intro allI impI)
  fix a and cnt :: int and rs :: "u16 list" and s :: "'d drv" and R A F H X bs
  assume "drv_inv s R A F H X bs" "spi_hdlr s" "1 \<le> cnt" "cnt \<le> (1024::int)" "nat cnt \<le> length rs"
  from reg_write_drv [OF this, of K a] show "\<exists>ret regs t X' evs.
      ads131m08_reg_write K a cnt rs s = Some (ret, regs, t) \<and> drv_inv t R A F H X' bs \<and>
      drv_step s X evs t X' \<and> (0 \<le> ret \<longrightarrow> length regs = length rs)"
    by metis
qed

lemma reg_func_okD:
  assumes "reg_func_ok f" "drv_inv s R A F H X bs" "spi_hdlr s" "1 \<le> cnt" "cnt \<le> 1024" "nat cnt \<le> length rs"
  shows "\<exists>ret regs t X' evs. f a cnt rs s = Some (ret, regs, t) \<and> drv_inv t R A F H X' bs \<and>
    drv_step s X evs t X' \<and> (0 \<le> ret \<longrightarrow> length regs = length rs)"
  by (rule assms(1) [unfolded reg_func_ok_def, rule_format, OF assms(2-6)])

lemma kcall_split: "kcall f s = (r, t) \<longleftrightarrow> (\<exists>d. f (dev s) = (r, d) \<and> t = s\<lparr>dev := d\<rparr>)"
  by (cases "f (dev s)") (auto simp: kcall_def)

lemma drv_step_dev [simp]: "drv_step (s\<lparr>dev := d\<rparr>) X evs t X' = drv_step s X evs t X'"
  by (simp add: drv_step_def)

text \<open>The call and the copy back, from a request with as many registers as its header says.\<close>

lemma ioctl_reg_call_drv:
  assumes I: "drv_inv s R A F H X bs" "spi_hdlr s" and f: "reg_func_ok f"
    and n: "1 \<le> unat (kd ! 1)" "unat (kd ! 1) \<le> 1024" and len: "length kd = 2 + unat (kd ! 1)"
  shows "\<exists>ret t X' evs. ioctl_reg_call K arg rd f kd s = Some (ret, t) \<and> drv_inv t R A F H X' bs \<and> drv_step s X evs t X'"
proof -
  have u: "uint (kd ! 1) = int (unat (kd ! 1))" by (rule uint_nat)
  have "1 \<le> uint (kd ! 1)" "uint (kd ! 1) \<le> 1024" "nat (uint (kd ! 1)) \<le> length (drop 2 kd)"
    using n len unfolding u by (simp_all only: nat_int length_drop)
  from reg_func_okD [OF f I this, of "ucast (kd ! 0)"] obtain ret regs t X' evs where
    t: "f (ucast (kd ! 0)) (uint (kd ! 1)) (drop 2 kd) s = Some (ret, regs, t)" "drv_inv t R A F H X' bs"
      "drv_step s X evs t X'" "0 \<le> ret \<longrightarrow> length regs = length (drop 2 kd)" by blast
  then have l: "0 \<le> ret \<longrightarrow> length regs = unat (kd ! 1)" using len by simp
  obtain ok d where cu: "copy_to_user K (dev t) (arg + 4) (take (unat (kd ! 1)) regs) = (ok, d)"
    by (cases "copy_to_user K (dev t) (arg + 4) (take (unat (kd ! 1)) regs)")
  let ?t = "if 0 \<le> ret \<and> rd then t\<lparr>dev := d\<rparr> else t"
  have "ioctl_reg_call K arg rd f kd s = Some (if ret < 0 then ret else if rd \<and> \<not> ok then - EFAULT else 0, ?t)"
    using t(1) l cu by (auto simp: ioctl_reg_call_def kcall_def)
  moreover have "drv_inv ?t R A F H X' bs" "drv_step s X evs ?t X'" using t by (simp_all add: drv_step_def)
  ultimately show ?thesis by blast
qed

lemma ioctl_reg_drv:
  assumes I: "drv_inv s R A F H X bs" and up: "spi_hdlr s" and st: "fetch_stable K" and f: "reg_func_ok f"
  shows "\<exists>ret t X' evs. ioctl_reg K arg rd f s = Some (ret, t) \<and> drv_inv t R A F H X' bs \<and>
    drv_step s X evs t X'"
proof -
  have stay: "drv_inv (s\<lparr>dev := d\<rparr>) R A F H X bs" "drv_step s X [] (s\<lparr>dev := d\<rparr>) X" for d
    using I by (simp_all add: drv_step_def)
  then have stays: "\<exists>X'. drv_inv s R A F H X' bs \<and> (\<exists>evs. drv_step s X evs (s\<lparr>dev := d\<rparr>) X')" for d
    using I by blast
  obtain uh d1 where c1: "copy_from_user K (dev s) arg 2 = (uh, d1)" by (cases "copy_from_user K (dev s) arg 2")
  show ?thesis
  proof (cases uh)
    case None
    with c1 stays show ?thesis by (auto simp: ioctl_reg_def kcall_def)
  next
    case (Some h)
    let ?n = "unat (h 1)"
    show ?thesis
    proof (cases "?n = 0 \<or> ?n > 1024 \<or> \<not> access_ok K d1 arg (4 + 2 * ?n)")
      case True
      with c1 Some stays show ?thesis by (auto simp: ioctl_reg_def kcall_def Let_def)
    next
      case ok1: False
      obtain ok d2 where z: "kzalloc K d1 = (ok, d2)" by (cases "kzalloc K d1")
      let ?k = "if rd then 2 else 2 + ?n"
      obtain us d3 where c2: "copy_from_user K d2 arg ?k = (us, d3)" by (cases "copy_from_user K d2 arg ?k")
      show ?thesis
      proof (cases "ok \<and> us \<noteq> None")
        case False
        with c1 Some ok1 z c2 stays show ?thesis by (auto simp: ioctl_reg_def kcall_def Let_def)
      next
        case True
        then obtain src where src: "ok" "us = Some src" by auto
        have s1: "src 1 = h 1" using st c1 Some z c2 src unfolding fetch_stable_def by blast
        define kd where "kd = map src [0..<?k] @ replicate (2 + ?n - ?k) 0"
        have kd: "length kd = 2 + ?n" "unat (kd ! 1) = ?n" using s1 by (simp_all add: nth_append kd_def)
        have "1 \<le> unat (kd ! 1)" "unat (kd ! 1) \<le> 1024" using ok1 kd(2) by auto
        moreover have "spi_hdlr (s\<lparr>dev := d3\<rparr>)" "length kd = 2 + unat (kd ! 1)" using up kd by simp_all
        ultimately obtain ret t X' evs where t: "ioctl_reg_call K arg rd f kd (s\<lparr>dev := d3\<rparr>) = Some (ret, t)"
          "drv_inv t R A F H X' bs" "drv_step (s\<lparr>dev := d3\<rparr>) X evs t X'"
          using ioctl_reg_call_drv [OF stay(1) [of d3] _ f, of kd K arg rd] by blast
        moreover have "ioctl_reg K arg rd f s = ioctl_reg_call K arg rd f kd (s\<lparr>dev := d3\<rparr>)"
          using c1 Some ok1 z c2 src unfolding ioctl_reg_def Let_def kd_def
          by (simp add: kcall_def del: upt_Suc)
        ultimately show ?thesis using t by auto
      qed
    qed
  qed
qed

text \<open>When another thread does rewrite it the call may fault; if it does not, the driver is as before.\<close>

lemma exchange_drv:
  assumes I: "drv_inv s R A F H X bs" and up: "spi_hdlr s" and ps: "pool_step s (drv_lists R A F (Some X)) X evs t ys"
  shows "drv_inv t R A F H ys bs" "drv_step s X evs t ys" "spi_hdlr t" "xfer_pool t (drv_lists R A F (Some ys)) ys" "ys \<noteq> []"
proof -
  from pool_step_drv [OF I ps] show D: "drv_inv t R A F H ys bs" "drv_step s X evs t ys" by simp_all
  then show "spi_hdlr t" "xfer_pool t (drv_lists R A F (Some ys)) ys" "ys \<noteq> []"
    using up ctl_fields(11) [of t s] by (simp_all add: drv_step_def drv_inv_pool) (simp add: drv_inv_def)
qed

lemma reg_read_some:
  assumes I: "drv_inv s R A F H X bs" and up: "spi_hdlr s" and cnt: "0 \<le> cnt" "cnt \<le> 65535"
    and run: "ads131m08_reg_read K a cnt rs s = Some (ret, regs, t)"
  shows "\<exists>X' evs. drv_inv t R A F H X' bs \<and> drv_step s X evs t X'"
proof -
  have P: "xfer_pool s (drv_lists R A F (Some X)) X" "X \<noteq> []"
    using I by (simp_all add: drv_inv_pool) (simp add: drv_inv_def)
  obtain r1 rx1 d1 where io1: "spi_sync_transfer K (dev s) (trx_frame (reg_cmd CMD_RREG a cnt) [] 10) = (r1, rx1, d1)"
    by (cases "spi_sync_transfer K (dev s) (trx_frame (reg_cmd CMD_RREG a cnt) [] 10)")
  have "trx_words 0 8 = 10" by (simp add: trx_words_def)
  with adc_trx_ok [OF P up, of 0 8 "[]" None None K "reg_cmd CMD_RREG a cnt" r1 rx1 d1] io1 obtain u ys where
    u: "\<exists>st rx. adc_trx K (reg_cmd CMD_RREG a cnt) [] 0 None 8 None s = Some (r1, st, rx, u)"
    and ps: "pool_step s (drv_lists R A F (Some X)) X [KSpi (trx_frame (reg_cmd CMD_RREG a cnt) [] 10)] u ys" by auto
  note D = exchange_drv [OF I up ps]
  show ?thesis
  proof (cases "r1 < 0")
    case True
    with u run have "t = u" by (auto simp: ads131m08_reg_read_def ADC_CH_NUM_def)
    with D(1,2) show ?thesis by blast
  next
    case False
    with u run obtain q st rx where
      "adc_trx K CMD_NULL [] 0 (Some rs) cnt (Some frame2word) u = Some (q, st, rx, t)"
      by (auto simp: ads131m08_reg_read_def ADC_CH_NUM_def Option.bind_eq_Some_conv split: if_splits)
    from adc_trx_recv_some [OF D(4,5,3) cnt this] obtain evs zs where
      "pool_step u (drv_lists R A F (Some ys)) ys evs t zs" by blast
    from exchange_drv(1,2) [OF D(1,3) this] drv_step_trans [OF D(2)] show ?thesis by blast
  qed
qed

lemma reg_write_some:
  assumes I: "drv_inv s R A F H X bs" and up: "spi_hdlr s" and cnt: "0 \<le> cnt" "cnt \<le> 65535"
    and run: "ads131m08_reg_write K a cnt rs s = Some (ret, regs, t)"
  shows "\<exists>X' evs. drv_inv t R A F H X' bs \<and> drv_step s X evs t X'"
proof -
  have P: "xfer_pool s (drv_lists R A F (Some X)) X" "X \<noteq> []"
    using I by (simp_all add: drv_inv_pool) (simp add: drv_inv_def)
  from run obtain r1 st rx u where u: "adc_trx K (reg_cmd CMD_WREG a cnt) rs cnt None 0 None s = Some (r1, st, rx, u)"
    by (auto simp: ads131m08_reg_write_def Option.bind_eq_Some_conv)
  from adc_trx_send_some [OF P up cnt u] obtain evs ys where "pool_step s (drv_lists R A F (Some X)) X evs u ys" by blast
  note D = exchange_drv [OF I up this]
  show ?thesis
  proof (cases "r1 < 0")
    case True
    with u run have "t = u" by (auto simp: ads131m08_reg_write_def)
    with D(1,2) show ?thesis by blast
  next
    case False
    obtain r2 rx2 d2 where "spi_sync_transfer K (dev u) (trx_frame CMD_NULL [] 1) = (r2, rx2, d2)"
      by (cases "spi_sync_transfer K (dev u) (trx_frame CMD_NULL [] 1)")
    from read_stat_ok [OF D(4,5,3) this] u run False obtain zs where
      "pool_step u (drv_lists R A F (Some ys)) ys [KSpi (trx_frame CMD_NULL [] 1)] t zs"
      by (auto simp: ads131m08_reg_write_def)
    from exchange_drv(1,2) [OF D(1,3) this] drv_step_trans [OF D(2)] show ?thesis by blast
  qed
qed

lemma ioctl_reg_call_some:
  assumes I: "drv_inv s R A F H X bs"
    and f: "\<And>a cnt rs ret regs t. 0 \<le> cnt \<Longrightarrow> cnt \<le> 65535 \<Longrightarrow> f a cnt rs s = Some (ret, regs, t) \<Longrightarrow>
      \<exists>X' evs. drv_inv t R A F H X' bs \<and> drv_step s X evs t X'"
    and run: "ioctl_reg_call K arg rd f kd s = Some (ret, t)"
  shows "\<exists>X' evs. drv_inv t R A F H X' bs \<and> drv_step s X evs t X'"
proof -
  from run obtain q regs u where u: "f (ucast (kd ! 0)) (uint (kd ! 1)) (drop 2 kd) s = Some (q, regs, u)"
    by (auto simp: ioctl_reg_call_def Option.bind_eq_Some_conv)
  obtain ok d where c: "copy_to_user K (dev u) (arg + 4) (take (unat (kd ! 1)) regs) = (ok, d)"
    by (cases "copy_to_user K (dev u) (arg + 4) (take (unat (kd ! 1)) regs)")
  have "t = u\<lparr>dev := dev u\<rparr> \<or> t = u\<lparr>dev := d\<rparr>"
    using run u c by (auto simp: ioctl_reg_call_def kcall_def split: if_splits)
  then have t: "\<exists>d. t = u\<lparr>dev := d\<rparr>" by blast
  have "0 \<le> uint (kd ! 1)" "uint (kd ! 1) \<le> 65535" using uint_lt2p [of "kd ! 1"] by simp_all
  from f [OF this u] t show ?thesis by (auto simp: drv_step_def)
qed

lemma ioctl_reg_some:
  assumes I: "drv_inv s R A F H X bs" and up: "spi_hdlr s" and g: "f = ads131m08_reg_read K \<or> f = ads131m08_reg_write K"
    and run: "ioctl_reg K arg rd f s = Some (ret, t)"
  shows "\<exists>X' evs. drv_inv t R A F H X' bs \<and> drv_step s X evs t X'"
proof -
  have call: ?thesis if "ioctl_reg_call K arg rd f kd (s\<lparr>dev := d\<rparr>) = Some (ret, t)" for kd d
  proof -
    have J: "drv_inv (s\<lparr>dev := d\<rparr>) R A F H X bs" "spi_hdlr (s\<lparr>dev := d\<rparr>)" using I up by simp_all
    have "\<exists>X' evs. drv_inv t R A F H X' bs \<and> drv_step (s\<lparr>dev := d\<rparr>) X evs t X'"
      by (rule ioctl_reg_call_some [OF J(1) _ that]) (use g reg_read_some [OF J] reg_write_some [OF J] in blast)
    then show ?thesis by simp
  qed
  have stay: ?thesis if "t = s\<lparr>dev := d\<rparr>" for d
  proof -
    have "drv_inv t R A F H X bs" "drv_step s X [] t X" using I that by (simp_all add: drv_step_def)
    then show ?thesis by blast
  qed
  obtain uh d1 where c1: "copy_from_user K (dev s) arg 2 = (uh, d1)" by (cases "copy_from_user K (dev s) arg 2")
  obtain ok d2 where z: "kzalloc K d1 = (ok, d2)" by (cases "kzalloc K d1")
  show ?thesis
  proof (cases uh)
    case None
    with run c1 show ?thesis by (intro stay [of d1]) (simp add: ioctl_reg_def kcall_def)
  next
    case (Some h)
    let ?n = "unat (h 1)" let ?k = "if rd then 2 else 2 + ?n"
    obtain us d3 where c2: "copy_from_user K d2 arg ?k = (us, d3)" by (cases "copy_from_user K d2 arg ?k")
    note U = ioctl_reg_def kcall_def Let_def
    consider "?n = 0 \<or> ?n > 1024 \<or> \<not> access_ok K d1 arg (4 + 2 * ?n)" | "\<not> (?n = 0 \<or> ?n > 1024 \<or> \<not> access_ok K d1 arg (4 + 2 * ?n))" "\<not> ok"
      | "\<not> (?n = 0 \<or> ?n > 1024 \<or> \<not> access_ok K d1 arg (4 + 2 * ?n))" "ok" by blast
    then show ?thesis
    proof cases
      case 1
      with run c1 Some show ?thesis by (intro stay [of d1]) (auto simp: U split: if_splits)
    next
      case 2
      with run c1 Some z show ?thesis by (intro stay [of d2]) (simp add: U)
    next
      case 3
      show ?thesis
      proof (cases us)
        case None
        with 3 run c1 Some z c2 show ?thesis by (intro stay [of d3]) (simp add: U del: upt_Suc One_nat_def)
      next
        case (Some src)
        with 3 run c1 \<open>uh = Some h\<close> z c2
        show ?thesis by (intro call [of "map src [0..<?k] @ replicate (2 + ?n - ?k) 0" d3]) (simp add: U del: upt_Suc One_nat_def)
      qed
    qed
  qed
qed

section \<open>Every ioctl keeps the invariant\<close>

text \<open>What the driver relies on from the kernel: \<open>request_threaded_irq\<close> returns zero or a
  negative error.\<close>

definition kenv_ok :: "'d kenv \<Rightarrow> bool" where
  "kenv_ok K \<longleftrightarrow> (\<forall>d n. fst (request_threaded_irq K d n) \<le> 0)"

text \<open>The ioctls that read user memory twice.\<close>

definition reg_nr :: "ioctl_nr \<Rightarrow> bool" where
  "reg_nr cmd \<longleftrightarrow> cmd = CMD_RREG_nr \<or> cmd = CMD_WREG_nr"

text \<open>An operation that leaves the readers' buffers alone; and one that leaves the lists and the
  run state alone, too.\<close>

definition keeps_sys :: "('d drv \<Rightarrow> (int \<times> 'd drv) option) \<Rightarrow> 'd drv \<Rightarrow> bool" where
  "keeps_sys f s \<longleftrightarrow> (\<forall>R A F H X bs. sys_inv s R A F H X bs \<longrightarrow>
     (\<exists>ret t R' A' F' X' bs'. f s = Some (ret, t) \<and> sys_inv t R' A' F' H X' bs' \<and> open_cnt t = open_cnt s \<and> mset X' = mset X \<and>
        (R' = R \<and> A' = A \<and> pending bs' R A = pending bs R A \<or> R' = [] \<and> A' = [] \<and> run_stat t \<noteq> run_stat s)))"

definition keeps_stat :: "bool \<Rightarrow> ('d drv \<Rightarrow> (int \<times> 'd drv) option) \<Rightarrow> 'd drv \<Rightarrow> bool" where
  "keeps_stat e f s \<longleftrightarrow> (\<forall>R A F H X bs. sys_inv s R A F H X bs \<longrightarrow>
     (\<exists>ret t X' bs'. f s = Some (ret, t) \<and> sys_inv t R A F H X' bs' \<and> mset X' = mset X \<and>
        pending bs' R A = pending bs R A \<and> kept e H bs bs' \<and> ctl (t\<lparr>chunk_sz := chunk_sz s\<rparr>) = ctl s))"

lemma keeps_sysI:
  assumes "\<And>R A F H X bs. sys_inv s R A F H X bs \<Longrightarrow>
     \<exists>ret t R' A' F' X' bs'. f s = Some (ret, t) \<and> sys_inv t R' A' F' H X' bs' \<and> open_cnt t = open_cnt s \<and> mset X' = mset X \<and>
        (R' = R \<and> A' = A \<and> pending bs' R A = pending bs R A \<or> R' = [] \<and> A' = [] \<and> run_stat t \<noteq> run_stat s)"
  shows "keeps_sys f s"
  using assms unfolding keeps_sys_def by blast

lemma keeps_statI:
  assumes "\<And>R A F H X bs. sys_inv s R A F H X bs \<Longrightarrow>
     \<exists>ret t X' bs'. f s = Some (ret, t) \<and> sys_inv t R A F H X' bs' \<and> mset X' = mset X \<and>
        pending bs' R A = pending bs R A \<and> kept e H bs bs' \<and> ctl (t\<lparr>chunk_sz := chunk_sz s\<rparr>) = ctl s"
  shows "keeps_stat e f s"
  using assms unfolding keeps_stat_def by blast

lemma keeps_stat_sys: "keeps_stat e f s \<Longrightarrow> keeps_sys f s"
proof (rule keeps_sysI)
  fix R A F H X bs assume k: "keeps_stat e f s" and I: "sys_inv s R A F H X bs"
  from k [unfolded keeps_stat_def, rule_format, OF I] obtain ret t X' bs' where
    t: "f s = Some (ret, t)" "sys_inv t R A F H X' bs'" "mset X' = mset X" "pending bs' R A = pending bs R A"
      "ctl (t\<lparr>chunk_sz := chunk_sz s\<rparr>) = ctl s" by blast
  from ctl_fields(16) [OF t(5)] have "open_cnt t = open_cnt s" by simp
  with t show "\<exists>ret t R' A' F' X' bs'. f s = Some (ret, t) \<and> sys_inv t R' A' F' H X' bs' \<and>
      open_cnt t = open_cnt s \<and> mset X' = mset X \<and>
      (R' = R \<and> A' = A \<and> pending bs' R A = pending bs R A \<or> R' = [] \<and> A' = [] \<and> run_stat t \<noteq> run_stat s)"
    by blast
qed

lemma keeps_stat_drv:
  assumes "\<And>R A F H X bs. drv_inv s R A F H X bs \<Longrightarrow> spi_hdlr s \<Longrightarrow>
     \<exists>ret t X' evs. f s = Some (ret, t) \<and> drv_inv t R A F H X' bs \<and> drv_step s X evs t X'"
  shows "keeps_stat False f s"
proof (rule keeps_statI)
  fix R A F H X bs assume I: "sys_inv s R A F H X bs"
  then have "drv_inv s R A F H X bs" "spi_hdlr s" by (simp_all add: sys_inv_def)
  from assms [OF this] obtain ret t X' evs where
    t: "f s = Some (ret, t)" "drv_inv t R A F H X' bs" "drv_step s X evs t X'" by blast
  then have c: "ctl t = ctl s" "mset X' = mset X" by (simp_all add: drv_step_def)
  then have "ctl (t\<lparr>chunk_sz := chunk_sz s\<rparr>) = ctl s" by (simp add: ctl_def)
  with t c sys_inv_step [OF I t(2,3)] show "\<exists>ret t X' bs'. f s = Some (ret, t) \<and> sys_inv t R A F H X' bs' \<and>
      mset X' = mset X \<and> pending bs' R A = pending bs R A \<and> kept False H bs bs' \<and> ctl (t\<lparr>chunk_sz := chunk_sz s\<rparr>) = ctl s"
    using kept_refl by blast
qed

lemma strobe_keeps: "keeps_stat False (cmd_strobe K cmd [] 0 0) s"
proof (rule keeps_stat_drv)
  fix R A F H X bs assume I: "drv_inv s R A F H X bs" "spi_hdlr s"
  obtain ret rxd d where "spi_sync_transfer K (dev s) (trx_frame cmd [] 1) = (ret, rxd, d)"
    by (cases "spi_sync_transfer K (dev s) (trx_frame cmd [] 1)")
  from strobe_drv [OF I this] show "\<exists>ret t X' evs. cmd_strobe K cmd [] 0 0 s = Some (ret, t) \<and>
      drv_inv t R A F H X' bs \<and> drv_step s X evs t X'" by blast
qed

lemma cmd_reset_drv:
  assumes I: "drv_inv s R A F H X bs" and up: "spi_hdlr s"
  shows "\<exists>ret t X' evs. cmd_reset K s = Some (ret, t) \<and> drv_inv t R A F H X' bs \<and> drv_step s X evs t X'"
proof -
  have P: "xfer_pool s (drv_lists R A F (Some X)) X" "X \<noteq> []"
    using I by (simp_all add: drv_inv_pool) (simp add: drv_inv_def)
  obtain r1 rx1 d1 where io1: "spi_sync_transfer K (dev s) (trx_frame CMD_RESET (replicate 8 0) 10) = (r1, rx1, d1)"
    by (cases "spi_sync_transfer K (dev s) (trx_frame CMD_RESET (replicate 8 0) 10)")
  obtain r2 rx2 d2 where io2: "spi_sync_transfer K d1 (trx_frame CMD_NULL [] 1) = (r2, rx2, d2)"
    by (cases "spi_sync_transfer K d1 (trx_frame CMD_NULL [] 1)")
  from cmd_reset_ok [OF P up io1 io2] obtain t ys evs where
    t: "ads131m08_cmd_reset K s = Some (if r1 < 0 then r1 else r2, t)"
    and ps: "pool_step s (drv_lists R A F (Some X)) X evs t ys" by blast
  from pool_step_drv [OF I ps] have D: "drv_inv t R A F H ys bs" "drv_step s X evs t ys" by simp_all
  have up2: "spi_hdlr t" using D(2) up ctl_fields(11) [of t s] by (simp add: drv_step_def)
  obtain r3 rx3 d3 where io3: "spi_sync_transfer K (dev t) (trx_frame CMD_STANDBY [] 1) = (r3, rx3, d3)"
    by (cases "spi_sync_transfer K (dev t) (trx_frame CMD_STANDBY [] 1)")
  from strobe_drv [OF D(1) up2 io3] obtain u zs where
    u: "cmd_strobe K CMD_STANDBY [] 0 0 t = Some (r3, u)" "drv_inv u R A F H zs bs"
      "drv_step t ys [KSpi (trx_frame CMD_STANDBY [] 1)] u zs" by blast
  show ?thesis
  proof (cases "(if r1 < 0 then r1 else r2) < 0")
    case True
    with t D show ?thesis by (auto simp: cmd_reset_def)
  next
    case False
    then have "cmd_reset K s = Some (r3, u)"
      using t u(1) by (simp add: cmd_reset_def ads131m08_cmd_standby_def)
    with u(2) drv_step_trans [OF D(2) u(3)] show ?thesis by blast
  qed
qed

lemma ioctl_chunk_sz_sys:
  assumes I: "sys_inv s R A F H X bs" and stop: "run_stat s \<noteq> ADC_RUN"
  shows "\<exists>t bs'. ioctl_chunk_sz sz s = Some (chunk_sz t, t) \<and> R = [] \<and> A = [] \<and> sys_inv t [] [] F H X bs' \<and>
    chunk_sz t = (if 0 < c_int_of_ulong sz then clamp_chunk_sz (c_int_of_ulong sz) else chunk_sz s) \<and>
    ctl (t\<lparr>chunk_sz := chunk_sz s\<rparr>) = ctl s \<and> dev t = dev s \<and> klog t = klog s \<and>
    (\<forall>c \<in> set bs'. c_chunk_sz c = chunk_sz t) \<and> kept (0 < c_int_of_ulong sz) H bs bs'"
proof -
  have D: "data_inv s [] [] F H (Some X) bs" and e: "R = []" "A = []" "run_stat s = ADC_STOP" "\<not> irq_registered s"
    using I stop by (auto simp: sys_inv_def drv_inv_def)
  have c0: "c_int_of_ulong 0 = 0" by (simp add: c_int_of_ulong_def)
  show ?thesis
  proof (cases "0 < c_int_of_ulong sz")
    case False
    then have "ioctl_chunk_sz sz s = Some (chunk_sz s, s)"
      using stop by (simp add: ioctl_chunk_sz_def ads131m08_run_stat_def ads131m08_data_resize_chunk_buf_def
          ads131m08_data_get_chunk_sz_def)
    moreover have "\<forall>c \<in> set bs. c_chunk_sz c = chunk_sz s"
      using D by (simp add: data_inv_def bufs_ok_def buf_ok_def)
    ultimately show ?thesis using I e False by auto
  next
    case True
    then have "sz > 0" using c0 by (metis less_irrefl word_gt_0)
    from resize_ok [OF D True] obtain t where
      t: "ads131m08_data_resize_chunk_buf (c_int_of_ulong sz) s = Some t"
      "chunk_sz t = clamp_chunk_sz (c_int_of_ulong sz)" "ctl (t\<lparr>chunk_sz := chunk_sz s\<rparr>) = ctl s"
      "xmem t = xmem s" "dev t = dev s" "klog t = klog s"
      "data_inv t [] [] F H (Some X) (map (\<lambda>c. c\<lparr>c_chunk_sz := clamp_chunk_sz (c_int_of_ulong sz), c_idx := 0\<rparr>) bs)"
      by blast
    let ?bs = "map (\<lambda>c. c\<lparr>c_chunk_sz := clamp_chunk_sz (c_int_of_ulong sz), c_idx := 0\<rparr>) bs"
    have "ioctl_chunk_sz sz s = Some (chunk_sz t, t)"
      using \<open>sz > 0\<close> stop t(1) by (simp add: ioctl_chunk_sz_def ads131m08_run_stat_def ads131m08_data_get_chunk_sz_def)
    moreover have "sys_inv t [] [] F H X ?bs"
      using t(4,7) I e ctl_fields [OF t(3)] by (simp add: sys_inv_def drv_inv_def)
    moreover have "kept (0 < c_int_of_ulong sz) H bs ?bs" using data_get_buf(2) [OF D] True by (auto simp: kept_def taken_def)
    ultimately show ?thesis using t True e(1,2) by (intro exI [of _ t] exI [of _ ?bs]) auto
  qed
qed

text \<open>The run state an ioctl hands to \<open>ads131m08_run_cmd\<close>, if it does.\<close>

definition ioctl_run_cmd :: "ioctl_nr \<Rightarrow> u64 \<Rightarrow> 'd drv \<Rightarrow> int option" where
  "ioctl_run_cmd cmd arg s =
     (if run_stat s = ADC_RUN \<and> \<not> ads131m08_ioctl_allowed_while_running cmd then None
      else
        (case cmd of
           CMD_STANDBY_nr \<Rightarrow> Some ADC_STOP
         | CMD_WAKEUP_nr \<Rightarrow> Some ADC_RUN
         | CMD_STAT_nr \<Rightarrow> if c_int_of_ulong arg = 0 then Some ADC_STOP
                        else if c_int_of_ulong arg = 1 then Some ADC_RUN else None
         | _ \<Rightarrow> None))"

lemma ioctl_run_cmd_eq:
  "ioctl_run_cmd cmd arg s = Some r \<Longrightarrow>
     ads131m08_ioctl K cmd arg s = ads131m08_run_cmd K r s \<and> (r = ADC_RUN \<or> r = ADC_STOP)"
  by (auto simp: ioctl_run_cmd_def ads131m08_ioctl_def ads131m08_run_stat_def cmd_stat_def ADC_RUN_def ADC_STOP_def Let_def
      split: if_splits ioctl_nr.splits)

text \<open>While the acquisition runs, every other ioctl leaves the state as it is.\<close>

lemma ioctl_running_stays:
  assumes "ioctl_run_cmd cmd arg s = None" "run_stat s = ADC_RUN"
  shows "\<exists>ret. ads131m08_ioctl K cmd arg s = Some (ret, s)"
  using assms by (cases cmd) (auto simp: ioctl_run_cmd_def ads131m08_ioctl_def ads131m08_run_stat_def cmd_stat_def Let_def
      split: if_splits)

text \<open>The ioctl that empties the chunks: a positive chunk size in a driver that is not running.\<close>

definition resizes :: "ioctl_nr \<Rightarrow> u64 \<Rightarrow> 'd drv \<Rightarrow> bool" where
  "resizes cmd arg s \<longleftrightarrow> cmd = CMD_CHUNK_SZ_nr \<and> run_stat s \<noteq> ADC_RUN \<and> 0 < c_int_of_ulong arg"

lemma chunk_sz_keeps:
  assumes stop: "run_stat s \<noteq> ADC_RUN"
  shows "keeps_stat (0 < c_int_of_ulong arg) (ioctl_chunk_sz arg) s"
proof (rule keeps_statI)
  fix R A F H X bs assume I: "sys_inv s R A F H X bs"
  from ioctl_chunk_sz_sys [OF this stop, of arg] obtain t bs' where
    t: "ioctl_chunk_sz arg s = Some (chunk_sz t, t)" "R = []" "A = []" "sys_inv t [] [] F H X bs'"
    "ctl (t\<lparr>chunk_sz := chunk_sz s\<rparr>) = ctl s" "kept (0 < c_int_of_ulong arg) H bs bs'" by blast
  then show "\<exists>ret t X' bs'. ioctl_chunk_sz arg s = Some (ret, t) \<and> sys_inv t R A F H X' bs' \<and>
      mset X' = mset X \<and> pending bs' R A = pending bs R A \<and> kept (0 < c_int_of_ulong arg) H bs bs' \<and> ctl (t\<lparr>chunk_sz := chunk_sz s\<rparr>) = ctl s"
    by fastforce
qed

lemma stay_keeps:
  assumes "f s = Some (r, s)"
  shows "keeps_stat False f s"
proof (rule keeps_statI)
  fix R A F H X bs assume "sys_inv s R A F H X bs"
  moreover have "ctl (s\<lparr>chunk_sz := chunk_sz s\<rparr>) = ctl s" by simp
  ultimately show "\<exists>ret t X' bs'. f s = Some (ret, t) \<and> sys_inv t R A F H X' bs' \<and> mset X' = mset X \<and>
      pending bs' R A = pending bs R A \<and> kept False H bs bs' \<and> ctl (t\<lparr>chunk_sz := chunk_sz s\<rparr>) = ctl s"
    using assms kept_refl by metis
qed

lemma ioctl_other_keeps:
  assumes st: "reg_nr cmd \<Longrightarrow> fetch_stable K" and other: "ioctl_run_cmd cmd arg s = None"
  shows "keeps_stat (resizes cmd arg s) (ads131m08_ioctl K cmd arg) s"
proof (cases "run_stat s = ADC_RUN")
  case True
  then have "\<not> resizes cmd arg s" by (simp add: resizes_def)
  with True ioctl_running_stays [OF other] stay_keeps [of "ads131m08_ioctl K cmd arg" s] show ?thesis by auto
next
  case False
  have reg: "keeps_stat False (ioctl_reg K arg rd f) s" if "reg_func_ok f" "reg_nr cmd" for rd f
    by (rule keeps_stat_drv, rule ioctl_reg_drv [OF _ _ st that(1)]) (use that in simp_all)
  have reset: "keeps_stat False (cmd_reset K) s" by (rule keeps_stat_drv, rule cmd_reset_drv)
  have eq: "ads131m08_ioctl K cmd arg s = g s \<Longrightarrow> keeps_stat (resizes cmd arg s) g s \<Longrightarrow> keeps_stat (resizes cmd arg s) (ads131m08_ioctl K cmd arg) s" for g
    by (simp add: keeps_stat_def)
  note U = resizes_def ads131m08_ioctl_def ads131m08_run_stat_def ioctl_rreg_def ioctl_wreg_def cmd_stat_def
    ads131m08_cmd_lock_def ads131m08_cmd_unlock_def
  show ?thesis
  proof (cases cmd)
    case CMD_RESET_nr with False reset show ?thesis by (intro eq [of "cmd_reset K"]) (simp_all add: U)
  next
    case CMD_LOCK_nr with False strobe_keeps show ?thesis
      by (intro eq [of "cmd_strobe K CMD_LOCK [] 0 0"]) (simp_all add: U)
  next
    case CMD_UNLOCK_nr with False strobe_keeps show ?thesis
      by (intro eq [of "cmd_strobe K CMD_UNLOCK [] 0 0"]) (simp_all add: U)
  next
    case CMD_RREG_nr with False reg [OF reg_func_ok_read] show ?thesis
      by (intro eq [of "ioctl_reg K arg True (ads131m08_reg_read K)"]) (simp_all add: U reg_nr_def)
  next
    case CMD_WREG_nr with False reg [OF reg_func_ok_write] show ?thesis
      by (intro eq [of "ioctl_reg K arg False (ads131m08_reg_write K)"]) (simp_all add: U reg_nr_def)
  next
    case CMD_CHUNK_SZ_nr with False chunk_sz_keeps show ?thesis
      by (intro eq [of "ioctl_chunk_sz arg"]) (simp_all add: U)
  next
    case CMD_STAT_nr
    then have "\<not> resizes cmd arg s" by (simp add: resizes_def)
    with CMD_STAT_nr False other stay_keeps [where r = "run_stat s" and f = "ads131m08_ioctl K cmd arg"] show ?thesis
      by (auto simp: U ioctl_run_cmd_def split: if_splits)
  next
    case (IOC_other n)
    then have "\<not> resizes cmd arg s" by (simp add: resizes_def)
    with IOC_other False stay_keeps [where r = "- ENOTTY" and f = "ads131m08_ioctl K cmd arg"] show ?thesis by (simp add: U)
  qed (use False other in \<open>simp_all add: ioctl_run_cmd_def\<close>)
qed

lemma ioctl_keeps_sys:
  assumes K: "kenv_ok K" and st: "reg_nr cmd \<Longrightarrow> fetch_stable K"
  shows "keeps_sys (ads131m08_ioctl K cmd arg) s"
proof (cases "ioctl_run_cmd cmd arg s")
  case None
  from keeps_stat_sys [OF ioctl_other_keeps [OF st None]] show ?thesis .
next
  case (Some r)
  have rq: "fst (request_threaded_irq K d n) \<le> 0" for d n using K by (simp add: kenv_ok_def)
  note e = ioctl_run_cmd_eq [OF Some, of K]
  have "keeps_sys (ads131m08_run_cmd K r) s"
    by (rule keeps_sysI, drule run_cmd_sys [OF _ rq conjunct2 [OF e]]) blast
  with e show ?thesis by (simp add: keeps_sys_def)
qed

text \<open>Whatever user memory does: an ioctl that returns and neither starts nor stops keeps the lists.\<close>

lemma ioctl_other_some:
  assumes I: "sys_inv s R A F H X bs" and other: "ioctl_run_cmd cmd arg s = None"
    and run: "ads131m08_ioctl K cmd arg s = Some (ret, t)"
  shows "\<exists>X' bs'. sys_inv t R A F H X' bs' \<and> mset X' = mset X \<and> pending bs' R A = pending bs R A \<and> kept (resizes cmd arg s) H bs bs' \<and>
    ctl (t\<lparr>chunk_sz := chunk_sz s\<rparr>) = ctl s"
proof (cases "reg_nr cmd \<and> run_stat s \<noteq> ADC_RUN")
  case True
  then have "\<exists>rd f. (f = ads131m08_reg_read K \<or> f = ads131m08_reg_write K) \<and> ioctl_reg K arg rd f s = Some (ret, t)"
    using run by (auto simp: reg_nr_def ads131m08_ioctl_def ads131m08_run_stat_def ioctl_rreg_def ioctl_wreg_def) blast+
  moreover have D: "drv_inv s R A F H X bs" "spi_hdlr s" using I by (simp_all add: sys_inv_def)
  ultimately obtain X' evs where t: "drv_inv t R A F H X' bs" "drv_step s X evs t X'" using ioctl_reg_some [OF D] by blast
  from t(2) have c: "ctl t = ctl s" "mset X' = mset X" by (simp_all add: drv_step_def)
  then have "ctl (t\<lparr>chunk_sz := chunk_sz s\<rparr>) = ctl s" by (simp add: ctl_def)
  moreover have "kept (resizes cmd arg s) H bs bs" using True by (auto simp: reg_nr_def resizes_def)
  ultimately show ?thesis using c sys_inv_step [OF I t] by blast
next
  case False
  have "keeps_stat (resizes cmd arg s) (ads131m08_ioctl K cmd arg) s"
  proof (cases "run_stat s = ADC_RUN")
    case True
    then have "\<not> resizes cmd arg s" by (simp add: resizes_def)
    with True ioctl_running_stays [OF other] stay_keeps [of "ads131m08_ioctl K cmd arg" s] show ?thesis by auto
  next
    case stop: False
    with False show ?thesis by (intro ioctl_other_keeps [OF _ other]) simp
  qed
  from this [unfolded keeps_stat_def, rule_format, OF I] run show ?thesis by auto
qed

lemma ioctl_some_sys:
  assumes K: "kenv_ok K" and I: "sys_inv s R A F H X bs" and run: "ads131m08_ioctl K cmd arg s = Some (ret, t)"
  obtains R' A' F' X' bs' where "sys_inv t R' A' F' H X' bs'" "mset X' = mset X"
    "R' = R \<and> A' = A \<and> pending bs' R A = pending bs R A \<or> R' = [] \<and> A' = [] \<and> run_stat t \<noteq> run_stat s"
proof (cases "ioctl_run_cmd cmd arg s")
  case None
  from ioctl_other_some [OF I None run] that show thesis by blast
next
  case (Some r)
  have rq: "fst (request_threaded_irq K d n) \<le> 0" for d n using K by (simp add: kenv_ok_def)
  note e = ioctl_run_cmd_eq [OF Some, of K]
  from run_cmd_sys [OF I rq conjunct2 [OF e]] run [unfolded conjunct1 [OF e]] that show thesis by (metis option.inject prod.inject)
qed

end
