(* ===== verification/Probe.thy ===== *)
theory Probe
  imports Iface
begin

text \<open>
  Bringing the driver up and down: \<open>src/ads131m08_main.c\<close>.
\<close>

section \<open>Operations\<close>

definition DEFAULT_SPI_MAX_SPEED_HZ :: nat where "DEFAULT_SPI_MAX_SPEED_HZ = 15000000"

text \<open>\<open>SPI_MODE_1\<close> of \<open>linux/spi/spi.h\<close> is \<open>SPI_CPHA\<close>: sample on the falling clock edge.\<close>

definition SPI_MODE_1 :: nat where "SPI_MODE_1 = 1"

text \<open>Mode and clock are stored in the \<open>spi_device\<close> and \<open>spi_setup\<close> reads them there.\<close>

definition spi_mode_setup :: "'d kenv \<Rightarrow> 'd \<Rightarrow> int \<times> 'd" where
  "spi_mode_setup K d =
     (let hz = spi_max_speed_hz K d
      in spi_setup K d SPI_MODE_1 (if hz = 0 then DEFAULT_SPI_MAX_SPEED_HZ else hz))"

definition err_spi :: "int \<Rightarrow> 'd drv \<Rightarrow> (int \<times> 'd drv) option" where
  "err_spi ret s = do { s \<leftarrow> ads131m08_spi_exit s; Some (ret, s) }"

definition err_gpio :: "int \<Rightarrow> 'd drv \<Rightarrow> (int \<times> 'd drv) option" where
  "err_gpio ret s = err_spi ret (ads131m08_gpio_exit s)"

definition err_iface :: "int \<Rightarrow> 'd drv \<Rightarrow> (int \<times> 'd drv) option" where
  "err_iface ret s = err_gpio ret (ads131m08_iface_exit s)"

definition ads131m08_probe :: "'d kenv \<Rightarrow> 'd drv \<Rightarrow> (int \<times> 'd drv) option" where
  "ads131m08_probe K s = do {
     (ret, s) \<leftarrow> ads131m08_data_init K s;
     (if ret < 0 then Some (ret, s)
      else
        case kcall (spi_mode_setup K) s of (ret, s) \<Rightarrow>
        if ret \<noteq> 0 then Some (ret, s)
        else do {
          (ret, s) \<leftarrow> ads131m08_spi_init K s;
          (if ret < 0 then Some (ret, s)
           else
             case ads131m08_gpio_init K s of (ret, s) \<Rightarrow>
             if ret < 0 then err_spi ret s
             else
               case ads131m08_iface_init K s of (ret, s) \<Rightarrow>
               if ret < 0 then err_gpio ret s
               else do {
                 (ret, s) \<leftarrow> ads131m08_cmd_standby K (ads131m08_adc_rst s);
                 (if ret < 0 then err_iface ret s else Some (SUCCESS, s)) }) }) }"

definition ads131m08_remove :: "'d kenv \<Rightarrow> 'd drv \<Rightarrow> 'd drv option" where
  "ads131m08_remove K s = do {
     s \<leftarrow> ads131m08_data_exit K (ads131m08_iface_exit s);
     ads131m08_spi_exit (ads131m08_gpio_exit s) }"

section \<open>Bringing up the transport\<close>

lemma data_init_fail:
  assumes "data_allocs K (dev s) = (oks, d)" "False \<in> set oks"
  shows "\<exists>t. ads131m08_data_init K s = Some (- ENOMEM, t) \<and> klog t = klog s \<and> xmem t = xmem s"
proof -
  obtain b1 d1 where 1: "devm_kzalloc K (dev s) = (b1, d1)" by (cases "devm_kzalloc K (dev s)")
  obtain b2 d2 where 2: "devm_kzalloc K d1 = (b2, d2)" by (cases "devm_kzalloc K d1")
  obtain b3 d3 where 3: "devm_kzalloc K d2 = (b3, d3)" by (cases "devm_kzalloc K d2")
  obtain b4 d4 where 4: "devm_kzalloc K d3 = (b4, d4)" by (cases "devm_kzalloc K d3")
  obtain b5 d5 where 5: "devm_kzalloc K d4 = (b5, d5)" by (cases "devm_kzalloc K d4")
  have f: "\<not> b1 \<or> \<not> b2 \<or> \<not> b3 \<or> \<not> b4 \<or> \<not> b5"
    using assms 1 2 3 4 5 by (auto simp: data_allocs_def)
  consider "\<not> b1" | "b1" "\<not> b2" | "b1" "b2" by blast
  then show ?thesis
  proof cases
    case 1
    with \<open>devm_kzalloc K (dev s) = (b1, d1)\<close> show ?thesis
      by (simp add: ads131m08_data_init_def kcall_def alloc_driver_data_def)
  next
    case c: 2
    with 1 2 show ?thesis
      by (simp add: ads131m08_data_init_def kcall_def Let_def alloc_driver_data_def alloc_chunk_bufs_def)
  next
    case c: 3
    with 1 2 3 4 5 f show ?thesis
      by (auto simp: ads131m08_data_init_def kcall_def Let_def alloc_driver_data_def alloc_chunk_bufs_def
          new_list_def list_new_def)
  qed
qed

lemma spi_init_ok:
  assumes D: "data_inv s R A F H None bs" and fr: "fresh_xfers s"
    and dm: "devm_kzalloc K (dev s) = (True, d1)" and kz: "kz_ok K XFER_BUF_NUM d1 = (j, d)"
  defines "X \<equiv> [next_xfer s..<next_xfer s + j]"
  shows "\<exists>t. ads131m08_spi_init K s = Some (if j = XFER_BUF_NUM then 0 else - ENOMEM, t) \<and>
    data_inv t R A F H (Some X) bs \<and> xfer_list t = Some XferL \<and> mem_ok (xmem t) (set X) \<and>
    dom (elms t) = dom (elms s) \<union> Xfer ` set X \<and> dev t = d \<and> klog t = klog s \<and> next_xfer t = next_xfer s + j \<and>
    ctl (t\<lparr>xfer_list := xfer_list s, spi_hdlr := spi_hdlr s, next_xfer := next_xfer s\<rparr>) = ctl s \<and>
    (j = XFER_BUF_NUM \<longrightarrow> spi_hdlr t)"
proof -
  let ?L = "drv_lists R A F None"
  let ?s1 = "s\<lparr>dev := d1, hdrs := (hdrs s)(XferL \<mapsto> zero_hdr), xfer_list := Some XferL\<rparr>"
  have H: "heap_rep s ?L" using D by (simp add: data_inv_def)
  note N = new_list_rep [OF H, where l = XferL and K = K and d = d1]
  have n: "new_list K XferL s = (Some XferL, s\<lparr>dev := d1, hdrs := (hdrs s)(XferL \<mapsto> zero_hdr)\<rparr>)"
    and R1: "heap_rep ?s1 (?L(XferL \<mapsto> []))" using N dm by simp_all
  have pre: "(?L(XferL \<mapsto> [])) XferL = Some (map Xfer [])" "xfer_list ?s1 = Some XferL" "fresh_xfers ?s1"
    "kz_ok K XFER_BUF_NUM (dev ?s1) = (j, d)"
    using fr kz by (simp_all add: fresh_xfers_def)
  have nx: "next_xfer ?s1 = next_xfer s" by simp
  define M where "M = (\<lambda>x. if next_xfer s \<le> x \<and> x < next_xfer s + j then Some zero_xfer else xmem ?s1 x)"
  from xfer_buf_init_loop_ok [OF R1 pre, unfolded pool_grown_def nx, folded M_def] obtain E D' where
    run: "xfer_buf_init_loop K XFER_BUF_NUM ?s1 = Some (if j = XFER_BUF_NUM then 0 else - ENOMEM,
      ?s1\<lparr>elms := E, hdrs := D', dev := d, xmem := M, next_xfer := next_xfer s + j\<rparr>)"
    and R2: "rep E D' (?L(XferL \<mapsto> [], XferL \<mapsto> map Xfer ([] @ X)))"
    and dom: "dom E = dom (elms ?s1) \<union> Xfer ` {next_xfer s..<next_xfer s + j}"
    unfolding X_def by blast
  let ?t = "?s1\<lparr>elms := E, hdrs := D', dev := d, xmem := M, next_xfer := next_xfer s + j\<rparr>"
  have R3: "rep E D' (drv_lists R A F (Some X))" using R2 by simp
  have "data_inv ?t R A F H (Some X) bs"
    using D R3 dom by (auto simp: data_inv_def)
  moreover have "mem_ok M (set X)"
    by (auto simp: mem_ok_def M_def X_def xfer_ok_def zero_xfer_def)
  moreover have "dom E = dom (elms s) \<union> Xfer ` set X" unfolding dom X_def by simp
  ultimately have A: "data_inv ?t R A F H (Some X) bs" "mem_ok (xmem ?t) (set X)" "dom (elms ?t) = dom (elms s) \<union> Xfer ` set X"
    by simp_all
  have r: "xfer_buf_init K s = Some (if j = XFER_BUF_NUM then 0 else - ENOMEM, ?t)"
    using n run by (simp add: xfer_buf_init_def)
  show ?thesis
  proof (cases "j = XFER_BUF_NUM")
    case True
    with r have "ads131m08_spi_init K s = Some (0, ?t\<lparr>spi_hdlr := True\<rparr>)" by (simp add: ads131m08_spi_init_def)
    with A True show ?thesis by (simp add: data_inv_def ctl_def)
  next
    case False
    with r have "ads131m08_spi_init K s = Some (- ENOMEM, ?t)" by (simp add: ads131m08_spi_init_def ENOMEM_def)
    with A False show ?thesis by (simp add: ctl_def)
  qed
qed

text \<open>Tearing the transport down releases every transfer buffer.\<close>

lemma spi_exit_ok:
  assumes I: "drv_inv s R A F H X bs"
  shows "\<exists>t. ads131m08_spi_exit s = Some t \<and> data_inv t R A F H (Some []) bs \<and>
    dom (elms t) = dom (elms s) - Xfer ` set X \<and> (\<forall>x \<in> set X. xmem t x = None) \<and>
    klog t = klog s \<and> xfer_list t = None \<and> \<not> spi_hdlr t \<and> irq_registered t = irq_registered s \<and>
    run_stat t = run_stat s \<and> next_xfer t = next_xfer s"
proof -
  have P: "xfer_pool (s\<lparr>spi_hdlr := False\<rparr>) (drv_lists R A F (Some X)) X"
    using drv_inv_pool [OF I] by (simp add: xfer_pool_def)
  from xfer_buf_free_ok [OF P] obtain E D where
    f: "xfer_buf_free (s\<lparr>spi_hdlr := False\<rparr>) = Some ((s\<lparr>spi_hdlr := False\<rparr>)\<lparr>elms := E, hdrs := D,
      xmem := (\<lambda>x. if x \<in> set X then None else xmem (s\<lparr>spi_hdlr := False\<rparr>) x)\<rparr>)"
    and R1: "rep E D ((drv_lists R A F (Some X))(XferL \<mapsto> []))"
    and dom: "dom E = dom (elms (s\<lparr>spi_hdlr := False\<rparr>)) - Xfer ` set X" by blast
  have R2: "rep E D (drv_lists R A F (Some []))"
    using R1 drv_lists_upd(4) [of R A F "Some X" "[]"] by simp
  have "Chunk ` {0..<CHUNK_BUF_CNT} \<subseteq> dom E"
    using I unfolding dom by (auto simp: drv_inv_def data_inv_def)
  with f R2 I dom show ?thesis
    by (auto simp: ads131m08_spi_exit_def drv_inv_def data_inv_def)
qed

section \<open>Registrations\<close>

definition reg_pairs :: "(kev \<times> kev) list" where
  "reg_pairs = [(KProcCreate, KProcRemove), (KAllocRegion, KUnregRegion), (KCdevAdd, KCdevDel),
     (KClassCreate, KClassDestroy), (KDevCreate, KDevDestroy)]"

text \<open>Everything registered in a log has been unregistered.\<close>

definition all_released :: "kev list \<Rightarrow> bool" where
  "all_released evs \<longleftrightarrow> (\<forall>(a, r) \<in> set reg_pairs. count_list evs a = count_list evs r)"

lemma all_released_append: "all_released xs \<Longrightarrow> all_released ys \<Longrightarrow> all_released (xs @ ys)"
  by (fastforce simp: all_released_def)

text \<open>The fields the registration code works on; everything else is untouched.\<close>

text \<open>The interrupt number is the one the kernel gave for the data-ready line.\<close>

definition irq_line :: "'d kenv \<Rightarrow> 'd drv \<Rightarrow> bool" where
  "irq_line K s \<longleftrightarrow> 0 \<le> gpio_irq_no s \<and> gpio_irq_no s \<in> range (\<lambda>d. fst (gpiod_to_irq K d))"

lemma gpio_init_ok:
  assumes I: "drv_inv s R A F H X bs"
  shows "\<exists>r t. ads131m08_gpio_init K s = (r, t) \<and> drv_inv t R A F H X bs \<and> klog t = klog s \<and>
    \<not> irq_registered t \<and> spi_hdlr t = spi_hdlr s \<and> run_stat t = run_stat s \<and> elms t = elms s \<and>
    data_cl t = data_cl s \<and> chunk_sz t = chunk_sz s \<and> r \<le> 0 \<and> (r = 0 \<longrightarrow> irq_line K t)"
proof -
  have ad: "ads131m08_data s" using I by (rule drv_inv_data)
  obtain p d1 where 1: "gpiod_get_drdy K (dev s) = (p, d1)" by (cases "gpiod_get_drdy K (dev s)")
  obtain q d2 where 2: "gpiod_get_reset K d1 = (q, d2)" by (cases "gpiod_get_reset K d1")
  obtain n d3 where 3: "gpiod_to_irq K d2 = (n, d3)" by (cases "gpiod_to_irq K d2")
  let ?s1 = "s\<lparr>irq_registered := False, dev := d1\<rparr>"
  let ?s2 = "?s1\<lparr>dev := d2, reset_gpiod := (q \<noteq> 0)\<rparr>"
  have r: "ads131m08_gpio_init K s = (if p < 0 then (p, ?s1) else if q < 0 then (q, ?s2)
      else if n < 0 then (n, ?s2\<lparr>dev := d3\<rparr>) else (SUCCESS, ?s2\<lparr>dev := d3, gpio_irq_no := n\<rparr>))"
    using ad 1 2 3 by (simp add: ads131m08_gpio_init_def kcall_def Let_def)
  have u: "drv_inv (s'\<lparr>reset_gpiod := x\<rparr>) R A F H X bs = drv_inv s' R A F H X bs"
    "drv_inv (s'\<lparr>gpio_irq_no := y\<rparr>) R A F H X bs = drv_inv s' R A F H X bs" for s' :: "'a drv" and x y
    by (simp_all add: drv_inv_def data_inv_def)
  have "n \<in> range (\<lambda>d. fst (gpiod_to_irq K d))" using 3 by (metis fst_conv rangeI)
  with I show ?thesis unfolding r by (auto simp: u SUCCESS_def irq_line_def)
qed

lemma drv_inv_iface [simp]:
  "drv_inv (s\<lparr>proc_file := x\<rparr>) R A F H X bs = drv_inv s R A F H X bs"
  "drv_inv (s\<lparr>data_cl := y\<rparr>) R A F H X bs = drv_inv s R A F H X bs"
  by (simp_all add: drv_inv_def data_inv_def)

definition iface_up :: "kev list" where
  "iface_up = [KProcCreate, KAllocRegion, KCdevAdd, KClassCreate, KDevCreate]"

text \<open>What \<open>fops_init\<close> changes.\<close>

definition iface_only :: "'d drv \<Rightarrow> 'd drv \<Rightarrow> bool" where
  "iface_only s t \<longleftrightarrow> (\<exists>d lg p c n. t = s\<lparr>open_cnt := n, proc_file := p, dev := d, klog := lg, data_cl := c\<rparr>)"

lemma iface_onlyD:
  assumes "iface_only s t"
  shows "drv_inv t R A F H X bs = drv_inv s R A F H X bs" "spi_hdlr t = spi_hdlr s" "run_stat t = run_stat s"
    "irq_registered t = irq_registered s" "elms t = elms s" "chunk_sz t = chunk_sz s"
    "ads131m08_data t = ads131m08_data s" "reset_gpiod t = reset_gpiod s" "gpio_irq_no t = gpio_irq_no s"
    "xmem t = xmem s"
  using assms by (auto simp: iface_only_def)

lemma iface_onlyI:
  assumes "ctl (t\<lparr>open_cnt := open_cnt s, proc_file := proc_file s, data_cl := data_cl s\<rparr>) = ctl s"
    "elms t = elms s" "hdrs t = hdrs s" "xmem t = xmem s" "chunk_buf_list t = chunk_buf_list s"
  shows "iface_only s t"
proof -
  have "t = s\<lparr>open_cnt := open_cnt t, proc_file := proc_file t, dev := dev t, klog := klog t, data_cl := data_cl t\<rparr>"
    using assms by (cases s; cases t) (simp add: ctl_def)
  then show ?thesis unfolding iface_only_def by blast
qed

lemma iface_init_ok:
  shows "\<exists>r t evs. ads131m08_iface_init K s = (r, t) \<and> iface_only s t \<and> klog t = klog s @ evs \<and> open_cnt t = 0 \<and>
    (r = SUCCESS \<and> evs = iface_up \<and> proc_file t \<or> r = FAIL \<and> all_released evs)"
proof -
  obtain ok d1 where 1: "proc_create K (dev s) = (ok, d1)" by (cases "proc_create K (dev s)")
  obtain a d2 where 2: "alloc_chrdev_region K d1 = (a, d2)" by (cases "alloc_chrdev_region K d1")
  obtain c d3 where 3: "cdev_add K d2 = (c, d3)" by (cases "cdev_add K d2")
  obtain l d4 where 4: "class_create K d3 = (l, d4)" by (cases "class_create K d3")
  obtain v d5 where 5: "device_create K d4 = (v, d5)" by (cases "device_create K d4")
  note U = ads131m08_iface_init_def proc_file_init_def fops_init_def proc_file_exit_def kcall_def Let_def
    SUCCESS_def FAIL_def
  note W = all_released_def reg_pairs_def iface_up_def
  consider "\<not> ok" | "ok" "a < 0" | "ok" "0 \<le> a" "c < 0" | "ok" "0 \<le> a" "0 \<le> c" "l < 0"
    | "ok" "0 \<le> a" "0 \<le> c" "0 \<le> l" "v < 0" | "ok" "0 \<le> a" "0 \<le> c" "0 \<le> l" "0 \<le> v" by linarith
  then show ?thesis
  proof cases
    case 1
    with \<open>proc_create K (dev s) = (ok, d1)\<close> show ?thesis
      by (simp add: U W log_ev_def) (rule iface_onlyI; simp add: ctl_def)
  next
    case c: 2
    with 1 2 show ?thesis by (simp add: U W log_ev_def) (rule iface_onlyI; simp add: ctl_def)
  next
    case c: 3
    with 1 2 3 show ?thesis by (simp add: U W log_ev_def) (rule iface_onlyI; simp add: ctl_def)
  next
    case c: 4
    with 1 2 3 4 show ?thesis by (simp add: U W log_ev_def) (rule iface_onlyI; simp add: ctl_def)
  next
    case c: 5
    with 1 2 3 4 5 show ?thesis by (simp add: U W log_ev_def) (rule iface_onlyI; simp add: ctl_def)
  next
    case c: 6
    with 1 2 3 4 5 show ?thesis by (simp add: U W log_ev_def) (rule iface_onlyI; simp add: ctl_def)
  qed
qed

section \<open>Probe\<close>

definition adc_rst_log :: "'d drv \<Rightarrow> kev list" where
  "adc_rst_log s = (if reset_gpiod s then [KGpio True, KMsleep 1, KGpio False] else [])"

lemma adc_rst_ok:
  assumes "ads131m08_data s"
  shows "ads131m08_adc_rst s = s\<lparr>klog := klog s @ adc_rst_log s\<rparr>"
  using assms by (simp add: ads131m08_adc_rst_def adc_rst_log_def log_ev_def)

lemma gpio_exit_ok:
  assumes "drv_inv s R A F H X bs" "\<not> irq_registered s"
  shows "ads131m08_gpio_exit s = s"
  using assms by (simp add: ads131m08_gpio_exit_def ads131m08_gpio_clr_irq_def)

lemma iface_exit_ok:
  "\<exists>t. ads131m08_iface_exit s = t \<and> iface_only s t \<and>
     klog t = klog s @ (if proc_file s then [KProcRemove] else [])
       @ (if ads131m08_data s \<and> data_cl s then [KDevDestroy, KClassDestroy, KCdevDel, KUnregRegion] else [])"
proof -
  have "iface_only s (ads131m08_iface_exit s)"
    by (rule iface_onlyI) (auto simp: ads131m08_iface_exit_def proc_file_exit_def fops_exit_def log_ev_def ctl_def)
  then show ?thesis
    by (auto simp: ads131m08_iface_exit_def proc_file_exit_def fops_exit_def)
qed

text \<open>The transfer buffers allocated in \<open>t\<close> were there in \<open>s\<close>.\<close>

definition no_new_xfer :: "'d drv \<Rightarrow> 'd drv \<Rightarrow> bool" where
  "no_new_xfer s t \<longleftrightarrow> (\<forall>x. Xfer x \<in> dom (elms t) \<longrightarrow> Xfer x \<in> dom (elms s))"

text \<open>The stage of probe after \<open>ads131m08_data_init\<close>.\<close>

definition probe_tail :: "'d kenv \<Rightarrow> 'd drv \<Rightarrow> (int \<times> 'd drv) option" where
  "probe_tail K s =
     (case ads131m08_gpio_init K s of (ret, s) \<Rightarrow>
        if ret < 0 then err_spi ret s
        else
          case ads131m08_iface_init K s of (ret, s) \<Rightarrow>
          if ret < 0 then err_gpio ret s
          else do {
            (ret, s) \<leftarrow> ads131m08_cmd_standby K (ads131m08_adc_rst s);
            (if ret < 0 then err_iface ret s else Some (SUCCESS, s)) })"

text \<open>Once the class exists, a non-zero class pointer is what \<open>fops_exit\<close> looks for.\<close>

lemma iface_init_class:
  assumes "ads131m08_iface_init K s = (SUCCESS, t)" "\<And>d. fst (class_create K d) \<noteq> 0"
  shows "data_cl t"
  using assms
  by (auto simp: ads131m08_iface_init_def proc_file_init_def fops_init_def kcall_def Let_def SUCCESS_def FAIL_def
      split: prod.splits if_splits) (metis fst_conv)+

text \<open>The error labels of probe tear down what was set up, in reverse order.\<close>

definition torn_down :: "'d drv \<Rightarrow> nat list \<Rightarrow> 'd drv \<Rightarrow> kev list \<Rightarrow> bool" where
  "torn_down s X t evs \<longleftrightarrow> klog t = klog s @ evs \<and> dom (elms t) = dom (elms s) - Xfer ` set X \<and> \<not> spi_hdlr t"

definition iface_down :: "kev list" where
  "iface_down = [KProcRemove, KDevDestroy, KClassDestroy, KCdevDel, KUnregRegion]"

lemma err_spi_ok:
  assumes "drv_inv s R A F H X bs"
  shows "\<exists>t. err_spi ret s = Some (ret, t) \<and> torn_down s X t []"
  using spi_exit_ok [OF assms] by (auto simp: err_spi_def torn_down_def)

lemma err_gpio_ok:
  assumes "drv_inv s R A F H X bs" "\<not> irq_registered s"
  shows "\<exists>t. err_gpio ret s = Some (ret, t) \<and> torn_down s X t []"
  using err_spi_ok [OF assms(1)] gpio_exit_ok [OF assms] by (simp add: err_gpio_def)

lemma err_iface_ok:
  assumes I: "drv_inv s R A F H X bs" and irq: "\<not> irq_registered s" and reg: "proc_file s" "data_cl s"
  shows "\<exists>t. err_iface ret s = Some (ret, t) \<and> torn_down s X t iface_down"
proof -
  obtain u where u: "ads131m08_iface_exit s = u" "iface_only s u" "klog u = klog s @ iface_down"
    using iface_exit_ok [of s] reg drv_inv_data [OF I] by (auto simp: iface_down_def)
  note io = iface_onlyD [OF u(2)]
  have "drv_inv u R A F H X bs" "\<not> irq_registered u" using I irq io by simp_all
  from err_gpio_ok [OF this, of ret] obtain t where "err_gpio ret u = Some (ret, t)" "torn_down u X t []" by blast
  with u io(5) show ?thesis by (simp add: err_iface_def torn_down_def)
qed

text \<open>The result of the last stages of probe: the driver is up, or all is torn down.\<close>

definition tail_done ::
    "'d kenv \<Rightarrow> 'd drv \<Rightarrow> nat list \<Rightarrow> nat list \<Rightarrow> nat list \<Rightarrow> nat list \<Rightarrow> nat list \<Rightarrow> chunk_buf list \<Rightarrow> int \<Rightarrow> 'd drv \<Rightarrow> kev list \<Rightarrow> bool" where
  "tail_done K s R A F H X bs ret t evs \<longleftrightarrow>
    (if ret = SUCCESS
     then (\<exists>X'. drv_inv t R A F H X' bs \<and> mset X' = mset X) \<and> spi_hdlr t \<and> run_stat t = run_stat s \<and>
       chunk_sz t = chunk_sz s \<and> open_cnt t = 0 \<and> \<not> irq_registered t \<and> irq_line K t \<and> klog t = klog s @ evs \<and>
       evs = iface_up @ adc_rst_log t @ [KSpi (trx_frame CMD_STANDBY [] 1)]
     else all_released evs \<and> torn_down s X t evs)"

lemma tail_doneI:
  assumes "torn_down t1 X' t evs2" "klog t1 = klog s @ evs1" "dom (elms t1) = dom (elms s)" "mset X' = mset X"
    "all_released (evs1 @ evs2)" "ret < 0"
  shows "tail_done K s R A F H X bs ret t (evs1 @ evs2)"
  using assms mset_eq_setD [OF assms(4)] by (simp add: tail_done_def torn_down_def SUCCESS_def)

text \<open>The last stage: reset and standby, with the device node registered.\<close>

lemma probe_standby_ok:
  assumes I: "drv_inv s R A F H X bs" and up: "spi_hdlr s" and irq: "\<not> irq_registered s"
    and reg: "proc_file s" "data_cl s" "open_cnt s = 0" "irq_line K s"
  shows "\<exists>ret t evs. do { (ret, s) \<leftarrow> ads131m08_cmd_standby K (ads131m08_adc_rst s);
      (if ret < 0 then err_iface ret s else Some (SUCCESS, s)) } = Some (ret, t) \<and>
    klog t = klog s @ evs \<and>
    (ret < 0 \<and> evs = adc_rst_log s @ KSpi (trx_frame CMD_STANDBY [] 1) # iface_down \<and> torn_down s X t evs \<or>
     ret = SUCCESS \<and> evs = adc_rst_log t @ [KSpi (trx_frame CMD_STANDBY [] 1)] \<and>
       (\<exists>X'. drv_inv t R A F H X' bs \<and> mset X' = mset X) \<and> ctl t = ctl s)"
proof -
  let ?s3 = "s\<lparr>klog := klog s @ adc_rst_log s\<rparr>"
  have a3: "ads131m08_adc_rst s = ?s3" using adc_rst_ok drv_inv_data [OF I] by blast
  obtain ret rxd d where sp: "spi_sync_transfer K (dev ?s3) (trx_frame CMD_STANDBY [] 1) = (ret, rxd, d)"
    by (cases "spi_sync_transfer K (dev ?s3) (trx_frame CMD_STANDBY [] 1)")
  have I3: "drv_inv ?s3 R A F H X bs" "spi_hdlr ?s3" using I up by simp_all
  from strobe_drv [OF I3 sp] obtain t4 X' where
    t4: "cmd_strobe K CMD_STANDBY [] 0 0 ?s3 = Some (ret, t4)" "drv_inv t4 R A F H X' bs"
      "drv_step ?s3 X [KSpi (trx_frame CMD_STANDBY [] 1)] t4 X'" by blast
  have c4: "ctl t4 = ctl s" using t4(3) by (simp add: drv_step_def)
  note f4 = ctl_fields [OF c4]
  have k4: "klog t4 = klog s @ adc_rst_log s @ [KSpi (trx_frame CMD_STANDBY [] 1)]"
    and m4: "mset X' = mset X" "dom (elms t4) = dom (elms s)" using t4(3) by (simp_all add: drv_step_def)
  have run: "ads131m08_cmd_standby K (ads131m08_adc_rst s) = Some (ret, t4)"
    using a3 t4(1) by (simp add: ads131m08_cmd_standby_def)
  have rl: "adc_rst_log t4 = adc_rst_log s" using f4 by (simp add: adc_rst_log_def)
  show ?thesis
  proof (cases "ret < 0")
    case False
    with run k4 m4 t4(2) c4 rl show ?thesis
      by (intro exI [of _ SUCCESS] exI [of _ t4]
          exI [of _ "adc_rst_log s @ [KSpi (trx_frame CMD_STANDBY [] 1)]"]) auto
  next
    case True
    have "\<not> irq_registered t4" "proc_file t4" "data_cl t4" using irq reg f4 by simp_all
    from err_iface_ok [OF t4(2) this, of ret] obtain t where "err_iface ret t4 = Some (ret, t)"
      "torn_down t4 X' t iface_down" by blast
    with True run k4 m4 mset_eq_setD [OF m4(1)] show ?thesis
      by (intro exI [of _ ret] exI [of _ t] exI [of _ "adc_rst_log s @ KSpi (trx_frame CMD_STANDBY [] 1) # iface_down"])
        (simp add: torn_down_def)
  qed
qed

lemma probe_log_released:
  "all_released (iface_up @ adc_rst_log s @ KSpi tx # iface_down)"
  by (simp add: all_released_def reg_pairs_def iface_up_def iface_down_def adc_rst_log_def)

text \<open>The stages before it: GPIO lines, then the registrations.\<close>

lemma probe_iface_ok:
  assumes I: "drv_inv s R A F H X bs" and up: "spi_hdlr s" and irq: "\<not> irq_registered s" and il: "irq_line K s"
    and cl: "\<And>d. fst (class_create K d) \<noteq> 0"
  shows "\<exists>ret t evs. (case ads131m08_iface_init K s of (ret, s) \<Rightarrow>
      if ret < 0 then err_gpio ret s
      else do { (ret, s) \<leftarrow> ads131m08_cmd_standby K (ads131m08_adc_rst s);
                (if ret < 0 then err_iface ret s else Some (SUCCESS, s)) }) = Some (ret, t) \<and>
    tail_done K s R A F H X bs ret t evs"
proof -
  obtain r2 t2 evs where
    i: "ads131m08_iface_init K s = (r2, t2)" "iface_only s t2" "klog t2 = klog s @ evs" "open_cnt t2 = 0"
      "r2 = SUCCESS \<and> evs = iface_up \<and> proc_file t2 \<or> r2 = FAIL \<and> all_released evs"
    using iface_init_ok [of K s] by blast
  note io = iface_onlyD [OF i(2)]
  have I2: "drv_inv t2 R A F H X bs" "spi_hdlr t2" "\<not> irq_registered t2" "irq_line K t2"
    using I up irq il io by (simp_all add: irq_line_def)
  show ?thesis
  proof (cases "r2 < 0")
    case True
    with i(5) have e: "all_released evs" by (auto simp: SUCCESS_def)
    from err_gpio_ok [OF I2(1,3), of r2] obtain t where t: "err_gpio r2 t2 = Some (r2, t)" "torn_down t2 X t []" by blast
    have "tail_done K s R A F H X bs r2 t (evs @ [])"
      by (rule tail_doneI [OF t(2) i(3)]) (use e True io(5) in simp_all)
    with t(1) i(1) True show ?thesis by auto
  next
    case False
    with i(5) have e: "r2 = SUCCESS" "evs = iface_up" "proc_file t2" by (auto simp: FAIL_def)
    have cl2: "data_cl t2" using iface_init_class [OF _ cl] i(1) e(1) by blast
    from probe_standby_ok [OF I2(1,2,3) e(3) cl2 i(4) I2(4)] obtain ret t evs2 where
      t: "do { (ret, s) \<leftarrow> ads131m08_cmd_standby K (ads131m08_adc_rst t2);
          (if ret < 0 then err_iface ret s else Some (SUCCESS, s)) } = Some (ret, t)" "klog t = klog t2 @ evs2"
      and r: "ret < 0 \<and> evs2 = adc_rst_log t2 @ KSpi (trx_frame CMD_STANDBY [] 1) # iface_down \<and> torn_down t2 X t evs2 \<or>
        ret = SUCCESS \<and> evs2 = adc_rst_log t @ [KSpi (trx_frame CMD_STANDBY [] 1)] \<and>
          (\<exists>X'. drv_inv t R A F H X' bs \<and> mset X' = mset X) \<and> ctl t = ctl t2" by blast
    have "tail_done K s R A F H X bs ret t (iface_up @ evs2)"
      using r
    proof (elim disjE conjE)
      assume "ret < 0" "evs2 = adc_rst_log t2 @ KSpi (trx_frame CMD_STANDBY [] 1) # iface_down" "torn_down t2 X t evs2"
      then show ?thesis using i(3) io(5) e(2) probe_log_released
        by (intro tail_doneI [of t2 X]) simp_all
    next
      assume c: "ctl t = ctl t2" and "ret = SUCCESS" "evs2 = adc_rst_log t @ [KSpi (trx_frame CMD_STANDBY [] 1)]"
        "\<exists>X'. drv_inv t R A F H X' bs \<and> mset X' = mset X"
      with ctl_fields [OF c] I2 io t(2) i(3,4) e(2) show ?thesis by (simp add: tail_done_def irq_line_def)
    qed
    with t(1) i(1) False show ?thesis by auto
  qed
qed

lemma probe_tail_ok:
  assumes I: "drv_inv s R A F H X bs" and up: "spi_hdlr s" and cl: "\<And>d. fst (class_create K d) \<noteq> 0"
  shows "\<exists>ret t evs. probe_tail K s = Some (ret, t) \<and> tail_done K s R A F H X bs ret t evs"
proof -
  from gpio_init_ok [OF I] obtain r1 t1 where
    g: "ads131m08_gpio_init K s = (r1, t1)" "drv_inv t1 R A F H X bs" "klog t1 = klog s" "\<not> irq_registered t1"
      "spi_hdlr t1 = spi_hdlr s" "run_stat t1 = run_stat s" "elms t1 = elms s" "chunk_sz t1 = chunk_sz s"
      "r1 \<le> 0" "r1 = 0 \<longrightarrow> irq_line K t1" by blast
  show ?thesis
  proof (cases "r1 < 0")
    case True
    from err_spi_ok [OF g(2), of r1] obtain t where t: "err_spi r1 t1 = Some (r1, t)" "torn_down t1 X t []" by blast
    have "tail_done K s R A F H X bs r1 t ([] @ [])"
      by (rule tail_doneI [OF t(2)]) (use g True in \<open>simp_all add: all_released_def\<close>)
    with t g(1) True show ?thesis by (auto simp: probe_tail_def)
  next
    case False
    with g have il: "irq_line K t1" and up1: "spi_hdlr t1" using up by simp_all
    from probe_iface_ok [OF g(2) up1 g(4) il cl] obtain ret t evs where
      "probe_tail K s = Some (ret, t)" "tail_done K t1 R A F H X bs ret t evs"
      using g(1) False by (auto simp: probe_tail_def)
    moreover from this(2) g have "tail_done K s R A F H X bs ret t evs"
      by (cases "ret = SUCCESS") (simp_all add: tail_done_def torn_down_def)
    ultimately show ?thesis by blast
  qed
qed

lemma probe_unfold:
  "ads131m08_probe K s = do {
     (ret, s) \<leftarrow> ads131m08_data_init K s;
     (if ret < 0 then Some (ret, s)
      else
        case kcall (spi_mode_setup K) s of (ret, s) \<Rightarrow>
        if ret \<noteq> 0 then Some (ret, s)
        else do { (ret, s) \<leftarrow> ads131m08_spi_init K s;
                  (if ret < 0 then Some (ret, s) else probe_tail K s) }) }"
  unfolding ads131m08_probe_def probe_tail_def ..

lemma new_list_fail:
  "devm_kzalloc K (dev s) = (False, d) \<Longrightarrow> new_list K l s = (None, s\<lparr>dev := d\<rparr>)"
  by (simp add: new_list_def kcall_def list_new_def)

definition probe_ready :: "'d kenv \<Rightarrow> 'd drv \<Rightarrow> 'd drv \<Rightarrow> kev list \<Rightarrow> bool" where
  "probe_ready K s t evs \<longleftrightarrow>
     (\<exists>X. sys_inv t [] [] [0..<CHUNK_BUF_CNT] [] X (replicate CHUNK_BUF_CNT fresh_chunk_buf) \<and>
          mset X = mset [next_xfer s..<next_xfer s + XFER_BUF_NUM]) \<and>
     run_stat t = ADC_STOP \<and> chunk_sz t = DEFAULT_CHUNK_SZ \<and> open_cnt t = 0 \<and> irq_line K t \<and>
     evs = iface_up @ adc_rst_log t @ [KSpi (trx_frame CMD_STANDBY [] 1)]"

text \<open>What probe leaves behind, in each outcome.\<close>

definition probe_done :: "'d kenv \<Rightarrow> 'd drv \<Rightarrow> int \<Rightarrow> 'd drv \<Rightarrow> kev list \<Rightarrow> bool" where
  "probe_done K s ret t evs \<longleftrightarrow> klog t = klog s @ evs \<and>
    (if ret = SUCCESS then probe_ready K s t evs
     else all_released evs \<and> (ret = - ENOMEM \<or> no_new_xfer s t))"

lemma probe_done_enomem: "klog t = klog s \<Longrightarrow> probe_done K s (- ENOMEM) t []"
  by (simp add: probe_done_def all_released_def ENOMEM_def SUCCESS_def)

text \<open>Once the data module is up: the transport is brought up, and then the rest.\<close>

lemma probe_transport_ok:
  assumes D: "data_inv s [] [] [0..<CHUNK_BUF_CNT] [] None (replicate CHUNK_BUF_CNT fresh_chunk_buf)"
    and fr: "fresh_xfers s" and f: "chunk_sz s = DEFAULT_CHUNK_SZ" "run_stat s = ADC_STOP"
    and cl: "\<And>d. fst (class_create K d) \<noteq> 0"
  shows "\<exists>ret t evs. do { (ret, s) \<leftarrow> ads131m08_spi_init K s;
        (if ret < 0 then Some (ret, s) else probe_tail K s) } = Some (ret, t) \<and> probe_done K s ret t evs"
proof -
  obtain ok d3 where dm: "devm_kzalloc K (dev s) = (ok, d3)" by (cases "devm_kzalloc K (dev s)")
  obtain j d4 where kz: "kz_ok K XFER_BUF_NUM d3 = (j, d4)" by (cases "kz_ok K XFER_BUF_NUM d3")
  let ?X = "[next_xfer s..<next_xfer s + j]"
  consider "\<not> ok" | "ok" "j \<noteq> XFER_BUF_NUM" | "ok" "j = XFER_BUF_NUM" by blast
  then show ?thesis
  proof cases
    case 1
    with dm new_list_fail [of K s d3] have "\<exists>t. ads131m08_spi_init K s = Some (- ENOMEM, t) \<and> klog t = klog s"
      by (simp add: ads131m08_spi_init_def xfer_buf_init_def ENOMEM_def)
    then show ?thesis using probe_done_enomem by (fastforce simp: ENOMEM_def)
  next
    case 2
    with spi_init_ok [OF D fr _ kz] dm obtain t where "ads131m08_spi_init K s = Some (- ENOMEM, t)" "klog t = klog s"
      by auto
    then show ?thesis using probe_done_enomem by (fastforce simp: ENOMEM_def)
  next
    case 3
    with dm have dm1: "devm_kzalloc K (dev s) = (True, d3)" by simp
    from spi_init_ok [OF D fr dm1 kz] 3(2) obtain s3 where i: "ads131m08_spi_init K s = Some (0, s3)"
        "data_inv s3 [] [] [0..<CHUNK_BUF_CNT] [] (Some ?X) (replicate CHUNK_BUF_CNT fresh_chunk_buf)"
        "xfer_list s3 = Some XferL" "mem_ok (xmem s3) (set ?X)" "klog s3 = klog s" "spi_hdlr s3"
      and c3: "ctl (s3\<lparr>xfer_list := xfer_list s, spi_hdlr := spi_hdlr s, next_xfer := next_xfer s\<rparr>) = ctl s"
      and dom3: "dom (elms s3) \<subseteq> dom (elms s) \<union> Xfer ` set ?X" by auto
    have I3: "drv_inv s3 [] [] [0..<CHUNK_BUF_CNT] [] ?X (replicate CHUNK_BUF_CNT fresh_chunk_buf)"
      using i 3(2) by (simp add: drv_inv_def XFER_BUF_NUM_def)
    note f3 = ctl_fields [OF c3, simplified]
    from probe_tail_ok [OF I3 i(6) cl] obtain ret t evs where t: "probe_tail K s3 = Some (ret, t)"
      and r: "tail_done K s3 [] [] [0..<CHUNK_BUF_CNT] [] ?X (replicate CHUNK_BUF_CNT fresh_chunk_buf) ret t evs" by blast
    have "probe_done K s ret t evs"
    proof (cases "ret = SUCCESS")
      case True
      with r f3 f i(5) 3(2) show ?thesis by (auto simp: probe_done_def probe_ready_def sys_inv_def tail_done_def)
    next
      case False
      with r i(5) dom3 show ?thesis by (auto simp: tail_done_def torn_down_def probe_done_def no_new_xfer_def)
    qed
    with i(1) t show ?thesis by (simp; blast)
  qed
qed

lemma probe_ok:
  assumes R: "heap_rep s (\<lambda>_. None)" and fr: "fresh_xfers s" and cl: "\<And>d. fst (class_create K d) \<noteq> 0"
  shows "\<exists>ret t evs. ads131m08_probe K s = Some (ret, t) \<and> klog t = klog s @ evs \<and>
    (if ret = SUCCESS then probe_ready K s t evs
     else all_released evs \<and> (ret = - ENOMEM \<or> no_new_xfer s t))"
  unfolding probe_done_def [symmetric]
proof -
  obtain oks d where al: "data_allocs K (dev s) = (oks, d)" by (cases "data_allocs K (dev s)")
  have len: "length oks = 5" using al by (auto simp: data_allocs_def split: prod.splits)
  show "\<exists>ret t evs. ads131m08_probe K s = Some (ret, t) \<and> probe_done K s ret t evs"
  proof (cases "False \<in> set oks")
    case True
    from data_init_fail [OF al True] obtain t where "ads131m08_data_init K s = Some (- ENOMEM, t)"
      "klog t = klog s" by blast
    then show ?thesis using probe_done_enomem by (fastforce simp: probe_unfold ENOMEM_def)
  next
    case False
    then have "y = True" if "y \<in> set oks" for y using that by (cases y) simp_all
    with len have "oks = replicate 5 True" by (intro replicate_eqI) simp_all
    with al have al5: "data_allocs K (dev s) = (replicate 5 True, d)" by simp
    from data_init_ok [OF R al5] obtain s1 where s1: "ads131m08_data_init K s = Some (SUCCESS, s1)"
      and D1: "data_inv s1 [] [] [0..<CHUNK_BUF_CNT] [] None (replicate CHUNK_BUF_CNT fresh_chunk_buf)"
      and f1: "chunk_sz s1 = DEFAULT_CHUNK_SZ" "run_stat s1 = ADC_STOP" "dev s1 = d" "klog s1 = klog s"
        "xmem s1 = xmem s" "next_xfer s1 = next_xfer s"
      and e1: "\<And>x. Xfer x \<in> dom (elms s1) \<longleftrightarrow> Xfer x \<in> dom (elms s)" by blast
    obtain sr d2 where ss: "spi_mode_setup K d = (sr, d2)" by (cases "spi_mode_setup K d")
    let ?s2 = "s1\<lparr>dev := d2\<rparr>"
    have D2: "data_inv ?s2 [] [] [0..<CHUNK_BUF_CNT] [] None (replicate CHUNK_BUF_CNT fresh_chunk_buf)"
      using D1 by (simp add: data_inv_def)
    have "Xfer x \<notin> dom (elms s1)" if "next_xfer s \<le> x" for x
      unfolding e1 using fr that by (simp add: fresh_xfers_def domIff)
    then have fr2: "fresh_xfers ?s2" using f1(6) by (simp add: fresh_xfers_def domIff)
    have "probe_done K s ret t evs = probe_done K ?s2 ret t evs" for ret t evs
      using f1 e1 by (simp add: probe_done_def probe_ready_def no_new_xfer_def)
    moreover have "probe_done K s sr ?s2 []" if "sr \<noteq> 0"
      using that f1 e1 by (simp add: probe_done_def SUCCESS_def no_new_xfer_def all_released_def)
    ultimately show ?thesis
      using s1 ss f1 probe_transport_ok [OF D2 fr2 _ _ cl] by (auto simp: probe_unfold kcall_def SUCCESS_def)
  qed
qed

section \<open>A kernel that grants everything\<close>

definition willing :: "'d kenv \<Rightarrow> bool" where
  "willing K \<longleftrightarrow> (\<forall>d. fst (devm_kzalloc K d) \<and> fst (kzalloc K d) \<and> fst (spi_mode_setup K d) = 0 \<and>
     0 \<le> fst (gpiod_get_drdy K d) \<and> 0 \<le> fst (gpiod_get_reset K d) \<and> 0 \<le> fst (gpiod_to_irq K d) \<and>
     fst (proc_create K d) \<and> 0 \<le> fst (alloc_chrdev_region K d) \<and> 0 \<le> fst (cdev_add K d) \<and>
     0 < fst (class_create K d) \<and> 0 \<le> fst (device_create K d) \<and>
     (\<forall>f. 0 \<le> fst (spi_sync_transfer K d f)))"

lemma willing_calls:
  assumes "willing K"
  shows "devm_kzalloc K d = (b1, e) \<Longrightarrow> b1" "kzalloc K d = (b2, e) \<Longrightarrow> b2" "spi_mode_setup K d = (n1, e) \<Longrightarrow> n1 = 0"
    "gpiod_get_drdy K d = (n2, e) \<Longrightarrow> 0 \<le> n2" "gpiod_get_reset K d = (n3, e) \<Longrightarrow> 0 \<le> n3"
    "gpiod_to_irq K d = (n4, e) \<Longrightarrow> 0 \<le> n4" "proc_create K d = (b3, e) \<Longrightarrow> b3"
    "alloc_chrdev_region K d = (n5, e) \<Longrightarrow> 0 \<le> n5" "cdev_add K d = (n6, e) \<Longrightarrow> 0 \<le> n6"
    "class_create K d = (n7, e) \<Longrightarrow> 0 < n7" "device_create K d = (n8, e) \<Longrightarrow> 0 \<le> n8"
    "spi_sync_transfer K d f = (n9, rx, e) \<Longrightarrow> 0 \<le> n9"
  using assms [unfolded willing_def, THEN spec [where x = d]] by (auto dest: spec [where x = f])

lemma kz_ok_all:
  assumes K: "willing K"
  shows "fst (kz_ok K n d) = n"
proof (induction n arbitrary: d)
  case (Suc n)
  obtain ok e where z: "kzalloc K d = (ok, e)" by (cases "kzalloc K d")
  then have "ok" by (rule willing_calls(2) [OF K])
  with z Suc [of e] show ?case by (cases "kz_ok K n e") simp
qed simp

lemma gpio_init_willing:
  assumes K: "willing K" and d: "ads131m08_data s"
  shows "fst (ads131m08_gpio_init K s) = SUCCESS"
proof -
  obtain p d1 where 1: "gpiod_get_drdy K (dev s) = (p, d1)" by (cases "gpiod_get_drdy K (dev s)")
  obtain q d2 where 2: "gpiod_get_reset K d1 = (q, d2)" by (cases "gpiod_get_reset K d1")
  obtain n d3 where 3: "gpiod_to_irq K d2 = (n, d3)" by (cases "gpiod_to_irq K d2")
  from willing_calls(4) [OF K 1] willing_calls(5) [OF K 2] willing_calls(6) [OF K 3] 1 2 3 d show ?thesis
    by (simp add: ads131m08_gpio_init_def kcall_def Let_def)
qed

lemma iface_init_willing:
  assumes K: "willing K"
  shows "fst (ads131m08_iface_init K s) = SUCCESS"
proof -
  obtain ok d1 where 1: "proc_create K (dev s) = (ok, d1)" by (cases "proc_create K (dev s)")
  obtain a d2 where 2: "alloc_chrdev_region K d1 = (a, d2)" by (cases "alloc_chrdev_region K d1")
  obtain c d3 where 3: "cdev_add K d2 = (c, d3)" by (cases "cdev_add K d2")
  obtain l d4 where 4: "class_create K d3 = (l, d4)" by (cases "class_create K d3")
  obtain v d5 where 5: "device_create K d4 = (v, d5)" by (cases "device_create K d4")
  from willing_calls(7) [OF K 1] willing_calls(8) [OF K 2] willing_calls(9) [OF K 3]
    willing_calls(10) [OF K 4] willing_calls(11) [OF K 5] 1 2 3 4 5 show ?thesis
    by (simp add: ads131m08_iface_init_def proc_file_init_def fops_init_def kcall_def Let_def SUCCESS_def)
qed

lemma data_allocs_willing:
  assumes K: "willing K"
  shows "fst (data_allocs K d) = replicate 5 True"
proof -
  obtain b1 d1 where 1: "devm_kzalloc K d = (b1, d1)" by (cases "devm_kzalloc K d")
  obtain b2 d2 where 2: "devm_kzalloc K d1 = (b2, d2)" by (cases "devm_kzalloc K d1")
  obtain b3 d3 where 3: "devm_kzalloc K d2 = (b3, d3)" by (cases "devm_kzalloc K d2")
  obtain b4 d4 where 4: "devm_kzalloc K d3 = (b4, d4)" by (cases "devm_kzalloc K d3")
  obtain b5 d5 where 5: "devm_kzalloc K d4 = (b5, d5)" by (cases "devm_kzalloc K d4")
  note w = willing_calls(1) [OF K]
  from w [OF 1] w [OF 2] w [OF 3] w [OF 4] w [OF 5] 1 2 3 4 5 show ?thesis
    by (simp add: data_allocs_def numeral_eq_Suc)
qed

lemma probe_tail_willing:
  assumes K: "willing K" and I: "drv_inv s R A F H X bs" and up: "spi_hdlr s"
  shows "\<exists>t. probe_tail K s = Some (SUCCESS, t)"
proof -
  from gpio_init_ok [OF I, of K] gpio_init_willing [OF K drv_inv_data [OF I]] obtain t1 where
    g: "ads131m08_gpio_init K s = (SUCCESS, t1)" "drv_inv t1 R A F H X bs" "spi_hdlr t1 = spi_hdlr s"
    by auto
  obtain t2 where i: "ads131m08_iface_init K t1 = (SUCCESS, t2)" "iface_only t1 t2"
    using iface_init_ok [of K t1] iface_init_willing [OF K, of t1] by auto
  have I2: "drv_inv t2 R A F H X bs" "spi_hdlr t2" using g(2,3) up iface_onlyD [OF i(2)] by simp_all
  have a3: "ads131m08_adc_rst t2 = t2\<lparr>klog := klog t2 @ adc_rst_log t2\<rparr>"
    using adc_rst_ok drv_inv_data [OF I2(1)] by blast
  let ?s3 = "t2\<lparr>klog := klog t2 @ adc_rst_log t2\<rparr>"
  have I3: "drv_inv ?s3 R A F H X bs" "spi_hdlr ?s3" using I2 by simp_all
  obtain ret rxd d where sp: "spi_sync_transfer K (dev ?s3) (trx_frame CMD_STANDBY [] 1) = (ret, rxd, d)"
    by (cases "spi_sync_transfer K (dev ?s3) (trx_frame CMD_STANDBY [] 1)")
  have "0 \<le> ret" using sp by (rule willing_calls(12) [OF K])
  with strobe_drv [OF I3 sp] g(1) i(1) a3 show ?thesis
    by (auto simp: probe_tail_def SUCCESS_def ads131m08_cmd_standby_def)
qed

lemma probe_willing:
  assumes K: "willing K" and R: "heap_rep s (\<lambda>_. None)" and fr: "fresh_xfers s"
  shows "\<exists>t. ads131m08_probe K s = Some (SUCCESS, t)"
proof -
  obtain oks d where al: "data_allocs K (dev s) = (oks, d)" by (cases "data_allocs K (dev s)")
  have "oks = replicate 5 True" using al data_allocs_willing [OF K, of "dev s"] by simp
  with al have al5: "data_allocs K (dev s) = (replicate 5 True, d)" by simp
  from data_init_ok [OF R al5] obtain s1 where s1: "ads131m08_data_init K s = Some (SUCCESS, s1)"
    "data_inv s1 [] [] [0..<CHUNK_BUF_CNT] [] None (replicate CHUNK_BUF_CNT fresh_chunk_buf)"
    "dev s1 = d" "next_xfer s1 = next_xfer s" "\<And>x. Xfer x \<in> dom (elms s1) \<longleftrightarrow> Xfer x \<in> dom (elms s)" by blast
  obtain d2 where ss: "spi_mode_setup K d = (0, d2)" using willing_calls(3) [OF K, of d] by (cases "spi_mode_setup K d") auto
  obtain d3 where dm: "devm_kzalloc K (dev (s1\<lparr>dev := d2\<rparr>)) = (True, d3)"
    using willing_calls(1) [OF K, of d2 "fst (devm_kzalloc K d2)" "snd (devm_kzalloc K d2)"]
    by (cases "devm_kzalloc K d2") auto
  obtain d4 where kz: "kz_ok K XFER_BUF_NUM d3 = (XFER_BUF_NUM, d4)"
    using kz_ok_all [OF K, of XFER_BUF_NUM d3] by (cases "kz_ok K XFER_BUF_NUM d3") auto
  let ?s2 = "s1\<lparr>dev := d2\<rparr>"
  have D2: "data_inv ?s2 [] [] [0..<CHUNK_BUF_CNT] [] None (replicate CHUNK_BUF_CNT fresh_chunk_buf)"
    using s1(2) by (simp add: data_inv_def)
  have fr2: "fresh_xfers ?s2" unfolding fresh_xfers_def
  proof (intro allI impI)
    fix x assume "next_xfer ?s2 \<le> x"
    then have "Xfer x \<notin> dom (elms s)" using fr s1(4) by (auto simp: fresh_xfers_def)
    with s1(5) [of x] show "elms ?s2 (Xfer x) = None" by (simp add: domIff)
  qed
  from spi_init_ok [OF D2 fr2 dm kz] obtain s3 where
    i: "ads131m08_spi_init K ?s2 = Some (0, s3)" "spi_hdlr s3"
      "data_inv s3 [] [] [0..<CHUNK_BUF_CNT] [] (Some [next_xfer ?s2..<next_xfer ?s2 + XFER_BUF_NUM])
         (replicate CHUNK_BUF_CNT fresh_chunk_buf)"
      "xfer_list s3 = Some XferL" "mem_ok (xmem s3) (set [next_xfer ?s2..<next_xfer ?s2 + XFER_BUF_NUM])" by auto
  then have "drv_inv s3 [] [] [0..<CHUNK_BUF_CNT] [] [next_xfer ?s2..<next_xfer ?s2 + XFER_BUF_NUM]
      (replicate CHUNK_BUF_CNT fresh_chunk_buf)"
    by (simp add: drv_inv_def XFER_BUF_NUM_def)
  from probe_tail_willing [OF K this i(2)] s1(1,3) ss i(1) show ?thesis
    by (auto simp: probe_unfold kcall_def SUCCESS_def)
qed

lemma k0_willing: "willing k0"
  by (simp add: willing_def spi_mode_setup_def k0_simps)

lemma drv_off_empty: "heap_rep (drv_off d) (\<lambda>_. None)" "fresh_xfers (drv_off d)"
  by (simp_all add: rep_def drv_off_def fresh_xfers_def)

lemmas drv0_empty = drv_off_empty [of "()", folded drv0_def]

lemma k0_probe: "\<exists>t. ads131m08_probe k0 drv0 = Some (SUCCESS, t)"
  by (rule probe_willing [OF k0_willing drv0_empty])

end
