(* ===== verification/Inv_System.thy ===== *)
theory Inv_System
  imports Prelude
begin

text \<open>
  What a safety argument over interleaved operations needs from a program: an invariant that
  the start states have and every step keeps. The driver provides it in theory System.
\<close>

locale inv_system =
  fixes start :: "'s \<Rightarrow> bool" and step :: "'s \<Rightarrow> 's \<Rightarrow> bool" and inv :: "'s \<Rightarrow> bool"
  assumes start_inv: "start s \<Longrightarrow> inv s"
    and step_inv: "inv s \<Longrightarrow> step s t \<Longrightarrow> inv t"
begin

lemma run_inv:
  assumes "step\<^sup>*\<^sup>* s t" "inv s"
  shows "inv t"
  using assms by (induction rule: rtranclp_induct) (auto intro: step_inv)

lemma reach_inv: "start s \<Longrightarrow> step\<^sup>*\<^sup>* s t \<Longrightarrow> inv t"
  by (rule run_inv, assumption, rule start_inv)

text \<open>Under an invariant that makes an operation total, a reachable state never faults.\<close>

lemma reach_total:
  assumes "start s" "step\<^sup>*\<^sup>* s t" "\<And>u. inv u \<Longrightarrow> f u \<noteq> (None :: 'b option)"
  shows "f t \<noteq> None"
  using assms(3) [OF reach_inv [OF assms(1,2)]] .

end

end
