(* ===== verification/System.thy ===== *)
theory System
  imports Probe Inv_System
begin

text \<open>
  The driver as a transition system: the interrupt, ioctls, and any number of readers. A run
  of the interrupt handler, of its thread, of an ioctl and of release is one step each; a
  reader's fetch of a chunk and its copy to user space are two, and while the chunk is in its
  hands everything else may run. Interleavings inside a step are not modelled.
\<close>

section \<open>Steps\<close>

text \<open>\<open>held\<close>: the chunks in the hands of readers. \<open>sent\<close> and \<open>gone\<close>: the two histories of
  samples, which only grow.\<close>

record 'd world =
  drv :: "'d drv"
  held :: "nat list"
  sent :: "(arrival \<times> smpl) list"
  gone :: "(leave \<times> smpl) list"

abbreviation acquired :: "('d, 'z) world_scheme \<Rightarrow> smpl list" where
  "acquired w \<equiv> with_fate Stored (sent w)"

abbreviation fetched :: "('d, 'z) world_scheme \<Rightarrow> smpl list" where
  "fetched w \<equiv> with_fate Fetched (gone w)"

text \<open>The sample that a run of the interrupt thread clocks out of the device, if the transfer succeeds.
  With no chunk on the active and the free list it is dropped.\<close>

definition irq_samples :: "'d kenv \<Rightarrow> 'd drv \<Rightarrow> (arrival \<times> smpl) list" where
  "irq_samples K s =
     (if \<not> spi_hdlr s then []
      else clocked_out K (if list_get_cnt (active_list s) s = Some 0 \<and> list_get_cnt (free_list s) s = Some 0
                          then Dropped else Stored) s)"

text \<open>Starting and stopping discards what is in the ready and the active chunks.\<close>

definition after_cmd :: "'d drv \<Rightarrow> 'd world \<Rightarrow> 'd world" where
  "after_cmd t w =
     (if run_stat t = run_stat (drv w) then w\<lparr>drv := t\<rparr>
      else w\<lparr>drv := t, gone := gone w @ map (Pair Discarded) (on_list ReadyL (drv w) @ on_list ActiveL (drv w))\<rparr>)"

inductive step :: "'d kenv \<Rightarrow> 'd world \<Rightarrow> 'd world \<Rightarrow> bool" for K where
  env: "step K w (w\<lparr>drv := (drv w)\<lparr>dev := d\<rparr>\<rparr>)"
| isr: "irq_registered (drv w) \<Longrightarrow> step K w (w\<lparr>drv := ads131m08_isr K (drv w)\<rparr>)"
| irq: "irq_registered (drv w) \<Longrightarrow> ads131m08_irq_thread K (drv w) = Some t \<Longrightarrow>
    step K w (w\<lparr>drv := t, sent := sent w @ irq_samples K (drv w)\<rparr>)"
| opn: "step K w (w\<lparr>drv := snd (ads131m08_open (drv w))\<rparr>)"
| rel: "ads131m08_release K (drv w) = Some (ret, t) \<Longrightarrow> step K w (after_cmd t w)"
| ioctl: "ads131m08_ioctl K cmd arg (drv w) = Some (ret, t) \<Longrightarrow> step K w (after_cmd t w)"
| get: "ads131m08_data_get (drv w) = Some (Some (Chunk b), t) \<Longrightarrow> get_buf b t = Some c \<Longrightarrow>
    step K w (w\<lparr>drv := t, held := b # held w, gone := gone w @ map (Pair Fetched) (taken c)\<rparr>)"
| put: "b \<in> set (held w) \<Longrightarrow> read_copy K cnt (Chunk b) (drv w) = Some (ret, t) \<Longrightarrow>
    step K w (w\<lparr>drv := t, held := remove1 b (held w)\<rparr>)"

inductive_simps step_simps: "step K w w'"

text \<open>The driver right after a successful probe.\<close>

definition started :: "'d kenv \<Rightarrow> 'd world \<Rightarrow> bool" where
  "started K w \<longleftrightarrow> held w = [] \<and> sent w = [] \<and> gone w = [] \<and>
     (\<exists>s. heap_rep s (\<lambda>_. None) \<and> fresh_xfers s \<and> ads131m08_probe K s = Some (SUCCESS, drv w))"

section \<open>The invariant\<close>

text \<open>\<open>P\<close> is the pool: the transfer buffers probe allocated, which every step gives back.\<close>

definition world_on :: "nat multiset \<Rightarrow> 'd world \<Rightarrow> bool" where
  "world_on P w \<longleftrightarrow> (\<exists>R A F X bs. sys_inv (drv w) R A F (held w) X bs \<and> mset X = P \<and>
     acquired w = map snd (gone w) @ pending bs R A)"

definition world_inv :: "'d world \<Rightarrow> bool" where
  "world_inv w \<longleftrightarrow> (\<exists>P. world_on P w)"

lemma world_onI:
  "sys_inv (drv w) R A F (held w) X bs \<Longrightarrow> mset X = P \<Longrightarrow> acquired w = map snd (gone w) @ pending bs R A \<Longrightarrow> world_on P w"
  unfolding world_on_def by blast

lemma world_invE:
  assumes "world_inv w"
  obtains R A F X bs where "sys_inv (drv w) R A F (held w) X bs" "acquired w = map snd (gone w) @ pending bs R A"
  using assms unfolding world_inv_def world_on_def by blast

lemma sys_inv_perm:
  assumes "sys_inv s R A F H X bs" "mset H' = mset H"
  shows "sys_inv s R A F H' X bs"
proof -
  have "owned R A F H' = owned R A F H" using assms(2) by (simp add: owned_def)
  with assms(1) show ?thesis by (simp add: sys_inv_def drv_inv_def data_inv_def)
qed

lemma irq_samples_eq:
  assumes I: "drv_inv s R A F H X bs" "spi_hdlr s" and io: "spi_sync_transfer K (dev s) (replicate 30 0) = (ret, rxd, d)"
  shows "irq_samples K s = (if ret < 0 then []
    else [(if A @ F = [] then Dropped else Stored, \<lparr>s_ts = smpl_ts s, s_data = frame_smpl rxd\<rparr>)])"
proof -
  have D: "data_inv s R A F H (Some X) bs" using I(1) by (simp add: drv_inv_def)
  have "ads131m08_data_smpl_cnt True True s = Some (int (length R), Some (int (length F)), Some (int (length A)))"
    using data_smpl_cnt_ok [OF D, of True True] by simp
  then have "list_get_cnt (free_list s) s = Some (int (length F))" "list_get_cnt (active_list s) s = Some (int (length A))"
    by (auto simp: ads131m08_data_smpl_cnt_def Option.bind_eq_Some_conv)
  with io I(2) show ?thesis by (simp add: irq_samples_def clocked_out_def)
qed

lemma irq_sys:
  assumes I: "sys_inv s R A F H X bs" and reg: "irq_registered s"
  shows "\<exists>t R' A' F' X' bs'. ads131m08_irq_thread K s = Some t \<and> sys_inv t R' A' F' H X' bs' \<and>
    mset X' = mset X \<and> pending bs' R' A' = pending bs R A @ with_fate Stored (irq_samples K s)"
proof -
  have D: "drv_inv s R A F H X bs" "spi_hdlr s" and run: "run_stat s = ADC_RUN"
    using I reg by (auto simp: sys_inv_def)
  obtain ret rxd d where io: "spi_sync_transfer K (dev s) (replicate 30 0) = (ret, rxd, d)"
    by (cases "spi_sync_transfer K (dev s) (replicate 30 0)")
  from irq_thread_spec [OF D io] obtain t R' A' F' X' bs' where
    t: "ads131m08_irq_thread K s = Some t" "drv_inv t R' A' F' H X' bs'"
      "(pending bs' R' A', drop_cnt t) = irq_spec (A @ F \<noteq> []) ret \<lparr>s_ts = smpl_ts s, s_data = frame_smpl rxd\<rparr>
         (pending bs R A, drop_cnt s)"
      "ctl t = ctl (s\<lparr>drop_cnt := drop_cnt t\<rparr>)" "mset X' = mset X" by blast
  have "pending bs' R' A' = pending bs R A @ with_fate Stored (irq_samples K s)"
    using t(3) irq_samples_eq [OF D io] by (auto simp: irq_spec_def split: if_splits)
  moreover have "sys_inv t R' A' F' H X' bs'"
    using t(2) ctl_fields [OF t(4)] D(2) run by (simp add: sys_inv_def)
  ultimately show ?thesis using t(1,5) by blast
qed

lemma release_sys:
  assumes I: "sys_inv s R A F H X bs" and K: "kenv_ok K"
  shows "\<exists>t R' A' F' X' bs'. ads131m08_release K s = Some (0, t) \<and> sys_inv t R' A' F' H X' bs' \<and>
    mset X' = mset X \<and> run_stat t = ADC_STOP \<and> open_cnt t = 0 \<and>
    (R' = R \<and> A' = A \<and> bs' = bs \<or> R' = [] \<and> A' = [] \<and> run_stat t \<noteq> run_stat s)"
proof -
  have rq: "fst (request_threaded_irq K d n) \<le> 0" for d n using K by (simp add: kenv_ok_def)
  from run_cmd_sys [OF I rq, of ADC_STOP] obtain ret t R' A' F' X' bs' where
    t: "ads131m08_run_cmd K ADC_STOP s = Some (ret, t)" "sys_inv t R' A' F' H X' bs'" "run_stat t = ADC_STOP"
      "R' = R \<and> A' = A \<and> bs' = bs \<or> R' = [] \<and> A' = [] \<and> run_stat t \<noteq> run_stat s" "mset X' = mset X" by blast
  let ?t = "t\<lparr>open_cnt := 0\<rparr>"
  have "ads131m08_release K s = Some (0, ?t)" using t(1) by (simp add: ads131m08_release_def)
  moreover have "sys_inv ?t R' A' F' H X' bs'" "run_stat ?t = ADC_STOP" "open_cnt ?t = 0" using t by simp_all
  moreover have "R' = R \<and> A' = A \<and> bs' = bs \<or> R' = [] \<and> A' = [] \<and> run_stat ?t \<noteq> run_stat s" using t(4) by simp
  ultimately show ?thesis using t(5) by blast
qed

text \<open>The effect of starting and stopping on the history.\<close>

lemma after_cmd_inv:
  assumes I: "sys_inv (drv w) R A F (held w) X bs" and h: "acquired w = map snd (gone w) @ pending bs R A" and t: "sys_inv t R' A' F' (held w) X' bs'"
    and m: "mset X' = P" and c: "R' = R \<and> A' = A \<and> pending bs' R A = pending bs R A \<or>
            R' = [] \<and> A' = [] \<and> run_stat t \<noteq> run_stat (drv w)"
    and stop: "run_stat t \<noteq> run_stat (drv w) \<Longrightarrow> R' = [] \<and> A' = []"
  shows "world_on P (after_cmd t w)"
proof (cases "run_stat t = run_stat (drv w)")
  case True
  with c have "R' = R" "A' = A" "pending bs' R A = pending bs R A" by simp_all
  with h t m True show ?thesis
    by (intro world_onI [of _ R A F' X' bs']) (simp_all add: after_cmd_def)
next
  case False
  with stop t have "sys_inv t [] [] F' (held w) X' bs'" by simp
  moreover have "on_list ReadyL (drv w) @ on_list ActiveL (drv w) = pending bs R A"
    using on_list_ok [of "drv w" R A F "held w" "Some X" bs] I pending_split [of bs R A]
    by (simp add: sys_inv_def drv_inv_def)
  ultimately show ?thesis using m h False
    by (intro world_onI [of _ "[]" "[]" F' X' bs']) (simp_all add: after_cmd_def)
qed

text \<open>A change of the run state leaves the lists empty.\<close>

lemma sys_inv_switch:
  assumes I: "sys_inv s R A F H X bs" and t: "sys_inv t R' A' F' H X' bs'"
    and c: "R' = R \<and> A' = A \<and> P \<or> R' = [] \<and> A' = [] \<and> run_stat t \<noteq> run_stat s" and ne: "run_stat t \<noteq> run_stat s"
  shows "R' = [] \<and> A' = []"
  using I t c ne by (auto simp: sys_inv_def)

lemma read_copy_sys:
  assumes I: "sys_inv s R A F H X bs" and b: "b \<in> set H"
  shows "\<exists>ret t bs'. read_copy K cnt (Chunk b) s = Some (ret, t) \<and>
    sys_inv t R A (F @ [b]) (remove1 b H) X bs' \<and> pending bs' R A = pending bs R A"
proof -
  have "mset (b # remove1 b H) = mset H" using b by simp
  then have I1: "sys_inv s R A F (b # remove1 b H) X bs" by (rule sys_inv_perm [OF I])
  then have D: "drv_inv s R A F (b # remove1 b H) X bs" by (simp add: sys_inv_def)
  let ?n = "min (cnt div SMPL_SIZE) (nat (c_idx (bs ! b)))"
  obtain ok d where cp: "copy_smpls_to_user K (dev s) (take ?n (taken (bs ! b))) = (ok, d)"
    by (cases "copy_smpls_to_user K (dev s) (take ?n (taken (bs ! b)))")
  from read_copy_ok [OF D cp] obtain t where
    t: "read_copy K cnt (Chunk b) s = Some (if ok then int (?n * SMPL_SIZE) else - EFAULT, t)"
      "drv_inv t R A (F @ [b]) (remove1 b H) X (bs[b := reset_buf (bs ! b)])" "drv_step s X [] t X" by blast
  have "ctl t = ctl s" using t(3) by (simp add: drv_step_def)
  from ctl_fields [OF this] I t(2) have "sys_inv t R A (F @ [b]) (remove1 b H) X (bs[b := reset_buf (bs ! b)])"
    by (simp add: sys_inv_def)
  moreover have "pending (bs[b := reset_buf (bs ! b)]) R A = pending bs R A"
    by (rule pending_reset [OF D]) simp
  ultimately show ?thesis using t(1) by blast
qed

lemma data_get_sys:
  assumes I: "sys_inv s R A F H X bs"
  shows "R = b # R' \<Longrightarrow> \<exists>t. ads131m08_data_get s = Some (Some (Chunk b), t) \<and>
      sys_inv t R' A F (b # H) X bs \<and> get_buf b t = Some (bs ! b)"
    and "R = [] \<Longrightarrow> ads131m08_data_get s = Some (None, s)"
proof -
  have D: "data_inv s R A F H (Some X) bs" using I by (simp add: sys_inv_def drv_inv_def)
  {
    assume *: "R = b # R'"
    from data_get_ok(1) [OF D *] obtain t where t: "ads131m08_data_get s = Some (Some (Chunk b), t)"
      "data_inv t R' A F (b # H) (Some X) bs" "buf_step s [] t" by blast
    have "get_buf b t = Some (bs ! b)" using data_get_buf(1) [OF t(2), of b] by simp
    with t I ctl_fields [of t s] * show "\<exists>t. ads131m08_data_get s = Some (Some (Chunk b), t) \<and>
      sys_inv t R' A F (b # H) X bs \<and> get_buf b t = Some (bs ! b)"
      by (auto simp: sys_inv_def drv_inv_def buf_step_def)
  next
    assume "R = []"
    with data_get_ok(2) [OF D] show "ads131m08_data_get s = Some (None, s)" by simp
  }
qed

text \<open>The steps of readers.\<close>

lemma reader_world:
  assumes I: "sys_inv (drv w) R A F (held w) X bs" and P: "mset X = P" and h: "acquired w = map snd (gone w) @ pending bs R A"
  shows "ads131m08_data_get (drv w) = Some (Some (Chunk b), t) \<Longrightarrow> get_buf b t = Some c \<Longrightarrow>
      world_on P (w\<lparr>drv := t, held := b # held w, gone := gone w @ map (Pair Fetched) (taken c)\<rparr>)"
    and "b \<in> set (held w) \<Longrightarrow> read_copy K cnt (Chunk b) (drv w) = Some (ret, t) \<Longrightarrow>
      world_on P (w\<lparr>drv := t, held := remove1 b (held w)\<rparr>)"
proof -
  assume g: "ads131m08_data_get (drv w) = Some (Some (Chunk b), t)" "get_buf b t = Some c"
  with data_get_sys(2) [OF I] obtain r R' where R: "R = r # R'" by (cases R) auto
  from data_get_sys(1) [OF I R] g have "r = b" "sys_inv t R' A F (b # held w) X bs" "c = bs ! b" by auto
  with h P R show "world_on P (w\<lparr>drv := t, held := b # held w, gone := gone w @ map (Pair Fetched) (taken c)\<rparr>)"
    by (intro world_onI [of _ R' A F X bs]) simp_all
next
  assume "b \<in> set (held w)" "read_copy K cnt (Chunk b) (drv w) = Some (ret, t)"
  with read_copy_sys [OF I, of b K cnt] obtain bs' where
    "sys_inv t R A (F @ [b]) (remove1 b (held w)) X bs'" "pending bs' R A = pending bs R A" by auto
  with h P show "world_on P (w\<lparr>drv := t, held := remove1 b (held w)\<rparr>)"
    by (intro world_onI [of _ R A "F @ [b]" X bs']) simp_all
qed

text \<open>The steps that may start or stop the acquisition.\<close>

lemma command_world:
  assumes I: "sys_inv (drv w) R A F (held w) X bs" and P: "mset X = P" and h: "acquired w = map snd (gone w) @ pending bs R A"
    and K: "kenv_ok K"
  shows "ads131m08_release K (drv w) = Some (ret, t) \<Longrightarrow> world_on P (after_cmd t w)"
    and "ads131m08_ioctl K cmd arg (drv w) = Some (ret, t) \<Longrightarrow> world_on P (after_cmd t w)"
proof -
  assume "ads131m08_release K (drv w) = Some (ret, t)"
  with release_sys [OF I K] obtain R' A' F' X' bs' where
    t: "sys_inv t R' A' F' (held w) X' bs'" "mset X' = mset X"
      "R' = R \<and> A' = A \<and> bs' = bs \<or> R' = [] \<and> A' = [] \<and> run_stat t \<noteq> run_stat (drv w)" by auto
  then have c: "R' = R \<and> A' = A \<and> pending bs' R A = pending bs R A \<or>
    R' = [] \<and> A' = [] \<and> run_stat t \<noteq> run_stat (drv w)" by auto
  from after_cmd_inv [OF I h t(1,2) c sys_inv_switch [OF I t(1) c]] P show "world_on P (after_cmd t w)" by simp
next
  assume i: "ads131m08_ioctl K cmd arg (drv w) = Some (ret, t)"
  obtain R' A' F' X' bs' where
    t: "sys_inv t R' A' F' (held w) X' bs'" "mset X' = mset X"
      "R' = R \<and> A' = A \<and> pending bs' R A = pending bs R A \<or> R' = [] \<and> A' = [] \<and> run_stat t \<noteq> run_stat (drv w)"
    by (rule ioctl_some_sys [OF K I i])
  from after_cmd_inv [OF I h t sys_inv_switch [OF I t(1,3)]] P show "world_on P (after_cmd t w)" by simp
qed

lemma world_step:
  assumes W: "world_on P w" and K: "kenv_ok K" and st: "step K w w'"
  shows "world_on P w'"
proof -
  from W obtain R A F X bs where I: "sys_inv (drv w) R A F (held w) X bs" and P: "mset X = P"
    and h: "acquired w = map snd (gone w) @ pending bs R A" unfolding world_on_def by blast
  show ?thesis using st
  proof (cases rule: step.cases)
    case (env d)
    with I P h show ?thesis by (intro world_onI [of _ R A F X bs]) simp_all
  next
    case isr
    have "sys_inv (ads131m08_isr K (drv w)) R A F (held w) X bs"
      using I by (simp add: ads131m08_isr_def kcall_def split: prod.splits)
    with isr P h show ?thesis by (intro world_onI [of _ R A F X bs]) simp_all
  next
    case (irq t)
    from irq_sys [OF I irq(2), of K] irq(3) obtain R' A' F' X' bs' where
      "sys_inv t R' A' F' (held w) X' bs'" "mset X' = mset X" "pending bs' R' A' = pending bs R A @ with_fate Stored (irq_samples K (drv w))"
      by auto
    with irq(1) P h show ?thesis by (intro world_onI [of _ R' A' F' X' bs']) simp_all
  next
    case opn
    have "sys_inv (snd (ads131m08_open (drv w))) R A F (held w) X bs" using I by (simp add: ads131m08_open_def)
    with opn P h show ?thesis by (intro world_onI [of _ R A F X bs]) simp_all
  next
    case (rel ret t)
    with command_world(1) [OF I P h K rel(2)] show ?thesis by simp
  next
    case (ioctl cmd arg ret t)
    with command_world(2) [OF I P h K ioctl(2)] show ?thesis by simp
  next
    case (get b t c)
    with reader_world(1) [OF I P h get(2,3)] show ?thesis by simp
  next
    case (put b cnt ret t)
    with reader_world(2) [OF I P h put(2,3)] show ?thesis by simp
  qed
qed

lemma probed_world:
  assumes s: "heap_rep s (\<lambda>_. None)" "fresh_xfers s" "ads131m08_probe K s = Some (SUCCESS, drv w)"
    and h: "held w = []" "sent w = []" "gone w = []" and cl: "\<And>d. fst (class_create K d) \<noteq> 0"
  shows "world_on (mset [next_xfer s..<next_xfer s + XFER_BUF_NUM]) w"
proof -
  from probe_ok [OF s(1,2) cl] s(3) obtain evs where "probe_ready K s (drv w) evs" by auto
  then obtain X where "sys_inv (drv w) [] [] [0..<CHUNK_BUF_CNT] [] X (replicate CHUNK_BUF_CNT fresh_chunk_buf)"
    "mset X = mset [next_xfer s..<next_xfer s + XFER_BUF_NUM]"
    by (auto simp: probe_ready_def)
  with h show ?thesis
    by (intro world_onI [of _ "[]" "[]" "[0..<CHUNK_BUF_CNT]" X "replicate CHUNK_BUF_CNT fresh_chunk_buf"])
      simp_all
qed

lemma started_inv:
  assumes "started K w" and cl: "\<And>d. fst (class_create K d) \<noteq> 0"
  shows "world_inv w"
  using assms(1) probed_world [OF _ _ _ _ _ _ cl] unfolding started_def world_inv_def by blast

text \<open>A kernel as the driver expects it: also \<open>class_create\<close> returns no NULL.\<close>

definition kernel :: "'d kenv \<Rightarrow> bool" where
  "kernel K \<longleftrightarrow> kenv_ok K \<and> (\<forall>d. fst (class_create K d) \<noteq> 0)"

text \<open>Two invariants of the same steps: the history of samples, and the pool it leaves alone.\<close>

interpretation pool: inv_system "\<lambda>w. kernel K \<and> world_on P w" "\<lambda>w w'. kernel K \<and> step K w w'" "world_on P"
  for K :: "'d kenv" and P :: "nat multiset"
proof unfold_locales
  fix w w' :: "'d world"
  show "world_on P w \<Longrightarrow> kernel K \<and> step K w w' \<Longrightarrow> world_on P w'"
    using world_step [of P w K w'] by (simp add: kernel_def)
qed simp

interpretation drv: inv_system "\<lambda>w. kernel K \<and> started K w" "\<lambda>w w'. kernel K \<and> step K w w'" world_inv
  for K :: "'d kenv"
proof unfold_locales
  fix w :: "'d world"
  show "kernel K \<and> started K w \<Longrightarrow> world_inv w" using started_inv [of K w] by (simp add: kernel_def)
next
  fix w w' :: "'d world"
  assume "world_inv w" "kernel K \<and> step K w w'"
  then show "world_inv w'" unfolding world_inv_def by (blast intro: pool.step_inv)
qed

end
