(* ===== verification/Examples.thy ===== *)
theory Examples
  imports System
begin

text \<open>
  Concrete states of the driver under the all-granting kernel \<open>k0\<close>: after probe, running,
  with a sample pending, with a chunk ready. The examples in the other theories start here.
\<close>

lemma k0_kernel: "kernel k0"
  by (simp add: kernel_def kenv_ok_def k0_simps)

lemma k0_stable: "fetch_stable k0"
  by (simp add: fetch_stable_def k0_simps)

lemma k0_spi: "spi_sync_transfer k0 d tx = (0, (\<lambda>i. of_nat (3 * i)), ())"
  by (simp add: k0_simps)

definition world0 :: "unit drv \<Rightarrow> unit world" where
  "world0 t = \<lparr>drv = t, held = [], sent = [], gone = []\<rparr>"

lemma k0_started: "ads131m08_probe k0 drv0 = Some (SUCCESS, t) \<Longrightarrow> started k0 (world0 t)"
  using drv0_empty by (auto simp: started_def world0_def)

text \<open>Probed and stopped.\<close>

lemma k0_up:
  "\<exists>t X. ads131m08_probe k0 drv0 = Some (SUCCESS, t) \<and>
     sys_inv t [] [] [0..<CHUNK_BUF_CNT] [] X (replicate CHUNK_BUF_CNT fresh_chunk_buf) \<and>
     run_stat t = ADC_STOP \<and> gpio_irq_no t = 9 \<and> chunk_sz t = 40 \<and> open_cnt t = 0 \<and> X \<noteq> []"
proof -
  obtain t where t: "ads131m08_probe k0 drv0 = Some (SUCCESS, t)" using k0_probe by blast
  from probe_ok [OF drv0_empty, of k0] t obtain evs where "probe_ready k0 drv0 t evs"
    by (auto simp: k0_simps)
  then obtain X where "sys_inv t [] [] [0..<CHUNK_BUF_CNT] [] X (replicate CHUNK_BUF_CNT fresh_chunk_buf)"
    "run_stat t = ADC_STOP" "gpio_irq_no t = 9" "chunk_sz t = 40" "open_cnt t = 0"
    by (auto simp: probe_ready_def irq_line_def k0_simps DEFAULT_CHUNK_SZ_def)
  moreover from this(1) have "X \<noteq> []" by (simp add: sys_inv_def drv_inv_def)
  ultimately show ?thesis using t by blast
qed

lemma k0_start:
  fixes t :: "unit drv"
  assumes I: "sys_inv t [] [] F [] X bs" and stop: "run_stat t = ADC_STOP" and irq: "gpio_irq_no t = 9"
  shows "\<exists>t1 X1. ads131m08_run_cmd k0 ADC_RUN t = Some (SUCCESS, t1) \<and> sys_inv t1 [] [] F [] X1 bs \<and>
    run_stat t1 = ADC_RUN \<and> irq_registered t1 \<and> chunk_sz t1 = chunk_sz t"
proof -
  have "request_threaded_irq k0 (dev t) (gpio_irq_no t) = (0, dev t)" by (simp add: k0_simps)
  from run_cmd_start_ok [OF I stop _ this k0_spi] irq obtain t1 X1 where
    t1: "ads131m08_run_cmd k0 ADC_RUN t = Some (SUCCESS, t1)" "sys_inv t1 [] [] F [] X1 bs"
      "ctl t1 = ctl (t\<lparr>run_stat := ADC_RUN, irq_registered := True\<rparr>)" by auto
  from t1 ctl_fields [OF t1(3)] show ?thesis by auto
qed

text \<open>Started, nothing acquired yet.\<close>

lemma k0_running:
  "\<exists>(t :: unit drv) X. sys_inv t [] [] [0..<CHUNK_BUF_CNT] [] X (replicate CHUNK_BUF_CNT fresh_chunk_buf) \<and>
     run_stat t = ADC_RUN \<and> irq_registered t \<and> chunk_sz t = 40"
proof -
  obtain t :: "unit drv" and X where
    I: "sys_inv t [] [] [0..<CHUNK_BUF_CNT] [] X (replicate CHUNK_BUF_CNT fresh_chunk_buf)"
    and f: "run_stat t = ADC_STOP" "gpio_irq_no t = 9" "chunk_sz t = 40" using k0_up by blast
  from k0_start [OF I f(1,2)] f(3) show ?thesis by metis
qed

text \<open>One interrupt into an empty driver: the sample is pending, in the active chunk or,
  with a chunk size of one, in a ready one.\<close>

lemma k0_irq:
  fixes t :: "unit drv"
  assumes I: "sys_inv t [] [] (b # F) [] X bs" and run: "run_stat t = ADC_RUN" "irq_registered t"
  defines "m \<equiv> \<lparr>s_ts = 77, s_data = frame_smpl (\<lambda>i. of_nat (3 * i))\<rparr>" and "u \<equiv> ads131m08_isr k0 t"
  shows "\<exists>v X' bs'. ads131m08_irq_thread k0 u = Some v \<and> irq_samples k0 u = [(Stored, m)] \<and> irq_registered u \<and>
    sys_inv v (if chunk_sz t \<le> 1 then [b] else []) (if chunk_sz t \<le> 1 then [] else [b]) F [] X' bs' \<and>
    pending bs' [b] [] = [m] \<and> run_stat v = ADC_RUN \<and> irq_registered v \<and> chunk_sz v = chunk_sz t"
proof -
  have u: "u = t\<lparr>dev := (), smpl_ts := 77\<rparr>" by (simp add: u_def ads131m08_isr_def kcall_def k0_simps)
  have D: "drv_inv u [] [] (b # F) [] X bs" "spi_hdlr u" using I by (simp_all add: u sys_inv_def)
  have i0: "c_idx (bs ! b) = 0"
    using D(1) by (simp add: drv_inv_def data_inv_def bufs_ok_def free_ok_def)
  let ?bs = "bs[b := with_sample (frame_smpl (\<lambda>i. of_nat (3 * i))) (stamped (smpl_ts u) (bs ! b))]"
  have fu: "(0 \<le> (0::int) \<and> c_idx (bs ! b) + 1 \<ge> chunk_sz u) = (chunk_sz t \<le> 1)"
    using i0 by (simp add: u)
  from irq_thread_smpl [OF D _ k0_spi, unfolded append_Nil list.sel(1) fu] obtain v X' where
    v0: "ads131m08_irq_thread k0 u = Some v" "drv_step u X (KSpi (replicate 30 0) # (if chunk_sz t \<le> 1 then [KWakeUp] else [])) v X'"
      "drv_inv v (if chunk_sz t \<le> 1 then [b] else []) (if chunk_sz t \<le> 1 then [] else [b]) F [] X' ?bs"
    by auto
  then have v: "ads131m08_irq_thread k0 u = Some v" "ctl v = ctl u"
      "drv_inv v (if chunk_sz t \<le> 1 then [b] else []) (if chunk_sz t \<le> 1 then [] else [b]) F [] X' ?bs"
    by (simp_all add: drv_step_def)
  have "smpl_ts u = 77" by (simp add: u)
  with irq_pending(2) [OF D(1), where ts = "smpl_ts u" and ls = "frame_smpl (\<lambda>i. of_nat (3 * i))"]
  have "pending ?bs [] [b] = [m]" by (simp add: m_def)
  then have p: "pending ?bs [b] [] = [m]" by (simp add: pending_def)
  have "irq_samples k0 u = [(Stored, m)]" using irq_samples_eq [OF D k0_spi] by (simp add: m_def u)
  moreover have "sys_inv v (if chunk_sz t \<le> 1 then [b] else []) (if chunk_sz t \<le> 1 then [] else [b]) F [] X' ?bs"
    using v(3) ctl_fields [OF v(2)] D(2) run by (simp add: sys_inv_def u)
  moreover have "run_stat v = ADC_RUN" "irq_registered v" "chunk_sz v = chunk_sz t" "irq_registered u"
    using ctl_fields [OF v(2)] run by (simp_all add: u)
  ultimately show ?thesis using v(1) p by blast
qed

text \<open>Probe, start, and one interrupt: one sample is pending.\<close>

lemma k0_run:
  "\<exists>w0 w F X bs. started k0 w0 \<and> (\<lambda>w w'. kernel k0 \<and> step k0 w w')\<^sup>*\<^sup>* w0 w \<and>
     sent w = [(Stored, \<lparr>s_ts = 77, s_data = frame_smpl (\<lambda>i. of_nat (3 * i))\<rparr>)] \<and> gone w = [] \<and> held w = [] \<and>
     irq_registered (drv w) \<and> run_stat (drv w) = ADC_RUN \<and> sys_inv (drv w) [] [0] F [] X bs"
proof -
  obtain t X where t: "ads131m08_probe k0 drv0 = Some (SUCCESS, t)"
    and I: "sys_inv t [] [] [0..<CHUNK_BUF_CNT] [] X (replicate CHUNK_BUF_CNT fresh_chunk_buf)"
    and f: "run_stat t = ADC_STOP" "gpio_irq_no t = 9" "chunk_sz t = 40" using k0_up by blast
  have up: "[0..<CHUNK_BUF_CNT] = 0 # [1..<CHUNK_BUF_CNT]" by (simp add: CHUNK_BUF_CNT_def upt_rec)
  from k0_start [OF I f(1,2)] f(3) obtain t1 X1 where t1: "ads131m08_run_cmd k0 ADC_RUN t = Some (SUCCESS, t1)"
    "sys_inv t1 [] [] (0 # [1..<CHUNK_BUF_CNT]) [] X1 (replicate CHUNK_BUF_CNT fresh_chunk_buf)"
    "run_stat t1 = ADC_RUN" "irq_registered t1" "chunk_sz t1 = 40" unfolding up by auto
  let ?u = "ads131m08_isr k0 t1" let ?m = "\<lparr>s_ts = 77, s_data = frame_smpl (\<lambda>i. of_nat (3 * i))\<rparr>"
  from k0_irq [OF t1(2-4)] t1(5) obtain v X' bs' where
    v: "ads131m08_irq_thread k0 ?u = Some v" "irq_samples k0 ?u = [(Stored, ?m)]" "irq_registered ?u"
      "sys_inv v [] [0] [1..<CHUNK_BUF_CNT] [] X' bs'" "run_stat v = ADC_RUN" "irq_registered v" by auto
  let ?k = "\<lambda>w w'. kernel k0 \<and> step k0 w w'" let ?w = "(world0 v)\<lparr>sent := [(Stored, ?m)]\<rparr>"
  have "ads131m08_ioctl k0 CMD_WAKEUP_nr 0 t = Some (SUCCESS, t1)"
    using t1(1) f(1) by (simp add: ads131m08_ioctl_def ads131m08_run_stat_def ADC_RUN_def ADC_STOP_def)
  then have "step k0 (world0 t) (after_cmd t1 (world0 t))"
    by (intro step.ioctl [of k0 CMD_WAKEUP_nr 0]) (simp add: world0_def)
  moreover have "data_inv t [] [] [0..<CHUNK_BUF_CNT] [] (Some X) (replicate CHUNK_BUF_CNT fresh_chunk_buf)"
    using I by (simp add: sys_inv_def drv_inv_def)
  then have "after_cmd t1 (world0 t) = world0 t1" by (simp add: after_cmd_def world0_def on_list_ok)
  ultimately have "?k\<^sup>*\<^sup>* (world0 t) (world0 t1)" using k0_kernel by auto
  also have "?k (world0 t1) (world0 ?u)"
    using step.isr [of "world0 t1" k0] t1(4) k0_kernel by (simp add: world0_def)
  also have "?k (world0 ?u) ?w"
    using step.irq [of "world0 ?u" k0 v] v k0_kernel by (simp add: world0_def)
  finally have run: "?k\<^sup>*\<^sup>* (world0 t) ?w" .
  show ?thesis
    by (rule exI [of _ "world0 t"], rule exI [of _ ?w], rule exI [of _ "[1..<CHUNK_BUF_CNT]"],
        rule exI [of _ X'], rule exI [of _ bs'], intro conjI)
      (use k0_started [OF t] run v in \<open>simp_all add: world0_def\<close>)
qed

text \<open>With a chunk size of one, the same interrupt makes a chunk ready.\<close>

lemma k0_ready:
  "\<exists>(s :: unit drv) X bs. sys_inv s [0] [] [1..<CHUNK_BUF_CNT] [] X bs \<and> run_stat s = ADC_RUN \<and>
     irq_registered s \<and> chunk_sz s = 1 \<and> pending bs [0] [] = [\<lparr>s_ts = 77, s_data = frame_smpl (\<lambda>i. of_nat (3 * i))\<rparr>]"
proof -
  obtain t :: "unit drv" and X where I: "sys_inv t [] [] [0..<CHUNK_BUF_CNT] [] X (replicate CHUNK_BUF_CNT fresh_chunk_buf)"
    and f: "run_stat t = ADC_STOP" "gpio_irq_no t = 9" "chunk_sz t = 40" using k0_up by blast
  have up: "[0..<CHUNK_BUF_CNT] = 0 # [1..<CHUNK_BUF_CNT]" by (simp add: CHUNK_BUF_CNT_def upt_rec)
  have one: "c_int_of_ulong 1 = 1" by (simp add: c_int_of_ulong_def)
  have "run_stat t \<noteq> ADC_RUN" using f(1) by (simp add: ADC_RUN_def ADC_STOP_def)
  from ioctl_chunk_sz_sys [OF I this, of 1] obtain t' :: "unit drv" and bs where
    t0: "sys_inv t' [] [] [0..<CHUNK_BUF_CNT] [] X bs"
      "chunk_sz t' = (if 0 < c_int_of_ulong 1 then clamp_chunk_sz (c_int_of_ulong 1) else chunk_sz t)"
      "ctl (t'\<lparr>chunk_sz := chunk_sz t\<rparr>) = ctl t" by blast
  have t': "sys_inv t' [] [] (0 # [1..<CHUNK_BUF_CNT]) [] X bs" "chunk_sz t' = clamp_chunk_sz 1"
    "ctl (t'\<lparr>chunk_sz := chunk_sz t\<rparr>) = ctl t"
    using t0 unfolding up by (simp_all add: one)
  have f': "run_stat t' = ADC_STOP" "gpio_irq_no t' = 9" using ctl_fields [OF t'(3)] f by simp_all
  from k0_start [OF t'(1) f'(1,2)] obtain t1 :: "unit drv" and X1 where
    t1: "sys_inv t1 [] [] (0 # [1..<CHUNK_BUF_CNT]) [] X1 bs" "run_stat t1 = ADC_RUN" "irq_registered t1"
      "chunk_sz t1 = chunk_sz t'" by blast
  have c: "chunk_sz t1 = 1" using t1(4) t'(2) by (simp add: clamp_chunk_sz_def MAX_CHUNK_SZ_def)
  from k0_irq [OF t1(1-3)] c show ?thesis by auto
qed

end
