(* ===== verification/Run_Control.thy ===== *)
theory Run_Control
  imports Examples
begin

text \<open>
  What the interrupt thread and the start and stop commands guarantee, over every answer of the
  kernel and the device: a refinement of the abstract stream of samples, and the order in which
  the interrupt, the device and the readers are told.
\<close>

text \<open>C17: the interrupt thread implements its specification \<open>irq_spec\<close> on the abstract state (the
  samples acquired and not yet read, the drop counter): with a buffer and a good transfer it
  appends the sample with the time stamp of the interrupt; with no buffer it clocks the sample
  out of the device and counts a drop; after a failed transfer it changes neither. It always
  does exactly one 30-byte transfer, keeps the invariant, returns its transfer buffer, and wakes
  the readers exactly when a chunk became ready.\<close>

theorem irq_thread_refines:
  assumes I: "drv_inv s R A F H X bs" and up: "spi_hdlr s"
    and io: "spi_sync_transfer K (dev s) (replicate 30 0) = (ret, rxd, d)"
  shows "\<exists>t R' A' F' X' bs'. ads131m08_irq_thread K s = Some t \<and> drv_inv t R' A' F' H X' bs' \<and>
    (pending bs' R' A', drop_cnt t)
      = irq_spec (A @ F \<noteq> []) ret \<lparr>s_ts = smpl_ts s, s_data = frame_smpl rxd\<rparr> (pending bs R A, drop_cnt s) \<and>
    ctl t = ctl (s\<lparr>drop_cnt := drop_cnt t\<rparr>) \<and> dev t = d \<and> mset X' = mset X \<and>
    klog t = klog s @ KSpi (replicate 30 0) # (if length R' = length R then [] else [KWakeUp])"
  using irq_thread_spec [OF assms] by blast

theorem irq_thread_refines_witness:
  "\<exists>(s :: unit drv) t R' A' bs'. run_stat s = ADC_RUN \<and> ads131m08_irq_thread k0 s = Some t \<and>
     pending bs' R' A' = [\<lparr>s_ts = smpl_ts s, s_data = frame_smpl (\<lambda>i. of_nat (3 * i))\<rparr>] \<and> drop_cnt t = drop_cnt s"
proof -
  obtain s :: "unit drv" and X where
    s: "sys_inv s [] [] [0..<CHUNK_BUF_CNT] [] X (replicate CHUNK_BUF_CNT fresh_chunk_buf)" "run_stat s = ADC_RUN"
    using k0_running by blast
  then have D: "drv_inv s [] [] [0..<CHUNK_BUF_CNT] [] X (replicate CHUNK_BUF_CNT fresh_chunk_buf)" "spi_hdlr s"
    by (simp_all add: sys_inv_def)
  have "[] @ [0..<CHUNK_BUF_CNT] \<noteq> []" by (simp add: CHUNK_BUF_CNT_def)
  with irq_thread_refines [OF D k0_spi] s(2) show ?thesis by (fastforce simp: irq_spec_def)
qed

text \<open>A chunk becomes ready exactly when it is full. The interrupt thread works on the active
  chunk, or else takes the first free one; after a good transfer that brings its index to the
  chunk size the chunk goes to the end of the ready list and no chunk is active, otherwise it is
  the one active chunk; the sample lands at its old index, and no other chunk changes.\<close>

theorem irq_thread_fills:
  assumes I: "drv_inv s R A F H X bs" and up: "spi_hdlr s" and ne: "A @ F \<noteq> []"
    and io: "spi_sync_transfer K (dev s) (replicate 30 0) = (ret, rxd, d)"
  shows "\<exists>t X'. ads131m08_irq_thread K s = Some t \<and>
    (let b = hd (A @ F); full = (0 \<le> ret \<and> c_idx (bs ! b) + 1 \<ge> chunk_sz s) in
     drv_inv t (if full then R @ [b] else R) (if full then [] else [b]) (if A = [] then tl F else F) H X'
      (bs[b := (if ret < 0 then id else with_sample (frame_smpl rxd)) (stamped (smpl_ts s) (bs ! b))]))"
  using irq_thread_smpl [OF assms] unfolding Let_def by blast

theorem irq_thread_fills_witness:
  "\<exists>(s :: unit drv) X t X' bs. drv_inv s [] [] [0..<CHUNK_BUF_CNT] [] X (replicate CHUNK_BUF_CNT fresh_chunk_buf) \<and>
     ads131m08_irq_thread k0 s = Some t \<and> drv_inv t [] [0] [1..<CHUNK_BUF_CNT] [] X' bs"
proof -
  obtain s :: "unit drv" and X where
    s: "sys_inv s [] [] [0..<CHUNK_BUF_CNT] [] X (replicate CHUNK_BUF_CNT fresh_chunk_buf)" "chunk_sz s = 40"
    using k0_running by blast
  then have D: "drv_inv s [] [] [0..<CHUNK_BUF_CNT] [] X (replicate CHUNK_BUF_CNT fresh_chunk_buf)" "spi_hdlr s"
    by (simp_all add: sys_inv_def)
  have up: "[0..<CHUNK_BUF_CNT] = 0 # [1..<CHUNK_BUF_CNT]" by (simp add: CHUNK_BUF_CNT_def upt_rec)
  then have ne: "[] @ [0..<CHUNK_BUF_CNT] \<noteq> []" by simp
  have hd: "hd ([] @ [0..<CHUNK_BUF_CNT]) = 0" "tl [0..<CHUNK_BUF_CNT] = [1..<CHUNK_BUF_CNT]" unfolding up by simp_all
  have full: "(0 \<le> (0::int) \<and> c_idx (replicate CHUNK_BUF_CNT fresh_chunk_buf ! 0) + 1 \<ge> chunk_sz s) = False"
    using s(2) by (simp add: CHUNK_BUF_CNT_def fresh_chunk_buf_def zero_chunk_buf_def)
  from irq_thread_fills [OF D ne k0_spi, unfolded Let_def hd full if_False] D(1) show ?thesis by auto
qed



text \<open>C20: starting, on every branch. Stale data are discarded and the readers woken first. With no
  interrupt number the result is -EINVAL, with a refused interrupt line the kernel's error; the
  state is as before. With the interrupt registered WAKEUP is sent; if that fails the interrupt
  is freed, the data discarded and the readers woken again, and the state is as before; else the
  driver is running. \<open>request_threaded_irq\<close> returns zero or a negative error.\<close>

theorem run_cmd_start_outcome:
  assumes I: "sys_inv s R A F H X bs" and stop: "run_stat s = ADC_STOP"
    and rq: "request_threaded_irq K (dev s) (gpio_irq_no s) = (rc, d)" "rc \<le> 0"
    and io: "spi_sync_transfer K d (trx_frame CMD_WAKEUP [] 1) = (ret, rxd, d')"
  shows "\<exists>t X' evs. mset X' = mset X \<and> klog t = klog s @ evs \<and>
    (if gpio_irq_no s \<le> 0 \<or> rc < 0
     then ads131m08_run_cmd K ADC_RUN s = Some (if gpio_irq_no s \<le> 0 then - EINVAL else rc, t) \<and>
       sys_inv t R A F H X' bs \<and> ctl t = ctl s \<and> evs = [KWakeUp]
     else if ret < 0
     then ads131m08_run_cmd K ADC_RUN s = Some (ret, t) \<and> sys_inv t R A F H X' bs \<and> ctl t = ctl s \<and>
       evs = [KWakeUp, KRequestIrq (gpio_irq_no s), KSpi (trx_frame CMD_WAKEUP [] 1),
         KFreeIrq (gpio_irq_no s), KWakeUp]
     else ads131m08_run_cmd K ADC_RUN s = Some (SUCCESS, t) \<and> sys_inv t [] [] F H X' bs \<and>
       ctl t = ctl (s\<lparr>run_stat := ADC_RUN, irq_registered := True\<rparr>) \<and>
       evs = [KWakeUp, KRequestIrq (gpio_irq_no s), KSpi (trx_frame CMD_WAKEUP [] 1)])"
proof (cases "gpio_irq_no s \<le> 0 \<or> rc < 0")
  case True
  from run_cmd_start_fail_irq [OF I stop rq(1) True] obtain t where
    "ads131m08_run_cmd K ADC_RUN s = Some (if gpio_irq_no s \<le> 0 then - EINVAL else rc, t)"
    "sys_inv t R A F H X bs" "ctl t = ctl s" "klog t = klog s @ [KWakeUp]" by blast
  with True show ?thesis by (intro exI [of _ t] exI [of _ X] exI [of _ "[KWakeUp]"]) simp
next
  case False
  then have irq: "0 < gpio_irq_no s" "rc = 0" using rq(2) by auto
  with rq(1) have "request_threaded_irq K (dev s) (gpio_irq_no s) = (0, d)" by simp
  from run_cmd_start_ok [OF I stop irq(1) this io] False show ?thesis
    by (cases "ret < 0") auto
qed

theorem run_cmd_start_outcome_witness:
  "\<exists>(s :: unit drv) t X bs. run_stat s = ADC_STOP \<and> ads131m08_run_cmd k0 ADC_RUN s = Some (SUCCESS, t) \<and>
     sys_inv t [] [] [0..<CHUNK_BUF_CNT] [] X bs \<and> run_stat t = ADC_RUN \<and>
     klog t = klog s @ [KWakeUp, KRequestIrq 9, KSpi (trx_frame CMD_WAKEUP [] 1)]"
proof -
  obtain s :: "unit drv" and X where
    s: "sys_inv s [] [] [0..<CHUNK_BUF_CNT] [] X (replicate CHUNK_BUF_CNT fresh_chunk_buf)"
    "run_stat s = ADC_STOP" "gpio_irq_no s = 9" using k0_up by blast
  have rq: "request_threaded_irq k0 (dev s) (gpio_irq_no s) = (0, ())" by (simp add: k0_simps)
  from run_cmd_start_outcome [OF s(1,2) rq order_refl k0_spi] s(3) obtain t X' where
    t: "ads131m08_run_cmd k0 ADC_RUN s = Some (SUCCESS, t)"
      "sys_inv t [] [] [0..<CHUNK_BUF_CNT] [] X' (replicate CHUNK_BUF_CNT fresh_chunk_buf)"
      "ctl t = ctl (s\<lparr>run_stat := ADC_RUN, irq_registered := True\<rparr>)"
      "klog t = klog s @ [KWakeUp, KRequestIrq 9, KSpi (trx_frame CMD_WAKEUP [] 1)]" by auto
  from t ctl_fields(7) [OF t(3)] s(2) show ?thesis by auto
qed

end
