(* ===== verification/Registers.thy ===== *)
theory Registers
  imports Examples
begin

text \<open>
  Register access from the ioctl down to the frames on the bus, and what becomes of requests
  the ioctl lets through.
\<close>

section \<open>Two exchanges\<close>

text \<open>Reading \<open>cnt\<close> registers, 1 to 680: the RREG command goes out in a ten-word frame, then a
  NULL command in a frame of \<open>cnt + 2\<close> words brings the answer. For one register the value is the
  status word of that frame, for more the words behind it; the rest of the caller's array is
  untouched. An error of either exchange is returned and leaves the array as it was, and after
  an error of the first there is no second.\<close>

theorem reg_read_exchange:
  assumes pool: "xfer_pool s L xs" and ne: "xs \<noteq> []" and up: "spi_hdlr s"
    and cnt: "1 \<le> cnt" "cnt \<le> 680" "nat cnt \<le> length ret_reg"
    and io1: "spi_sync_transfer K (dev s) (trx_frame (reg_cmd CMD_RREG a cnt) [] 10) = (r1, rx1, d1)"
    and io2: "spi_sync_transfer K d1 (trx_frame CMD_NULL [] (nat cnt + 2)) = (r2, rx2, d2)"
  shows "\<exists>t ys.
    ads131m08_reg_read K a cnt ret_reg s =
      Some (if r1 < 0 then (r1, ret_reg, t)
            else if r2 < 0 then (r2, ret_reg, t)
            else (r2, (if cnt = 1 then [dec_word (rx2 0) (rx2 1)] else rx_words rx2 (nat cnt))
                        @ drop (nat cnt) ret_reg, t)) \<and>
    pool_step s L xs (if r1 < 0 then [KSpi (trx_frame (reg_cmd CMD_RREG a cnt) [] 10)]
       else [KSpi (trx_frame (reg_cmd CMD_RREG a cnt) [] 10), KSpi (trx_frame CMD_NULL [] (nat cnt + 2))]) t ys"
  using reg_read_ok [OF assms] by blast

theorem reg_read_exchange_witness:
  "\<exists>(s :: unit drv) t. ads131m08_reg_read k0 2 2 [0, 0, 7] s = Some (0, rx_words (\<lambda>i. of_nat (3 * i)) 2 @ [7], t) \<and>
     ads131m08_reg_read k0 2 1 [0, 5] s \<noteq> None"
proof -
  obtain s :: "unit drv" and L where s: "xfer_pool s L [0..<8]" "spi_hdlr s" using k0_pool by blast
  have ne: "[0..<8] \<noteq> ([] :: nat list)" by simp
  from reg_read_exchange [OF s(1) ne s(2) _ _ _ k0_spi k0_spi, of 2 "[0, 0, 7]" 2]
    reg_read_exchange [OF s(1) ne s(2) _ _ _ k0_spi k0_spi, of 1 "[0, 5]" 2] show ?thesis by auto
qed

text \<open>Writing \<open>cnt\<close> registers, 1 to 680: one frame with the WREG command and exactly the
  first \<open>cnt\<close> values, then a NULL command whose answer is dropped; the values are not modified,
  and after an error of the first exchange there is no second.\<close>

theorem reg_write_exchange:
  assumes pool: "xfer_pool s L xs" and ne: "xs \<noteq> []" and up: "spi_hdlr s"
    and cnt: "1 \<le> cnt" "cnt \<le> 680" "nat cnt \<le> length vals"
    and io1: "spi_sync_transfer K (dev s)
      (trx_frame (reg_cmd CMD_WREG a cnt) (take (nat cnt) vals) (nat cnt + 2)) = (r1, rx1, d1)"
    and io2: "spi_sync_transfer K d1 (trx_frame CMD_NULL [] 1) = (r2, rx2, d2)"
  shows "\<exists>t ys.
    ads131m08_reg_write K a cnt vals s = Some (if r1 < 0 then (r1, vals, t) else (r2, vals, t)) \<and>
    pool_step s L xs
      (if r1 < 0 then [KSpi (trx_frame (reg_cmd CMD_WREG a cnt) (take (nat cnt) vals) (nat cnt + 2))]
       else [KSpi (trx_frame (reg_cmd CMD_WREG a cnt) (take (nat cnt) vals) (nat cnt + 2)),
             KSpi (trx_frame CMD_NULL [] 1)]) t ys"
  using reg_write_ok [OF assms] by blast

theorem reg_write_exchange_witness:
  "\<exists>(s :: unit drv) t. ads131m08_reg_write k0 2 2 [3, 4] s = Some (0, [3, 4], t) \<and>
     klog t = klog s @ [KSpi (trx_frame (reg_cmd CMD_WREG 2 2) [3, 4] 4), KSpi (trx_frame CMD_NULL [] 1)]"
proof -
  obtain s :: "unit drv" and L where s: "xfer_pool s L [0..<8]" "spi_hdlr s" using k0_pool by blast
  have ne: "[0..<8] \<noteq> ([] :: nat list)" by simp
  from reg_write_exchange [OF s(1) ne s(2) _ _ _ k0_spi k0_spi, of 2 "[3, 4]" 2] show ?thesis
    by (auto simp: pool_step_def)
qed

text \<open>Resetting the device: RESET padded with eight zero words in a ten-word frame, ten
  microseconds, then a NULL command that must succeed.\<close>

theorem reset_sequence:
  assumes pool: "xfer_pool s L xs" and ne: "xs \<noteq> []" and up: "spi_hdlr s"
    and io1: "spi_sync_transfer K (dev s) (trx_frame CMD_RESET (replicate 8 0) 10) = (r1, rx1, d1)"
    and io2: "spi_sync_transfer K d1 (trx_frame CMD_NULL [] 1) = (r2, rx2, d2)"
  shows "\<exists>t ys. ads131m08_cmd_reset K s = Some (if r1 < 0 then r1 else r2, t) \<and>
    pool_step s L xs
      (if r1 < 0 then [KSpi (trx_frame CMD_RESET (replicate 8 0) 10)]
       else [KSpi (trx_frame CMD_RESET (replicate 8 0) 10), KUdelay 10, KSpi (trx_frame CMD_NULL [] 1)]) t ys"
  using cmd_reset_ok [OF assms] by blast

theorem reset_sequence_witness:
  "\<exists>(s :: unit drv) t. ads131m08_cmd_reset k0 s = Some (0, t) \<and>
     klog t = klog s @ [KSpi (trx_frame CMD_RESET (replicate 8 0) 10), KUdelay 10, KSpi (trx_frame CMD_NULL [] 1)]"
proof -
  obtain s :: "unit drv" and L where s: "xfer_pool s L [0..<8]" "spi_hdlr s" using k0_pool by blast
  have ne: "[0..<8] \<noteq> ([] :: nat list)" by simp
  from reset_sequence [OF s(1) ne s(2) k0_spi k0_spi] show ?thesis by (auto simp: pool_step_def)
qed

section \<open>The register ioctl\<close>

text \<open>How far \<open>ioctl_reg\<close> gets with a request of \<open>n\<close> registers whose header, fetched again,
  is \<open>src\<close>.\<close>

definition reg_request :: "'d kenv \<Rightarrow> u64 \<Rightarrow> 'd \<Rightarrow> bool \<Rightarrow> nat \<Rightarrow> (nat \<Rightarrow> u16) \<Rightarrow> 'd \<Rightarrow> bool" where
  "reg_request K arg d rd n src d3 \<longleftrightarrow>
     (\<exists>h d1 d2. copy_from_user K d arg 2 = (Some h, d1) \<and> n = unat (h 1) \<and> 1 \<le> n \<and> n \<le> 1024 \<and>
        access_ok K d1 arg (4 + 2 * n) \<and> kzalloc K d1 = (True, d2) \<and>
        copy_from_user K d2 arg (if rd then 2 else 2 + n) = (Some src, d3))"

lemma ioctl_reg_request:
  assumes q: "reg_request K arg (dev s) rd n src d3"
  shows "ioctl_reg K arg rd f s =
    ioctl_reg_call K arg rd f (map src [0..<if rd then 2 else 2 + n] @ replicate (if rd then n else 0) 0) (s\<lparr>dev := d3\<rparr>)"
proof -
  from q obtain h d1 d2 where
    c: "copy_from_user K (dev s) arg 2 = (Some h, d1)" "n = unat (h 1)" "1 \<le> n" "n \<le> 1024"
      "access_ok K d1 arg (4 + 2 * n)" "kzalloc K d1 = (True, d2)"
      "copy_from_user K d2 arg (if rd then 2 else 2 + n) = (Some src, d3)" by (auto simp: reg_request_def)
  show ?thesis
    using c(1,3-7) unfolding c(2) ioctl_reg_def Let_def kcall_def
    by (cases rd) (simp_all del: upt_Suc One_nat_def add_2_eq_Suc add_2_eq_Suc')
qed

text \<open>The RREG ioctl on every outcome of its two transfers.\<close>

lemma ioctl_rreg_any:
  assumes I: "drv_inv s R A F H X bs" "spi_hdlr s" "run_stat s = ADC_STOP"
    and q: "reg_request K arg (dev s) True n src d3" and same: "unat (src 1) = n" and n: "n \<le> 680"
    and io1: "spi_sync_transfer K d3 (trx_frame (reg_cmd CMD_RREG (ucast (src 0)) (int n)) [] 10) = (r1, rx1, d4)"
    and io2: "spi_sync_transfer K d4 (trx_frame CMD_NULL [] (n + 2)) = (r2, rx2, d5)"
    and cu: "0 \<le> r1 \<Longrightarrow> 0 \<le> r2 \<Longrightarrow>
      copy_to_user K d5 (arg + 4) (if n = 1 then [dec_word (rx2 0) (rx2 1)] else rx_words rx2 n) = (ok, d6)"
  shows "\<exists>t X'. ads131m08_ioctl K CMD_RREG_nr arg s =
      Some (if r1 < 0 then r1 else if r2 < 0 then r2 else if ok then 0 else - EFAULT, t) \<and>
    drv_inv t R A F H X' bs \<and> dev t = (if r1 < 0 then d4 else if r2 < 0 then d5 else d6) \<and>
    spi_hdlr t \<and> run_stat t = ADC_STOP \<and>
    klog t = klog s @ KSpi (trx_frame (reg_cmd CMD_RREG (ucast (src 0)) (int n)) [] 10) #
      (if r1 < 0 then [] else [KSpi (trx_frame CMD_NULL [] (n + 2))])"
proof -
  let ?s = "s\<lparr>dev := d3\<rparr>" let ?kd = "map src [0..<2] @ replicate n 0"
  have n1: "1 \<le> n" using q by (auto simp: reg_request_def)
  have J: "drv_inv ?s R A F H X bs" "spi_hdlr ?s" using I by simp_all
  have P: "xfer_pool ?s (drv_lists R A F (Some X)) X" "X \<noteq> []"
    using J(1) by (simp_all add: drv_inv_pool) (simp add: drv_inv_def)
  have kd: "?kd ! 0 = src 0" "?kd ! 1 = src 1" "drop 2 ?kd = replicate n 0" by (simp_all add: nth_append)
  have u: "uint (src 1) = int n" using same by (simp add: uint_nat del: unat_of_nat)
  have c: "1 \<le> int n" "int n \<le> 680" "nat (int n) \<le> length (replicate n (0::u16))" using n1 n by simp_all
  have i1: "spi_sync_transfer K (dev ?s) (trx_frame (reg_cmd CMD_RREG (ucast (src 0)) (int n)) [] 10) = (r1, rx1, d4)"
    using io1 by simp
  have i2: "spi_sync_transfer K d4 (trx_frame CMD_NULL [] (nat (int n) + 2)) = (r2, rx2, d5)" using io2 by simp
  let ?ws = "if n = 1 then [dec_word (rx2 0) (rx2 1)] else rx_words rx2 n"
  let ?ev = "KSpi (trx_frame (reg_cmd CMD_RREG (ucast (src 0)) (int n)) [] 10) #
      (if r1 < 0 then [] else [KSpi (trx_frame CMD_NULL [] (n + 2))])"
  from reg_read_ok [OF P J(2) c i1 i2] obtain t ys where
    t: "ads131m08_reg_read K (ucast (src 0)) (int n) (replicate n 0) ?s =
        Some (if r1 < 0 then (r1, replicate n 0, t) else if r2 < 0 then (r2, replicate n 0, t) else (r2, ?ws, t))"
    and ps: "pool_step ?s (drv_lists R A F (Some X)) X ?ev t ys" and d: "dev t = (if r1 < 0 then d4 else d5)"
    by (auto split: if_splits)
  have lw: "length ?ws = n" using n1 by (simp add: rx_words_def)
  let ?d = "if r1 < 0 then d4 else if r2 < 0 then d5 else d6"
  let ?r = "if r1 < 0 then r1 else if r2 < 0 then r2 else if ok then 0 else - EFAULT"
  have "ioctl_reg K arg True (ads131m08_reg_read K) s = ioctl_reg_call K arg True (ads131m08_reg_read K) ?kd ?s"
    using ioctl_reg_request [OF q] by simp
  also have "\<dots> = Some (?r, t\<lparr>dev := ?d\<rparr>)"
  proof (cases "r1 < 0 \<or> r2 < 0")
    case True
    then have "t\<lparr>dev := ?d\<rparr> = t" using d by auto
    then show ?thesis using True unfolding ioctl_reg_call_def kd u t by auto
  next
    case False
    then have "copy_to_user K d5 (arg + 4) ?ws = (ok, d6)" using cu by simp
    then show ?thesis using False lw d same unfolding ioctl_reg_call_def kd u t by (simp add: kcall_def)
  qed
  finally have "ads131m08_ioctl K CMD_RREG_nr arg s = Some (?r, t\<lparr>dev := ?d\<rparr>)"
    using I(3) by (simp add: ads131m08_ioctl_def ads131m08_run_stat_def ADC_RUN_def ADC_STOP_def ioctl_rreg_def)
  moreover from pool_step_drv [OF J(1) ps] have "drv_inv (t\<lparr>dev := ?d\<rparr>) R A F H ys bs" by simp
  moreover have "klog t = klog s @ ?ev" using ps by (simp add: pool_step_def)
  moreover have "spi_hdlr t" "run_stat t = ADC_STOP"
    using pool_step_drv [OF J(1) ps] I(2,3) ctl_fields [of t ?s] by (simp_all add: drv_step_def)
  ultimately show ?thesis by (intro exI [of _ "t\<lparr>dev := ?d\<rparr>"] exI [of _ ys]) simp
qed

lemma ioctl_rreg_ok:
  assumes I: "drv_inv s R A F H X bs" "spi_hdlr s" "run_stat s = ADC_STOP"
    and q: "reg_request K arg (dev s) True n src d3" and same: "unat (src 1) = n" and n: "n \<le> 680"
    and io1: "spi_sync_transfer K d3 (trx_frame (reg_cmd CMD_RREG (ucast (src 0)) (int n)) [] 10) = (r1, rx1, d4)" "0 \<le> r1"
    and io2: "spi_sync_transfer K d4 (trx_frame CMD_NULL [] (n + 2)) = (r2, rx2, d5)" "0 \<le> r2"
    and cu: "copy_to_user K d5 (arg + 4) (if n = 1 then [dec_word (rx2 0) (rx2 1)] else rx_words rx2 n) = (ok, d6)"
  shows "\<exists>t X'. ads131m08_ioctl K CMD_RREG_nr arg s = Some (if ok then 0 else - EFAULT, t) \<and>
    drv_inv t R A F H X' bs \<and> dev t = d6 \<and> spi_hdlr t \<and> run_stat t = ADC_STOP \<and>
    klog t = klog s @ [KSpi (trx_frame (reg_cmd CMD_RREG (ucast (src 0)) (int n)) [] 10),
                       KSpi (trx_frame CMD_NULL [] (n + 2))]"
  using ioctl_rreg_any [OF I q same n io1(1) io2(1) cu] io1(2) io2(2) by simp

text \<open>C24: the RREG ioctl end to end, when the header does not change between its two fetches: for
  1 to 680 registers and good transfers it returns 0 and has written to user memory, just behind
  the header, exactly the words the device answered; a fault there gives -EFAULT. On the bus
  there is one RREG exchange for that address and count.\<close>

theorem ioctl_rreg_result:
  assumes I: "drv_inv s R A F H X bs" "spi_hdlr s" "run_stat s = ADC_STOP"
    and q: "reg_request K arg (dev s) True n src d3" and same: "unat (src 1) = n" and n: "n \<le> 680"
    and io1: "spi_sync_transfer K d3 (trx_frame (reg_cmd CMD_RREG (ucast (src 0)) (int n)) [] 10) = (r1, rx1, d4)" "0 \<le> r1"
    and io2: "spi_sync_transfer K d4 (trx_frame CMD_NULL [] (n + 2)) = (r2, rx2, d5)" "0 \<le> r2"
    and cu: "copy_to_user K d5 (arg + 4) (if n = 1 then [dec_word (rx2 0) (rx2 1)] else rx_words rx2 n) = (ok, d6)"
  shows "\<exists>t X'. ads131m08_ioctl K CMD_RREG_nr arg s = Some (if ok then 0 else - EFAULT, t) \<and>
    drv_inv t R A F H X' bs \<and>
    klog t = klog s @ [KSpi (trx_frame (reg_cmd CMD_RREG (ucast (src 0)) (int n)) [] 10),
                       KSpi (trx_frame CMD_NULL [] (n + 2))]"
  using ioctl_rreg_ok [OF assms] by blast

lemma k0_request: "reg_request k0 arg d True 2 (\<lambda>i. if i \<le> 1 then 2 else of_nat (Suc i)) ()"
  by (simp add: reg_request_def k0_simps)

theorem ioctl_rreg_result_witness:
  "\<exists>(s :: unit drv) t. ads131m08_ioctl k0 CMD_RREG_nr 4096 s = Some (0, t) \<and>
     klog t = klog s @ [KSpi (trx_frame (reg_cmd CMD_RREG 2 2) [] 10), KSpi (trx_frame CMD_NULL [] 4)]"
proof -
  obtain s :: "unit drv" and X where
    s: "sys_inv s [] [] [0..<CHUNK_BUF_CNT] [] X (replicate CHUNK_BUF_CNT fresh_chunk_buf)" "run_stat s = ADC_STOP"
    using k0_up by blast
  then have D: "drv_inv s [] [] [0..<CHUNK_BUF_CNT] [] X (replicate CHUNK_BUF_CNT fresh_chunk_buf)" "spi_hdlr s"
    by (simp_all add: sys_inv_def)
  have cu: "copy_to_user k0 () (4096 + 4) (if (2::nat) = 1 then [dec_word ((\<lambda>i. of_nat (3 * i)) 0) ((\<lambda>i. of_nat (3 * i)) 1)]
      else rx_words (\<lambda>i. of_nat (3 * i)) 2) = (True, ())" by (simp add: k0_simps)
  from ioctl_rreg_result [OF D s(2) k0_request _ _ k0_spi order_refl k0_spi order_refl cu] show ?thesis by auto
qed

text \<open>C25: a defect: the header is fetched from user memory twice, its count is checked only the first
  time, and the second value is used. If another thread raises it in between, the driver reads
  more registers than the kernel buffer holds and \<open>frame2word\<close> writes past its end.\<close>

theorem ioctl_rreg_double_fetch:
  assumes I: "drv_inv s R A F H X bs" "spi_hdlr s" "run_stat s = ADC_STOP"
    and q: "reg_request K arg (dev s) True n src d3" and grown: "n < unat (src 1)" "unat (src 1) \<le> 680"
    and io1: "spi_sync_transfer K d3 (trx_frame (reg_cmd CMD_RREG (ucast (src 0)) (uint (src 1))) [] 10) = (r1, rx1, d4)" "0 \<le> r1"
    and io2: "spi_sync_transfer K d4 (trx_frame CMD_NULL [] (unat (src 1) + 2)) = (r2, rx2, d5)" "0 \<le> r2"
  shows "ads131m08_ioctl K CMD_RREG_nr arg s = None"
proof -
  let ?s = "s\<lparr>dev := d3\<rparr>" let ?kd = "map src [0..<2] @ replicate n 0" let ?m = "uint (src 1)"
  have J: "drv_inv ?s R A F H X bs" "spi_hdlr ?s" using I by simp_all
  have P: "xfer_pool ?s (drv_lists R A F (Some X)) X" "X \<noteq> []"
    using J(1) by (simp_all add: drv_inv_pool) (simp add: drv_inv_def)
  have kd: "?kd ! 0 = src 0" "?kd ! 1 = src 1" "drop 2 ?kd = replicate n 0" by (simp_all add: nth_append)
  define m where "m = unat (src 1)"
  have u: "uint (src 1) = int m" unfolding m_def by (rule uint_nat)
  have g: "n < m" "m \<le> 680" "2 \<le> m" using grown q by (auto simp: m_def reg_request_def)
  have w: "trx_words 0 8 = 10" "trx_words 0 (int m) = m + 2" using g by (auto simp: trx_words_def Let_def)
  from adc_trx_ok [OF P J(2), of 0 8 "[]" None None K "reg_cmd CMD_RREG (ucast (src 0)) (int m)" r1 rx1 d4] io1(1) w u
  obtain t ys where
    t: "adc_trx K (reg_cmd CMD_RREG (ucast (src 0)) (int m)) [] 0 None 8 None ?s
      = Some (r1, if r1 < 0 then None else Some (dec_word (rx1 0) (rx1 1)), None, t)"
    and ps: "pool_step ?s (drv_lists R A F (Some X)) X
      [KSpi (trx_frame (reg_cmd CMD_RREG (ucast (src 0)) (int m)) [] 10)] t ys" and d: "dev t = d4"
    by (auto simp: trx_rx_def)
  have up: "spi_hdlr t" using ps J(2) io_only_fields(1) [of ?s t] by (simp add: pool_step_def)
  have io2': "spi_sync_transfer K (dev t) (trx_frame CMD_NULL [] (trx_words 0 (int m))) = (r2, rx2, d5)"
    using io2(1) d w m_def by simp
  have "adc_trx K CMD_NULL [] 0 (Some (replicate n 0)) (int m) (Some frame2word) t = None"
    by (rule adc_trx_overrun [OF pool_step_pool [OF ps] pool_step_nonempty [OF ps P(2)] up _ _ _ io2' io2(2)])
      (use g in simp_all)
  with t io1(2) have "ads131m08_reg_read K (ucast (src 0)) (int m) (replicate n 0) ?s = None"
    by (simp add: ads131m08_reg_read_def ADC_CH_NUM_def)
  then have "ioctl_reg K arg True (ads131m08_reg_read K) s = None"
    using ioctl_reg_request [OF q] unfolding ioctl_reg_call_def by (simp only: if_True kd u) simp
  with I(3) show ?thesis
    by (simp add: ads131m08_ioctl_def ads131m08_run_stat_def ADC_RUN_def ADC_STOP_def ioctl_rreg_def)
qed

text \<open>User memory that alternates between a count of one and a count of five.\<close>

definition k_race :: "bool kenv" where
  "k_race = k_base\<lparr>copy_from_user := (\<lambda>d p n. (Some (\<lambda>i. if i = 1 then if d then 5 else 1 else 0), \<not> d))\<rparr>"

theorem ioctl_rreg_double_fetch_witness:
  "\<exists>s X. drv_inv s [] [] [0..<CHUNK_BUF_CNT] [] X (replicate CHUNK_BUF_CNT fresh_chunk_buf) \<and>
     ads131m08_ioctl k_race CMD_RREG_nr 4096 s = None"
proof -
  have "willing k_race" by (simp add: willing_def spi_mode_setup_def k_race_def k_base_def)
  from probe_willing [OF this drv_off_empty [of False]] obtain t where
    t: "ads131m08_probe k_race (drv_off False) = Some (SUCCESS, t)" by blast
  from probe_ok [OF drv_off_empty, of k_race False] t obtain evs where "probe_ready k_race (drv_off False) t evs"
    by (auto simp: k_race_def k_base_def)
  then obtain X where "sys_inv t [] [] [0..<CHUNK_BUF_CNT] [] X (replicate CHUNK_BUF_CNT fresh_chunk_buf)"
    "run_stat t = ADC_STOP" by (auto simp: probe_ready_def)
  then have I: "drv_inv (t\<lparr>dev := False\<rparr>) [] [] [0..<CHUNK_BUF_CNT] [] X (replicate CHUNK_BUF_CNT fresh_chunk_buf)"
    "spi_hdlr (t\<lparr>dev := False\<rparr>)" "run_stat (t\<lparr>dev := False\<rparr>) = ADC_STOP" by (simp_all add: sys_inv_def)
  have q: "reg_request k_race 4096 (dev (t\<lparr>dev := False\<rparr>)) True 1 (\<lambda>i. if i = 1 then 5 else 0) False"
    by (simp add: reg_request_def k_race_def k_base_def) (rule exI [of _ True], simp)
  have io: "spi_sync_transfer k_race d tx = (0, (\<lambda>i. of_nat (3 * i)), d)" for d tx by (simp add: k_race_def k_base_def)
  have "ads131m08_ioctl k_race CMD_RREG_nr 4096 (t\<lparr>dev := False\<rparr>) = None"
    by (rule ioctl_rreg_double_fetch [OF I q _ _ io order_refl io order_refl]) simp_all
  with I(1) show ?thesis by blast
qed

text \<open>The ioctl accepts up to 1024 registers but a transfer carries 680. A read of more sends
  the RREG command and then gives up with -EINVAL, leaving the device with a pending answer; a
  write of more gives up before anything is sent.\<close>

theorem reg_count_too_large:
  assumes I: "drv_inv s R A F H X bs" "spi_hdlr s" and cnt: "680 < cnt" "cnt \<le> 1024"
    and io: "spi_sync_transfer K (dev s) (trx_frame (reg_cmd CMD_RREG a cnt) [] 10) = (r, rx, d)" "0 \<le> r"
  shows "ads131m08_reg_write K a cnt vals s = Some (- EINVAL, vals, s) \<and>
    (\<exists>t X'. ads131m08_reg_read K a cnt vals s = Some (- EINVAL, vals, t) \<and> drv_inv t R A F H X' bs \<and>
       klog t = klog s @ [KSpi (trx_frame (reg_cmd CMD_RREG a cnt) [] 10)])"
proof
  from adc_trx_toolong [OF I(2), of cnt 0 K "reg_cmd CMD_WREG a cnt" vals None None] cnt
  show "ads131m08_reg_write K a cnt vals s = Some (- EINVAL, vals, s)"
    by (simp add: ads131m08_reg_write_def EINVAL_def)
next
  have P: "xfer_pool s (drv_lists R A F (Some X)) X" "X \<noteq> []"
    using I(1) by (simp_all add: drv_inv_pool) (simp add: drv_inv_def)
  let ?f = "trx_frame (reg_cmd CMD_RREG a cnt) [] 10"
  have "trx_words 0 8 = 10" by (simp add: trx_words_def)
  with adc_trx_ok [OF P I(2), of 0 8 "[]" None None K "reg_cmd CMD_RREG a cnt" r rx d] io(1) obtain t ys where
    t: "adc_trx K (reg_cmd CMD_RREG a cnt) [] 0 None 8 None s
      = Some (r, if r < 0 then None else Some (dec_word (rx 0) (rx 1)), None, t)"
    and ps: "pool_step s (drv_lists R A F (Some X)) X [KSpi ?f] t ys"
    by (auto simp: trx_rx_def)
  have up: "spi_hdlr t" using ps I(2) io_only_fields(1) [of s t] by (simp add: pool_step_def)
  from adc_trx_toolong [OF up, of 0 cnt K CMD_NULL "[]" "Some vals" "Some frame2word"] cnt
  have "adc_trx K CMD_NULL [] 0 (Some vals) cnt (Some frame2word) t = Some (- EINVAL, None, Some vals, t)" by simp
  with t io(2) have "ads131m08_reg_read K a cnt vals s = Some (- EINVAL, vals, t)"
    by (simp add: ads131m08_reg_read_def ADC_CH_NUM_def EINVAL_def)
  with pool_step_drv [OF I(1) ps] ps show "\<exists>t X'. ads131m08_reg_read K a cnt vals s = Some (- EINVAL, vals, t) \<and>
      drv_inv t R A F H X' bs \<and> klog t = klog s @ [KSpi ?f]"
    by (auto simp: pool_step_def)
qed

theorem reg_count_too_large_witness:
  "\<exists>(s :: unit drv) t. ads131m08_reg_read k0 0 700 [] s = Some (- EINVAL, [], t) \<and> klog t \<noteq> klog s"
proof -
  obtain s :: "unit drv" and X where
    s: "sys_inv s [] [] [0..<CHUNK_BUF_CNT] [] X (replicate CHUNK_BUF_CNT fresh_chunk_buf)" "run_stat s = ADC_STOP"
    using k0_up by blast
  then have D: "drv_inv s [] [] [0..<CHUNK_BUF_CNT] [] X (replicate CHUNK_BUF_CNT fresh_chunk_buf)" "spi_hdlr s"
    by (simp_all add: sys_inv_def)
  have "(680::int) < 700" "(700::int) \<le> 1024" by simp_all
  from reg_count_too_large [OF D this k0_spi order_refl, where vals = "[]"] show ?thesis by fastforce
qed

end
