(* ===== verification/Lifecycle.thy ===== *)
theory Lifecycle
  imports Examples
begin

text \<open>
  What probe and remove guarantee, over every answer the kernel and the device may give.
\<close>

section \<open>Probe\<close>

text \<open>C18: \<open>ads131m08_probe\<close>, whatever the kernel and the device answer: it returns; with zero
  the driver is up and stopped, all eight chunk buffers free, eight transfer buffers pooled, the
  chunk size 40, and it has registered the proc file, region, device, class and node, pulsed the
  reset pin and sent STANDBY, in this order; with an error everything it registered is
  unregistered again, and no transfer buffer stays allocated unless the error is -ENOMEM. With a
  kernel that grants every request it returns zero.\<close>

theorem probe_outcome:
  assumes "heap_rep s (\<lambda>_. None)" "fresh_xfers s" "\<And>d. fst (class_create K d) \<noteq> 0"
  shows "\<exists>ret t evs. ads131m08_probe K s = Some (ret, t) \<and> klog t = klog s @ evs \<and> (willing K \<longrightarrow> ret = SUCCESS) \<and>
    (if ret = SUCCESS then probe_ready K s t evs
     else all_released evs \<and> (ret = - ENOMEM \<or> no_new_xfer s t))"
proof -
  from probe_ok [OF assms] obtain ret t evs where p: "ads131m08_probe K s = Some (ret, t)" "klog t = klog s @ evs"
    "if ret = SUCCESS then probe_ready K s t evs else all_released evs \<and> (ret = - ENOMEM \<or> no_new_xfer s t)"
    by blast
  moreover have "willing K \<longrightarrow> ret = SUCCESS" using probe_willing [of K, OF _ assms(1,2)] p(1) by auto
  ultimately show ?thesis by blast
qed

theorem probe_outcome_witness:
  "\<exists>t. ads131m08_probe k0 drv0 = Some (SUCCESS, t) \<and>
     probe_ready k0 drv0 t (iface_up @ adc_rst_log t @ [KSpi (trx_frame CMD_STANDBY [] 1)])"
proof -
  have cl: "\<And>d. fst (class_create k0 d) \<noteq> 0" by (simp add: k0_simps)
  from probe_outcome [OF drv0_empty cl] k0_willing obtain t evs where
    "ads131m08_probe k0 drv0 = Some (SUCCESS, t)" "probe_ready k0 drv0 t evs" by auto
  moreover from this(2) have "evs = iface_up @ adc_rst_log t @ [KSpi (trx_frame CMD_STANDBY [] 1)]"
    by (simp add: probe_ready_def)
  ultimately show ?thesis by blast
qed

text \<open>C30: a leak. When the pool of transfer buffers cannot be filled (one of its eight
  allocations fails after \<open>j\<close> succeeded), probe returns -ENOMEM at once, without the error path
  that frees the pool: the \<open>j\<close> buffers, which are not managed by the device, stay allocated.\<close>

theorem probe_oom_leaks:
  assumes R: "heap_rep s (\<lambda>_. None)" and fr: "fresh_xfers s"
    and al: "data_allocs K (dev s) = (replicate 5 True, d)" and ss: "spi_mode_setup K d = (0, d2)"
    and dm: "devm_kzalloc K d2 = (True, d3)" and kz: "kz_ok K XFER_BUF_NUM d3 = (j, d4)" and j: "j < XFER_BUF_NUM"
  shows "\<exists>t. ads131m08_probe K s = Some (- ENOMEM, t) \<and> klog t = klog s \<and>
    Xfer ` {next_xfer s..<next_xfer s + j} \<subseteq> dom (elms t) \<and>
    Xfer ` {next_xfer s..<next_xfer s + j} \<inter> dom (elms s) = {}"
proof -
  from data_init_ok [OF R al] obtain s1 where s1: "ads131m08_data_init K s = Some (SUCCESS, s1)"
    "data_inv s1 [] [] [0..<CHUNK_BUF_CNT] [] None (replicate CHUNK_BUF_CNT fresh_chunk_buf)"
    "dev s1 = d" "klog s1 = klog s" "next_xfer s1 = next_xfer s"
    and e1: "\<And>x. Xfer x \<in> dom (elms s1) \<longleftrightarrow> Xfer x \<in> dom (elms s)" by blast
  let ?s2 = "s1\<lparr>dev := d2\<rparr>"
  have D2: "data_inv ?s2 [] [] [0..<CHUNK_BUF_CNT] [] None (replicate CHUNK_BUF_CNT fresh_chunk_buf)"
    using s1(2) by (simp add: data_inv_def)
  have fresh: "Xfer x \<notin> dom (elms s)" if "next_xfer s \<le> x" for x using fr that by (auto simp: fresh_xfers_def)
  have "elms ?s2 (Xfer x) = None" if "next_xfer ?s2 \<le> x" for x
    using fresh [of x] e1 [of x] that s1(5) by (simp add: domIff)
  then have fr2: "fresh_xfers ?s2" by (simp add: fresh_xfers_def)
  have dm2: "devm_kzalloc K (dev ?s2) = (True, d3)" using dm by simp
  from spi_init_ok [OF D2 fr2 dm2 kz] j s1(5) obtain t where
    t: "ads131m08_spi_init K ?s2 = Some (- ENOMEM, t)" "klog t = klog ?s2"
      "Xfer ` set [next_xfer s..<next_xfer s + j] \<subseteq> dom (elms t)" by auto
  have "ads131m08_probe K s = Some (- ENOMEM, t)"
    using s1(1,3) ss t(1) by (simp add: probe_unfold kcall_def SUCCESS_def ENOMEM_def)
  moreover have "Xfer ` {next_xfer s..<next_xfer s + j} \<inter> dom (elms s) = {}" using fresh by fastforce
  ultimately show ?thesis using t s1(4) by (intro exI [of _ t]) auto
qed

text \<open>A kernel with memory for three transfer buffers: it counts the allocations.\<close>

definition k_oom :: "nat kenv" where
  "k_oom = k_base\<lparr>kzalloc := (\<lambda>d. (d < 3, Suc d))\<rparr>"

theorem probe_oom_leaks_witness:
  "\<exists>t. ads131m08_probe k_oom (drv_off 0) = Some (- ENOMEM, t) \<and> {Xfer 0, Xfer 1, Xfer 2} \<subseteq> dom (elms t)"
proof -
  have s: "dev (drv_off 0) = (0::nat)" "next_xfer (drv_off (0::nat)) = 0" by (simp_all add: drv_off_def)
  have al: "data_allocs k_oom (dev (drv_off 0)) = (replicate 5 True, 0)"
    unfolding s by (simp add: data_allocs_def k_oom_def k_base_def numeral_eq_Suc)
  have dm: "devm_kzalloc k_oom 0 = (True, 0)" and ss: "spi_mode_setup k_oom 0 = (0, 0)"
    by (simp_all add: spi_mode_setup_def k_oom_def k_base_def)
  have kz: "kz_ok k_oom XFER_BUF_NUM 0 = (3, 4)" by (simp add: k_oom_def k_base_def XFER_BUF_NUM_def numeral_eq_Suc)
  have "{0..<0 + 3} = {0, 1, 2 :: nat}" by auto
  with probe_oom_leaks [OF drv_off_empty al ss dm kz] s(2) show ?thesis by (auto simp: XFER_BUF_NUM_def)
qed

section \<open>Remove\<close>

text \<open>The acquisition is stopped if it runs.\<close>

lemma data_exit_ok:
  assumes I: "sys_inv s R A F H X bs" and io: "spi_sync_transfer K (dev s) (trx_frame CMD_STANDBY [] 1) = (ret, rxd, d)"
  obtains t R' A' F' X' bs' where "ads131m08_data_exit K s = Some t" "sys_inv t R' A' F' H X' bs'" "mset X' = mset X"
    "run_stat t = ADC_STOP" "\<not> irq_registered t" "dom (elms t) = dom (elms s)" "next_xfer t = next_xfer s"
    "klog t = klog s @ (if run_stat s = ADC_RUN
       then (if irq_registered s then [KFreeIrq (gpio_irq_no s)] else []) @ [KSpi (trx_frame CMD_STANDBY [] 1), KWakeUp]
       else [])"
proof (cases "run_stat s = ADC_RUN")
  case True
  from run_cmd_stop [OF I True, of K ret rxd d] io obtain t X' where
    t: "ads131m08_run_cmd K ADC_STOP s = Some (if ret < 0 then ret else SUCCESS, t)"
      "sys_inv t [] [] (F @ R @ A) H X' (reset_bufs (R @ A) bs)" "mset X' = mset X"
      "ctl t = ctl (s\<lparr>run_stat := ADC_STOP, irq_registered := False\<rparr>)"
      "klog t = klog s @ (if irq_registered s then [KFreeIrq (gpio_irq_no s)] else [])
        @ [KSpi (trx_frame CMD_STANDBY [] 1), KWakeUp]" "dom (elms t) = dom (elms s)" by auto
  have "ads131m08_data_exit K s = Some t" using t(1) by (simp add: ads131m08_data_exit_def)
  moreover have "run_stat t = ADC_STOP" "\<not> irq_registered t" "next_xfer t = next_xfer s"
    using ctl_fields [OF t(4)] by simp_all
  ultimately show thesis using t True that by auto
next
  case False
  with I have r: "run_stat s = ADC_STOP" "\<not> irq_registered s" by (auto simp: sys_inv_def)
  then have "ads131m08_data_exit K s = Some s" by (simp add: ads131m08_data_exit_def ads131m08_run_cmd_def ads131m08_run_stat_def)
  with I r False that [of s R A F X bs] show thesis by simp
qed

lemma remove_ok:
  assumes I: "sys_inv s R A F H X bs" and io: "spi_sync_transfer K (dev s) (trx_frame CMD_STANDBY [] 1) = (ret, rxd, d)"
  shows "\<exists>t. ads131m08_remove K s = Some t \<and> \<not> irq_registered t \<and> run_stat t = ADC_STOP \<and> \<not> spi_hdlr t \<and>
    xfer_list t = None \<and> dom (elms t) = dom (elms s) - Xfer ` set X \<and> (\<forall>x \<in> set X. xmem t x = None) \<and>
    next_xfer t = next_xfer s \<and> (\<exists>R A F bs. data_inv t R A F H (Some []) bs) \<and>
    klog t = klog s @ (if proc_file s then [KProcRemove] else [])
      @ (if data_cl s then [KDevDestroy, KClassDestroy, KCdevDel, KUnregRegion] else [])
      @ (if run_stat s = ADC_RUN
         then (if irq_registered s then [KFreeIrq (gpio_irq_no s)] else []) @ [KSpi (trx_frame CMD_STANDBY [] 1), KWakeUp]
         else [])"
proof -
  let ?x1 = "ads131m08_iface_exit s"
  have D: "drv_inv s R A F H X bs" "spi_hdlr s" using I by (simp_all add: sys_inv_def)
  have x1: "iface_only s ?x1"
    "klog ?x1 = klog s @ (if proc_file s then [KProcRemove] else [])
       @ (if data_cl s then [KDevDestroy, KClassDestroy, KCdevDel, KUnregRegion] else [])"
    using iface_exit_ok [of s] drv_inv_data [OF D(1)] by auto
  note f1 = iface_onlyD [OF x1(1)]
  have dev1: "dev ?x1 = dev s" by (simp add: ads131m08_iface_exit_def fops_exit_def proc_file_exit_def)
  have I1: "sys_inv ?x1 R A F H X bs" using I f1 by (simp add: sys_inv_def)
  from io dev1 have io1: "spi_sync_transfer K (dev ?x1) (trx_frame CMD_STANDBY [] 1) = (ret, rxd, d)" by simp
  obtain t2 R2 A2 F2 X2 bs2 where
    t2: "ads131m08_data_exit K ?x1 = Some t2" "sys_inv t2 R2 A2 F2 H X2 bs2" "mset X2 = mset X"
      "run_stat t2 = ADC_STOP" "\<not> irq_registered t2" "dom (elms t2) = dom (elms ?x1)"
      "next_xfer t2 = next_xfer ?x1"
    and k: "klog t2 = klog ?x1 @ (if run_stat ?x1 = ADC_RUN
       then (if irq_registered ?x1 then [KFreeIrq (gpio_irq_no ?x1)] else []) @ [KSpi (trx_frame CMD_STANDBY [] 1), KWakeUp]
       else [])" by (rule data_exit_ok [OF I1 io1])
  have g: "ads131m08_gpio_exit t2 = t2"
    using gpio_exit_ok t2(2,5) unfolding sys_inv_def by blast
  from t2(2) have "drv_inv t2 R2 A2 F2 H X2 bs2" by (simp add: sys_inv_def)
  from spi_exit_ok [OF this] obtain t where
    t: "ads131m08_spi_exit t2 = Some t" "data_inv t R2 A2 F2 H (Some []) bs2" "dom (elms t) = dom (elms t2) - Xfer ` set X2" "\<forall>x \<in> set X2. xmem t x = None"
      "klog t = klog t2" "xfer_list t = None" "\<not> spi_hdlr t" "irq_registered t = irq_registered t2"
      "run_stat t = run_stat t2" "next_xfer t = next_xfer t2" by blast
  have "set X2 = set X" using t2(3) by (rule mset_eq_setD)
  moreover have "ads131m08_remove K s = Some t" using t2(1) g t(1) by (simp add: ads131m08_remove_def)
  moreover have "next_xfer ?x1 = next_xfer s"
    by (simp add: ads131m08_iface_exit_def fops_exit_def proc_file_exit_def)
  moreover have "\<exists>R A F bs. data_inv t R A F H (Some []) bs" using t(2) by blast
  ultimately show ?thesis using t(1,3-) t2 x1(2) k f1 by (intro exI [of _ t]) simp
qed

text \<open>C29: \<open>ads131m08_remove\<close> on a driver that is up: the device node and the proc file are
  unregistered first, then a running acquisition is stopped (interrupt freed, STANDBY sent,
  readers woken), and every transfer buffer is released; nothing faults and no interrupt
  stays registered.\<close>

theorem remove_releases:
  assumes I: "sys_inv s R A F H X bs" and io: "spi_sync_transfer K (dev s) (trx_frame CMD_STANDBY [] 1) = (ret, rxd, d)"
  shows "\<exists>t. ads131m08_remove K s = Some t \<and> \<not> irq_registered t \<and> run_stat t = ADC_STOP \<and> \<not> spi_hdlr t \<and>
    xfer_list t = None \<and> dom (elms t) = dom (elms s) - Xfer ` set X \<and> (\<forall>x \<in> set X. xmem t x = None) \<and>
    klog t = klog s @ (if proc_file s then [KProcRemove] else [])
      @ (if data_cl s then [KDevDestroy, KClassDestroy, KCdevDel, KUnregRegion] else [])
      @ (if run_stat s = ADC_RUN
         then (if irq_registered s then [KFreeIrq (gpio_irq_no s)] else []) @ [KSpi (trx_frame CMD_STANDBY [] 1), KWakeUp]
         else [])"
  using remove_ok [OF assms] by blast

theorem remove_releases_witness:
  "\<exists>(s :: unit drv) X t. X \<noteq> [] \<and> run_stat s = ADC_RUN \<and> irq_registered s \<and> ads131m08_remove k0 s = Some t \<and>
     \<not> irq_registered t \<and> (\<forall>x \<in> set X. xmem t x = None)"
proof -
  obtain s :: "unit drv" and X bs where s: "sys_inv s [0] [] [1..<CHUNK_BUF_CNT] [] X bs" "run_stat s = ADC_RUN"
    "irq_registered s" using k0_ready by blast
  from remove_releases [OF s(1) k0_spi] s(2,3) show ?thesis
    using s(1) by (auto simp: sys_inv_def drv_inv_def)
qed

end
