(* ===== verification/User_List.thy ===== *)
theory User_List
  imports Linked_List
begin

text \<open>
  The user-space variant of the linked list, \<open>src/test_program/list.c\<close> and \<open>list.h\<close>, over the
  same heap of headers and elements. Its functions carry the suffix \<open>_u\<close>. It differs from the
  driver's list in what it checks (few NULL pointers), in what it clears (a fetched element keeps
  its links, a deleted one its parent) and in \<open>list_insert_sort\<close> and \<open>list_get_idx\<close>. The mutexes
  are not data: the body of a locked section is atomic. \<open>TRUE\<close> and \<open>FALSE\<close> are 1 and 0 (no header
  of the program declares them).
\<close>

section \<open>Operations\<close>

definition list_append_u ::
  "'l option \<Rightarrow> 'a option \<Rightarrow> ('l, 'a, 'z) lheap_scheme \<Rightarrow> ('l, 'a, 'z) lheap_scheme option" where
  "list_append_u list elm h =
     (case (list, elm) of
        (Some l, Some a) \<Rightarrow> do {
          h \<leftarrow> upd_elm a (\<lambda>e. e\<lparr>e_parent := Some l\<rparr>) h;
          d \<leftarrow> hdrs h l;
          h \<leftarrow> (if l_head d = None then do {
                  h \<leftarrow> upd_elm a (\<lambda>e. e\<lparr>e_prev := None, e_next := None\<rparr>) h;
                  upd_hdr l (\<lambda>d. d\<lparr>l_head := Some a, l_tail := Some a\<rparr>) h
                } else do {
                  h \<leftarrow> upd_elm a (\<lambda>e. e\<lparr>e_prev := l_tail d\<rparr>) h;
                  t \<leftarrow> l_tail d;
                  h \<leftarrow> upd_elm t (\<lambda>e. e\<lparr>e_next := Some a\<rparr>) h;
                  h \<leftarrow> upd_elm a (\<lambda>e. e\<lparr>e_next := None\<rparr>) h;
                  upd_hdr l (\<lambda>d. d\<lparr>l_tail := Some a\<rparr>) h
                });
          upd_hdr l (\<lambda>d. d\<lparr>l_count := int32 (l_count d + 1)\<rparr>) h
        }
      | _ \<Rightarrow> Some h)"

definition list_insert_u ::
  "'l option \<Rightarrow> 'a option \<Rightarrow> 'a option \<Rightarrow> ('l, 'a, 'z) lheap_scheme
     \<Rightarrow> ('l, 'a, 'z) lheap_scheme option" where
  "list_insert_u list prev_elem elem h =
     (case (list, elem) of
        (Some l, Some a) \<Rightarrow> do {
          h \<leftarrow> upd_elm a (\<lambda>e. e\<lparr>e_parent := Some l\<rparr>) h;
          d \<leftarrow> hdrs h l;
          h \<leftarrow> (case l_head d of
                 None \<Rightarrow> do {
                   h \<leftarrow> upd_elm a (\<lambda>e. e\<lparr>e_prev := None, e_next := None\<rparr>) h;
                   upd_hdr l (\<lambda>d. d\<lparr>l_head := Some a, l_tail := Some a\<rparr>) h }
               | Some hd0 \<Rightarrow>
                   (case prev_elem of
                      None \<Rightarrow> do {
                        h \<leftarrow> upd_elm a (\<lambda>e. e\<lparr>e_prev := None, e_next := Some hd0\<rparr>) h;
                        h \<leftarrow> upd_elm hd0 (\<lambda>e. e\<lparr>e_prev := Some a\<rparr>) h;
                        upd_hdr l (\<lambda>d. d\<lparr>l_head := Some a\<rparr>) h }
                    | Some p \<Rightarrow> do {
                        h \<leftarrow> upd_elm a (\<lambda>e. e\<lparr>e_prev := Some p\<rparr>) h;
                        pe \<leftarrow> elms h p;
                        h \<leftarrow> upd_elm a (\<lambda>e. e\<lparr>e_next := e_next pe\<rparr>) h;
                        h \<leftarrow> upd_elm p (\<lambda>e. e\<lparr>e_next := Some a\<rparr>) h;
                        ae \<leftarrow> elms h a;
                        (case e_next ae of
                           None \<Rightarrow> upd_hdr l (\<lambda>d. d\<lparr>l_tail := Some a\<rparr>) h
                         | Some n \<Rightarrow> upd_elm n (\<lambda>e. e\<lparr>e_prev := Some a\<rparr>) h) }));
          upd_hdr l (\<lambda>d. d\<lparr>l_count := int32 (l_count d + 1)\<rparr>) h
        }
      | _ \<Rightarrow> Some h)"

definition list_fetch_u ::
  "'l option \<Rightarrow> ('l, 'a, 'z) lheap_scheme \<Rightarrow> ('a option \<times> ('l, 'a, 'z) lheap_scheme) option" where
  "list_fetch_u list h =
     (case list of
        None \<Rightarrow> Some (None, h)
      | Some l \<Rightarrow> do {
          d \<leftarrow> hdrs h l;
          (case l_head d of
             None \<Rightarrow> Some (None, h)
           | Some r \<Rightarrow> do {
               e \<leftarrow> elms h r;
               h \<leftarrow> upd_hdr l (\<lambda>d. d\<lparr>l_head := e_next e\<rparr>) h;
               h \<leftarrow> (case e_next e of
                      Some n \<Rightarrow> upd_elm n (\<lambda>e. e\<lparr>e_prev := None\<rparr>) h
                    | None \<Rightarrow> upd_hdr l (\<lambda>d. d\<lparr>l_tail := None\<rparr>) h);
               h \<leftarrow> upd_hdr l (\<lambda>d. d\<lparr>l_count := int32 (l_count d - 1)\<rparr>) h;
               h \<leftarrow> upd_elm r (\<lambda>e. e\<lparr>e_parent := None\<rparr>) h;
               Some (Some r, h)
             })
        })"

text \<open>Accessors go through the list pointer unchecked; \<open>list_iter\<close> reads it only at the start.\<close>

definition list_iter_u ::
  "'l option \<Rightarrow> 'a option \<Rightarrow> ('l, 'a, 'z) lheap_scheme \<Rightarrow> 'a option option" where
  "list_iter_u list prev h =
     (case prev of
        None \<Rightarrow> (case list of None \<Rightarrow> None | Some l \<Rightarrow> map_option l_head (hdrs h l))
      | Some p \<Rightarrow> map_option e_next (elms h p))"

definition list_get_last_elm_u ::
  "'l option \<Rightarrow> ('l, 'a, 'z) lheap_scheme \<Rightarrow> 'a option option" where
  "list_get_last_elm_u list h = (case list of None \<Rightarrow> None | Some l \<Rightarrow> map_option l_tail (hdrs h l))"

definition list_get_first_elm_u ::
  "'l option \<Rightarrow> ('l, 'a, 'z) lheap_scheme \<Rightarrow> 'a option option" where
  "list_get_first_elm_u list h = (case list of None \<Rightarrow> None | Some l \<Rightarrow> map_option l_head (hdrs h l))"

definition list_get_cnt_u :: "'l option \<Rightarrow> ('l, 'a, 'z) lheap_scheme \<Rightarrow> int option" where
  "list_get_cnt_u list h = (case list of None \<Rightarrow> Some 0 | Some l \<Rightarrow> map_option l_count (hdrs h l))"

text \<open>\<open>fresh\<close> is the result of \<open>calloc\<close>; \<open>list_new\<close> initialises the mutex without checking it.\<close>

definition list_new_u ::
  "'l option \<Rightarrow> ('l, 'a, 'z) lheap_scheme \<Rightarrow> ('l option \<times> ('l, 'a, 'z) lheap_scheme) option" where
  "list_new_u fresh h =
     (case fresh of
        None \<Rightarrow> None
      | Some l \<Rightarrow> Some (Some l, h\<lparr>hdrs := (hdrs h)(l \<mapsto> zero_hdr)\<rparr>))"

definition list_alloc_elm_u ::
  "'a option \<Rightarrow> ('l, 'a, 'z) lheap_scheme \<Rightarrow> 'a option \<times> ('l, 'a, 'z) lheap_scheme" where
  "list_alloc_elm_u fresh h =
     (case fresh of
        None \<Rightarrow> (None, h)
      | Some a \<Rightarrow> (Some a, h\<lparr>elms := (elms h)(a \<mapsto> zero_elm)\<rparr>))"

text \<open>An element without a parent is freed whatever \<open>free_elm\<close> says; one with a parent keeps it.\<close>

definition list_del_elm_u ::
  "'a option \<Rightarrow> bool \<Rightarrow> ('l, 'a, 'z) lheap_scheme \<Rightarrow> ('l, 'a, 'z) lheap_scheme option" where
  "list_del_elm_u elem free_elm h =
     (case elem of
        None \<Rightarrow> Some h
      | Some a \<Rightarrow> do {
          e \<leftarrow> elms h a;
          (case e_parent e of
             None \<Rightarrow> kfree_elm a h
           | Some l \<Rightarrow> do {
               h \<leftarrow> (case e_prev e of
                      Some p \<Rightarrow> upd_elm p (\<lambda>x. x\<lparr>e_next := e_next e\<rparr>) h
                    | None \<Rightarrow> upd_hdr l (\<lambda>d. d\<lparr>l_head := e_next e\<rparr>) h);
               h \<leftarrow> (case e_next e of
                      Some n \<Rightarrow> upd_elm n (\<lambda>x. x\<lparr>e_prev := e_prev e\<rparr>) h
                    | None \<Rightarrow> upd_hdr l (\<lambda>d. d\<lparr>l_tail := e_prev e\<rparr>) h);
               h \<leftarrow> upd_elm a (\<lambda>x. x\<lparr>e_prev := None, e_next := None\<rparr>) h;
               h \<leftarrow> upd_hdr l (\<lambda>d. d\<lparr>l_count := int32 (l_count d - 1)\<rparr>) h;
               (if free_elm then kfree_elm a h else Some h)
             })
        })"

text \<open>The search stops where the comparison returns exactly \<open>TRUE\<close>.\<close>

partial_function (option) search_loop_u ::
  "('a \<Rightarrow> int) \<Rightarrow> 'a option \<Rightarrow> ('l, 'a, 'z) lheap_scheme \<Rightarrow> 'a option option" where
  "search_loop_u cmp nxt h =
     (case nxt of
        None \<Rightarrow> Some None
      | Some a \<Rightarrow> (if cmp a = 1 then Some (Some a)
                  else (case elms h a of None \<Rightarrow> None | Some e \<Rightarrow> search_loop_u cmp (e_next e) h)))"

definition list_search_u ::
  "'l option \<Rightarrow> 'b \<Rightarrow> ('b \<Rightarrow> 'a \<Rightarrow> int) \<Rightarrow> ('l, 'a, 'z) lheap_scheme \<Rightarrow> 'a option option" where
  "list_search_u list arg comp_func h =
     (case list of
        None \<Rightarrow> None
      | Some l \<Rightarrow> do { d \<leftarrow> hdrs h l; search_loop_u (comp_func arg) (l_head d) h })"

text \<open>\<open>while (cnt) next = next->next, cnt--\<close>: the counter is only compared with zero, and the
  pointer is not compared at all.\<close>

partial_function (option) get_idx_loop_u ::
  "int \<Rightarrow> 'a option \<Rightarrow> ('l, 'a, 'z) lheap_scheme \<Rightarrow> 'a option option" where
  "get_idx_loop_u cnt nxt h =
     (if cnt = 0 then Some nxt
      else (case nxt of
              None \<Rightarrow> None
            | Some a \<Rightarrow>
                (case elms h a of None \<Rightarrow> None | Some e \<Rightarrow> get_idx_loop_u (int32 (cnt - 1)) (e_next e) h)))"

definition list_get_idx_u ::
  "'l option \<Rightarrow> int \<Rightarrow> ('l, 'a, 'z) lheap_scheme \<Rightarrow> 'a option option" where
  "list_get_idx_u list idx h =
     (case list of
        None \<Rightarrow> None
      | Some l \<Rightarrow> do {
          d \<leftarrow> hdrs h l;
          (if idx < l_count d then get_idx_loop_u idx (l_head d) h else Some None) })"

text \<open>\<open>list_insert_sort\<close> hands the address of the function \<open>list_get_last_elm\<close>, which it does not
  call, to the comparison. A comparison that faults on its argument is \<open>None\<close>.\<close>

datatype 'a void_ptr = Elm 'a | Fun_list_get_last_elm

partial_function (option) insert_sort_loop_u ::
  "'l option \<Rightarrow> ('a void_ptr \<Rightarrow> 'a option \<Rightarrow> int option) \<Rightarrow> 'a option \<Rightarrow> 'a option
     \<Rightarrow> ('l, 'a, 'z) lheap_scheme \<Rightarrow> ('l, 'a, 'z) lheap_scheme option" where
  "insert_sort_loop_u list cmp new prev h =
     (case list_iter_u list prev h of
        None \<Rightarrow> None
      | Some None \<Rightarrow> list_append_u list new h
      | Some (Some nxt) \<Rightarrow>
          (case cmp (Elm nxt) new of
             None \<Rightarrow> None
           | Some c \<Rightarrow> (if c \<noteq> 0 then list_insert_u list prev new h
                       else insert_sort_loop_u list cmp new (Some nxt) h)))"

definition list_insert_sort_u ::
  "'l option \<Rightarrow> 'a option \<Rightarrow> ('a void_ptr \<Rightarrow> 'a option \<Rightarrow> int option) \<Rightarrow> ('l, 'a, 'z) lheap_scheme
     \<Rightarrow> ('l, 'a, 'z) lheap_scheme option" where
  "list_insert_sort_u list new comp_func h = do {
     c \<leftarrow> comp_func Fun_list_get_last_elm new;
     (if c = 0 then list_append_u list new h else insert_sort_loop_u list comp_func new None h) }"

text \<open>The elements are walked before the header is emptied; the count is left to \<open>list_cleanup\<close>.\<close>

definition list_iter_do_u ::
  "'l option \<Rightarrow> ('a \<Rightarrow> ('l, 'a, 'z) lheap_scheme \<Rightarrow> ('l, 'a, 'z) lheap_scheme option)
     \<Rightarrow> ('l, 'a, 'z) lheap_scheme \<Rightarrow> ('l, 'a, 'z) lheap_scheme option" where
  "list_iter_do_u list action h =
     (case list of
        None \<Rightarrow> None
      | Some l \<Rightarrow> do {
          d \<leftarrow> hdrs h l;
          h \<leftarrow> iter_do_loop action (l_head d) h;
          upd_hdr l (\<lambda>d. d\<lparr>l_head := None, l_tail := None\<rparr>) h })"

definition list_cleanup_u ::
  "'l option \<Rightarrow> ('a \<Rightarrow> ('l, 'a, 'z) lheap_scheme \<Rightarrow> ('l, 'a, 'z) lheap_scheme option) option
     \<Rightarrow> ('l, 'a, 'z) lheap_scheme \<Rightarrow> ('l, 'a, 'z) lheap_scheme option" where
  "list_cleanup_u list free_elm h =
     (let free_func = (case free_elm of None \<Rightarrow> kfree_elm | Some f \<Rightarrow> f) in
      case list of
        None \<Rightarrow> None
      | Some l \<Rightarrow> do {
          h \<leftarrow> upd_hdr l (\<lambda>d. d\<lparr>l_count := 0\<rparr>) h;
          list_iter_do_u list free_func h })"

definition list_purge_u ::
  "'l option \<Rightarrow> ('a \<Rightarrow> ('l, 'a, 'z) lheap_scheme \<Rightarrow> ('l, 'a, 'z) lheap_scheme option) option
     \<Rightarrow> ('l, 'a, 'z) lheap_scheme \<Rightarrow> ('l, 'a, 'z) lheap_scheme option" where
  "list_purge_u list free_elm h = do {
     h \<leftarrow> list_cleanup_u list free_elm h;
     l \<leftarrow> list;
     _ \<leftarrow> hdrs h l;
     Some (h\<lparr>hdrs := (hdrs h)(l := None)\<rparr>) }"

text \<open>What \<open>list_print\<close> shows: the count and the elements.\<close>

partial_function (option) print_loop_u ::
  "'l option \<Rightarrow> 'a option \<Rightarrow> ('l, 'a, 'z) lheap_scheme \<Rightarrow> 'a list option" where
  "print_loop_u list node h =
     (case list_iter_u list node h of
        None \<Rightarrow> None
      | Some None \<Rightarrow> Some []
      | Some (Some a) \<Rightarrow> do { r \<leftarrow> print_loop_u list (Some a) h; Some (a # r) })"

definition list_print_u ::
  "'l option \<Rightarrow> ('l, 'a, 'z) lheap_scheme \<Rightarrow> (int \<times> 'a list) option" where
  "list_print_u list h = do {
     n \<leftarrow> list_get_cnt_u list h;
     r \<leftarrow> print_loop_u list None h;
     Some (n, r) }"

section \<open>The same list as the driver's\<close>

lemma list_insert_u_eq: "list_insert_u = list_insert"
  unfolding list_insert_u_def list_insert_def by (intro ext) simp

lemma list_append_u_eq:
  assumes "\<And>d. hdrs h l = Some d \<Longrightarrow> l_tail d \<noteq> Some a"
  shows "list_append_u (Some l) (Some a) h = list_append (Some l) (Some a) h"
proof (cases "elms h a")
  case None
  then show ?thesis by (simp add: list_append_u_def list_append_def upd_elm_def)
next
  case (Some e)
  show ?thesis
  proof (cases "hdrs h l")
    case None
    then show ?thesis using Some by (simp add: list_append_u_def list_append_def upd_elm_def)
  next
    case D: (Some d)
    from assms [OF D] have "l_tail d = Some t \<Longrightarrow> t \<noteq> a" for t by auto
    then show ?thesis using Some D
      by (cases e; cases "l_tail d"; cases "elms h (the (l_tail d))")
        (auto simp: list_append_u_def list_append_def upd_elm_def upd_hdr_def fun_upd_twist)
  qed
qed

lemma list_append_u_rep:
  assumes R: "heap_rep h L" and xs: "L l = Some xs" and a: "loose (elms h) a"
  shows "list_append_u (Some l) (Some a) h = list_append (Some l) (Some a) h"
proof (rule list_append_u_eq)
  have "a \<notin> set xs" by (rule loose_notin [OF R a xs])
  then show "l_tail d \<noteq> Some a" if "hdrs h l = Some d" for d
    using rep_hdr [OF R xs] that by (auto simp: last_or_def)
qed

text \<open>A loose element may hold any links.\<close>

lemma rep_loose_upd:
  assumes R: "rep E D L" and a: "loose E a" and e: "e_parent e = None"
  shows "rep (E(a \<mapsto> e)) D L"
proof -
  have n: "a \<notin> set xs" if "L l = Some xs" for l xs by (rule loose_notin [OF R a that])
  have "dlist (E(a \<mapsto> e)) D l xs" if "L l = Some xs" for l xs
    using rep_dlist [OF R that] n [OF that] by (simp add: dlist_def)
  moreover have "D l = None" if "L l = None" for l using rep_None_iff [OF R] that by blast
  moreover have "\<exists>xs. L l = Some xs \<and> b \<in> set xs"
    if "(E(a \<mapsto> e)) b = Some f" "e_parent f = Some l" for b f l
    using that R e unfolding rep_def by (cases "b = a") auto
  ultimately show ?thesis by (auto simp: rep_def split: option.splits)
qed

lemma list_elm_all_upd:
  "e\<lparr>e_parent := p, e_prev := q, e_next := r\<rparr> = \<lparr>e_parent = p, e_prev = q, e_next = r\<rparr>"
  "e\<lparr>e_prev := q, e_next := r, e_parent := p\<rparr> = \<lparr>e_parent = p, e_prev = q, e_next = r\<rparr>"
  by (cases e; simp)+

text \<open>The driver's fetch is this fetch followed by clearing the links.\<close>

lemma list_fetch_via_u:
  "list_fetch list h = do {
     (r, h) \<leftarrow> list_fetch_u list h;
     (case r of
        None \<Rightarrow> Some (None, h)
      | Some a \<Rightarrow> map_option (Pair (Some a)) (upd_elm a (\<lambda>e. e\<lparr>e_prev := None, e_next := None\<rparr>) h)) }"
proof (cases list)
  case None
  then show ?thesis by (simp add: list_fetch_u_def)
next
  case (Some l)
  show ?thesis
  proof (cases "hdrs h l")
    case (Some d)
    note d = \<open>list = Some l\<close> Some
    show ?thesis
    proof (cases "l_head d")
      case (Some r)
      note d = d Some
      show ?thesis
      proof (cases "elms h r")
        case (Some e)
        note d = d Some list_fetch_u_def list_fetch_def upd_elm_def upd_hdr_def list_elm_all_upd
        show ?thesis
          by (cases "e_next e"; cases "elms h (the (e_next e))") (auto simp: d)
      qed (simp add: d list_fetch_u_def list_fetch_def)
    qed (simp add: d list_fetch_u_def list_fetch_def)
  qed (simp add: Some list_fetch_u_def list_fetch_def)
qed

lemma list_fetch_u_empty:
  assumes "heap_rep h L" "L l = Some []"
  shows "list_fetch_u (Some l) h = Some (None, h)"
  using rep_hdr [OF assms] by (simp add: list_fetch_u_def)

lemma list_fetch_u_parent:
  "list_fetch_u list h = Some (Some x, t) \<Longrightarrow> \<exists>e. elms t x = Some e \<and> e_parent e = None"
  by (auto simp: list_fetch_u_def upd_elm_def elim!: bind_SomeE split: option.splits)

lemma list_fetch_u_rep:
  assumes R: "heap_rep h L" and xs: "L l = Some (x # xs)"
  obtains E D e where "list_fetch_u (Some l) h = Some (Some x, h\<lparr>elms := E, hdrs := D\<rparr>)"
    and "rep E D (L(l \<mapsto> xs))" and "dom E = dom (elms h)" and "E x = Some e" "e_parent e = None"
proof -
  from R xs obtain E D where f: "list_fetch (Some l) h = Some (Some x, h\<lparr>elms := E, hdrs := D\<rparr>)"
    and r: "rep E D (L(l \<mapsto> xs))" and d: "dom E = dom (elms h)" and z: "E x = Some zero_elm"
    by (rule list_fetch_rep)
  from f obtain t where t: "list_fetch_u (Some l) h = Some (Some x, t)"
    and u: "upd_elm x (\<lambda>e. e\<lparr>e_prev := None, e_next := None\<rparr>) t = Some (h\<lparr>elms := E, hdrs := D\<rparr>)"
    unfolding list_fetch_via_u by (auto elim!: bind_SomeE split: option.splits prod.splits)
  from list_fetch_u_parent [OF t] obtain e where e: "elms t x = Some e" "e_parent e = None" by blast
  from u e have up: "t\<lparr>elms := (elms t)(x \<mapsto> e\<lparr>e_prev := None, e_next := None\<rparr>)\<rparr> = h\<lparr>elms := E, hdrs := D\<rparr>"
    by (simp add: upd_elm_def)
  have te: "t = h\<lparr>elms := E(x \<mapsto> e), hdrs := D\<rparr>"
    using up e(1) by (cases t; cases h) (auto simp: fun_upd_idem)
  have "loose E x" using z by (simp add: loose_def zero_elm_def)
  then have "rep (E(x \<mapsto> e)) D (L(l \<mapsto> xs))" by (rule rep_loose_upd [OF r _ e(2)])
  moreover have "dom (E(x \<mapsto> e)) = dom (elms h)" using d z by auto
  ultimately show thesis using t e unfolding te by (intro that [of D "E(x \<mapsto> e)" e]) simp_all
qed

interpretation luq: fifo_lists
  "heap_rep :: ('l, 'a, 'z) lheap_scheme \<Rightarrow> _" "\<lambda>h. loose (elms h)" heap_only list_append_u list_fetch_u
  list_get_cnt_u
proof unfold_locales
  fix h :: "('l, 'a, 'z) lheap_scheme" and L l xs a
  assume R: "heap_rep h L" and l: "L l = Some xs" and a: "loose (elms h) a"
  from lq.append_law [OF R l a]
  show "\<exists>t. list_append_u (Some l) (Some a) h = Some t \<and> heap_rep t (L(l \<mapsto> xs @ [a])) \<and>
      heap_only h t \<and> (\<forall>b. loose (elms t) b \<longleftrightarrow> loose (elms h) b \<and> b \<noteq> a)"
    unfolding list_append_u_rep [OF R l a] .
next
  fix h :: "('l, 'a, 'z) lheap_scheme" and L l x xs
  assume R: "heap_rep h L" and l: "L l = Some (x # xs)"
  from R l obtain E D e where op: "list_fetch_u (Some l) h = Some (Some x, h\<lparr>elms := E, hdrs := D\<rparr>)"
    and R': "rep E D (L(l \<mapsto> xs))" and dom: "dom E = dom (elms h)" and x: "E x = Some e" "e_parent e = None"
    by (rule list_fetch_u_rep)
  have "loose E b \<longleftrightarrow> loose (elms h) b \<or> b = x" for b
  proof (cases "b = x")
    case True
    with x show ?thesis by (simp add: loose_def)
  next
    case False
    have "(\<forall>k ys. (L(l \<mapsto> xs)) k = Some ys \<longrightarrow> b \<notin> set ys) \<longleftrightarrow> (\<forall>k ys. L k = Some ys \<longrightarrow> b \<notin> set ys)"
      using l False by (metis fun_upd_apply list.set_intros(2) option.inject set_ConsD)
    with False show ?thesis unfolding loose_iff [OF R] loose_iff [OF R'] dom by blast
  qed
  with op R' show "\<exists>t. list_fetch_u (Some l) h = Some (Some x, t) \<and> heap_rep t (L(l \<mapsto> xs)) \<and>
      heap_only h t \<and> (\<forall>b. loose (elms t) b \<longleftrightarrow> loose (elms h) b \<or> b = x)"
    by (auto simp: heap_only_def)
next
  fix h :: "('l, 'a, 'z) lheap_scheme" and L l and xs :: "'a list"
  assume "heap_rep h L" "L l = Some xs"
  then show "list_get_cnt_u (Some l) h = Some (int32 (int (length xs)))"
    using rep_hdr [of "elms h" "hdrs h" L l xs] by (simp add: list_get_cnt_u_def)
qed (auto intro: lq.same_trans lq.free_notin list_fetch_u_empty dest: loose_notin)

text \<open>On a list that is one, the accessors agree with the driver's.\<close>

lemma list_access_u_eq:
  "list_get_first_elm_u (Some l) h = list_get_first_elm (Some l) h"
  "list_get_last_elm_u (Some l) h = list_get_last_elm (Some l) h"
  "list_get_cnt_u (Some l) h = list_get_cnt (Some l) h"
  "list_iter_u (Some l) p h = list_iter (Some l) p h"
  by (simp_all add: list_get_first_elm_u_def list_get_first_elm_def list_get_last_elm_u_def
      list_get_last_elm_def list_get_cnt_u_def list_get_cnt_def list_iter_u_def list_iter_def
      split: option.splits)

lemma search_loop_u_seg:
  "seg (elms h) l p xs None \<Longrightarrow> search_loop_u cmp (first_or xs None) h = Some (find (\<lambda>x. cmp x = 1) xs)"
  by (induction xs arbitrary: p) (auto simp: search_loop_u.simps)

lemma list_search_u_rep:
  assumes "heap_rep h L" "L l = Some xs"
  shows "list_search_u (Some l) arg cmp h = Some (find (\<lambda>x. cmp arg x = 1) xs)"
  using rep_hdr [OF assms] search_loop_u_seg [OF rep_seg [OF assms]]
  by (simp add: list_search_u_def)

text \<open>A walk forward reaches the element at the index, a walk with a negative counter the end
  of the list: the counter is not zero again for \<open>2 ^ 31\<close> steps.\<close>

lemma get_idx_loop_u_seg:
  "seg (elms h) l p xs None \<Longrightarrow> n < length xs \<Longrightarrow> length xs < 2 ^ 31 \<Longrightarrow>
     get_idx_loop_u (int n) (first_or xs None) h = Some (Some (xs ! n))"
proof (induction n arbitrary: p xs)
  case 0
  then show ?case by (cases xs) (simp_all add: get_idx_loop_u.simps)
next
  case (Suc n)
  then obtain x ys where xs: "xs = x # ys" by (cases xs) auto
  with Suc.prems have "get_idx_loop_u (int n) (first_or ys None) h = Some (Some (ys ! n))"
    by (intro Suc.IH [of "Some x"]) auto
  moreover have "int32 (int n) = int n" using Suc.prems by (intro int32_id) auto
  ultimately show ?case using Suc.prems(1) xs by (subst get_idx_loop_u.simps) simp
qed

lemma int32_far:
  assumes "- (2 ^ 31) \<le> i" "i < 0" "k < 2 ^ 31"
  shows "int32 (i - int k) \<noteq> 0"
proof (cases "- (2 ^ 31) \<le> i - int k")
  case True
  with assms show ?thesis using int32_id [of "i - int k"] by simp
next
  case False
  have "int32 (i - int k) = int32 (i - int k + 2 ^ 32)"
    unfolding int32_def by (simp add: signed_take_bit_eq_iff_take_bit_eq take_bit_eq_mod)
  also have "\<dots> = i - int k + 2 ^ 32" using assms False by (intro int32_id) auto
  finally show ?thesis using assms by simp
qed

lemma get_idx_loop_u_negative:
  "seg (elms h) l p xs None \<Longrightarrow> (\<And>k. k \<le> length xs \<Longrightarrow> int32 (i - int k) \<noteq> 0) \<Longrightarrow> i = int32 i \<Longrightarrow>
     get_idx_loop_u i (first_or xs None) h = None"
proof (induction xs arbitrary: i p)
  case Nil
  from Nil.prems(2) [of 0] Nil.prems(3) show ?case by (simp add: get_idx_loop_u.simps)
next
  case (Cons x xs)
  have "get_idx_loop_u (int32 (i - 1)) (first_or xs None) h = None"
  proof (rule Cons.IH)
    show "seg (elms h) l (Some x) xs None" using Cons.prems(1) by simp
    show "int32 (int32 (i - 1) - int k) \<noteq> 0" if "k \<le> length xs" for k
      using Cons.prems(2) [of "Suc k"] that by (simp add: algebra_simps)
    show "int32 (i - 1) = int32 (int32 (i - 1))" using int32_plus_left [of "i - 1" 0] by simp
  qed
  with Cons.prems(1,3) Cons.prems(2) [of 0] show ?case by (subst get_idx_loop_u.simps) simp
qed

lemma list_get_idx_u_rep:
  assumes R: "heap_rep h L" and l: "L l = Some xs" and len: "length xs < 2 ^ 31"
    and idx: "- (2 ^ 31) \<le> idx"
  shows "list_get_idx_u (Some l) idx h =
    (if idx < 0 then None else Some (if nat idx < length xs then Some (xs ! nat idx) else None))"
proof -
  have S: "seg (elms h) l None xs None" by (rule rep_seg [OF R l])
  have "get_idx_loop_u idx (first_or xs None) h = None" if "idx < 0"
    using that idx len by (intro get_idx_loop_u_negative [OF S] int32_far) (auto simp: int32_id)
  moreover have "get_idx_loop_u idx (first_or xs None) h = Some (Some (xs ! nat idx))"
    if "0 \<le> idx" "nat idx < length xs"
    using get_idx_loop_u_seg [OF S that(2) len] that(1) by simp
  moreover have "int32 (int (length xs)) = int (length xs)" using len by (intro int32_id) auto
  ultimately show ?thesis using rep_hdr [OF R l] by (auto simp: list_get_idx_u_def)
qed

lemma insert_sort_loop_u_eq:
  assumes R: "heap_rep h L" and a: "loose (elms h) a"
  shows "L l = Some (us @ vs) \<Longrightarrow> \<forall>x \<in> set vs. cmp (Elm x) (Some a) = Some (c x) \<Longrightarrow>
    insert_sort_loop_u (Some l) cmp (Some a) (last_or None us) h
      = insert_sort_loop (Some l) (\<lambda>x _. c x \<noteq> 0) a (last_or None us) h"
proof (induction vs arbitrary: us)
  case Nil
  have "list_iter (Some l) (last_or None us) h = Some None"
    using list_iter_rep [OF R Nil.prems(1)] by simp
  then show ?case
    using list_append_u_rep [OF R _ a, of l us] Nil.prems(1)
    by (simp add: insert_sort_loop_u.simps insert_sort_loop.simps list_access_u_eq)
next
  case (Cons v vs)
  have it: "list_iter (Some l) (last_or None us) h = Some (Some v)"
    using list_iter_rep [OF R Cons.prems(1)] by simp
  have "cmp (Elm v) (Some a) = Some (c v)" using Cons.prems(2) by simp
  moreover have "insert_sort_loop_u (Some l) cmp (Some a) (Some v) h
      = insert_sort_loop (Some l) (\<lambda>x _. c x \<noteq> 0) a (Some v) h"
    using Cons.IH [of "us @ [v]"] Cons.prems by simp
  ultimately show ?case
    using it by (subst insert_sort_loop_u.simps, subst insert_sort_loop.simps)
      (simp add: list_access_u_eq list_insert_u_eq)
qed

text \<open>Deleting: what the driver's function does, except for the parent.\<close>

lemma list_del_elm_u_rep:
  assumes R: "heap_rep h L" and xs: "L l = Some (us @ a # vs)"
  obtains E D where
    "list_del_elm_u (Some a) fr h = Some (h\<lparr>elms := E(a := if fr then None else Some (zero_elm\<lparr>e_parent := Some l\<rparr>)),
      hdrs := D\<rparr>)"
    and "rep E D (L(l \<mapsto> us @ vs))" and "E a = (if fr then None else Some zero_elm)"
    and "dom E = (if fr then dom (elms h) - {a} else dom (elms h))"
proof -
  from R xs obtain E D where op: "list_del_elm (Some a) fr h = Some (h\<lparr>elms := E, hdrs := D\<rparr>)"
    and r: "rep E D (L(l \<mapsto> us @ vs))" and e: "E a = (if fr then None else Some zero_elm)"
    and d: "dom E = (if fr then dom (elms h) - {a} else dom (elms h))"
    by (rule list_del_elm_rep)
  have S: "seg (elms h) l None (us @ a # vs) None" and dist: "distinct (us @ a # vs)"
    using rep_seg [OF R xs] rep_distinct [OF R xs] by auto
  note D = rep_hdr [OF R xs]
  have "list_del_elm_u (Some a) fr h = map_option
      (\<lambda>t. t\<lparr>elms := (elms t)(a := if fr then None else Some (zero_elm\<lparr>e_parent := Some l\<rparr>))\<rparr>)
      (list_del_elm (Some a) fr h)"
    using S D dist
    by (cases us rule: rev_cases; cases vs)
      (auto simp: list_del_elm_u_def list_del_elm_def upd_elm_def upd_hdr_def kfree_elm_def zero_elm_def)
  with op have "list_del_elm_u (Some a) fr h
      = Some (h\<lparr>elms := E(a := if fr then None else Some (zero_elm\<lparr>e_parent := Some l\<rparr>)), hdrs := D\<rparr>)"
    by simp
  from this r e d show thesis by (rule that)
qed

text \<open>Cleaning up frees every element through the walk of \<open>list_iter_do\<close>.\<close>

lemma list_cleanup_u_rep:
  assumes R: "heap_rep h L" and l: "L l = Some xs"
  shows "list_cleanup_u (Some l) None h
      = Some (h\<lparr>elms := \<lambda>b. if b \<in> set xs then None else elms h b, hdrs := (hdrs h)(l \<mapsto> zero_hdr)\<rparr>)"
    and "rep (\<lambda>b. if b \<in> set xs then None else elms h b) ((hdrs h)(l \<mapsto> zero_hdr)) (L(l \<mapsto> []))"
proof -
  note D = rep_hdr [OF R l] and S = rep_seg [OF R l] and dist = rep_distinct [OF R l]
  let ?h = "h\<lparr>hdrs := (hdrs h)(l \<mapsto> \<lparr>l_count = 0, l_head = first_or xs None, l_tail = last_or None xs\<rparr>)\<rparr>"
  have "iter_do_loop kfree_elm (first_or xs None) ?h
      = Some (?h\<lparr>elms := \<lambda>b. if b \<in> set xs then None else elms ?h b\<rparr>)"
    by (rule iter_do_kfree_seg [where l = l and p = None]) (use S dist in simp_all)
  then show "list_cleanup_u (Some l) None h
      = Some (h\<lparr>elms := \<lambda>b. if b \<in> set xs then None else elms h b, hdrs := (hdrs h)(l \<mapsto> zero_hdr)\<rparr>)"
    using D by (simp add: list_cleanup_u_def list_iter_do_u_def upd_hdr_def zero_hdr_def cong: if_cong)
  show "rep (\<lambda>b. if b \<in> set xs then None else elms h b) ((hdrs h)(l \<mapsto> zero_hdr)) (L(l \<mapsto> []))"
    by (rule rep_update [OF R l]) (auto simp: dlist_def zero_hdr_def int32_def)
qed

lemma print_loop_u_seg:
  "seg (elms h) l p (x # xs) None \<Longrightarrow> print_loop_u list (Some x) h = Some xs"
proof (induction xs arbitrary: p x)
  case Nil
  then show ?case by (simp add: print_loop_u.simps list_iter_u_def)
next
  case (Cons y xs)
  then have "print_loop_u list (Some y) h = Some xs" by (intro Cons.IH [of "Some x"]) simp
  with Cons.prems show ?case by (subst print_loop_u.simps) (simp add: list_iter_u_def)
qed

lemma print_seg:
  assumes "seg (elms h) l None xs None" "hdrs h l = Some d" "l_head d = first_or xs None"
  shows "print_loop_u (Some l) None h = Some xs"
  using assms print_loop_u_seg [of h l None] by (cases xs) (simp_all add: print_loop_u.simps list_iter_u_def)

lemma list_print_u_rep:
  assumes "heap_rep h L" "L l = Some xs"
  shows "list_print_u (Some l) h = Some (int32 (int (length xs)), xs)"
  using print_seg [OF rep_seg [OF assms] rep_hdr [OF assms]] luq.cnt_law [OF assms]
  by (simp add: list_print_u_def)

section \<open>Properties\<close>

text \<open>C40: on a well-formed heap the user-space list is the driver's list: append, insert, the accessors,
  search (with "returns TRUE" as the condition), lookup by index, deletion with \<open>free\<close> and any
  session of appends and fetches give the same results as the functions of \<open>src/list.c\<close>;
  cleanup frees exactly the elements and empties the list; the print shows count and elements.
  The one difference among these is an index below zero, where the driver's \<open>list_get_idx\<close>
  returns NULL and this one runs off the end of the list.\<close>

theorem user_list_agrees:
  assumes R: "heap_rep h L" and l: "L l = Some xs" and len: "length xs < 2 ^ 31" and a: "loose (elms h) a"
    and idx: "- (2 ^ 31) \<le> idx"
    and ops: "fifo_ok ops xs" "\<forall>b \<in> fifo_puts ops. loose (elms h) b \<or> b \<in> set xs"
  shows "list_append_u (Some l) (Some a) h = list_append (Some l) (Some a) h \<and>
    list_insert_u (Some l) p (Some a) h = list_insert (Some l) p (Some a) h \<and>
    list_iter_u (Some l) p h = list_iter (Some l) p h \<and>
    list_get_cnt_u (Some l) h = list_get_cnt (Some l) h \<and>
    list_search_u (Some l) arg cmp h = list_search (Some l) arg (Some (\<lambda>y x. cmp y x = 1)) h \<and>
    list_get_idx_u (Some l) idx h = (if idx < 0 then None else list_get_idx (Some l) idx h) \<and>
    (\<forall>x \<in> set xs. list_del_elm_u (Some x) True h = list_del_elm (Some x) True h) \<and>
    map_option fst (fifo_exec (\<lambda>a. list_append_u (Some l) (Some a)) (list_fetch_u (Some l)) ops h)
      = map_option fst (fifo_exec (\<lambda>a. list_append (Some l) (Some a)) (list_fetch (Some l)) ops h) \<and>
    (\<exists>t. list_cleanup_u (Some l) None h = Some t \<and> dom (elms t) = dom (elms h) - set xs \<and>
       list_print_u (Some l) t = Some (0, [])) \<and>
    list_print_u (Some l) h = Some (int (length xs), xs)"
proof -
  have "list_del_elm_u (Some x) True h = list_del_elm (Some x) True h" if "x \<in> set xs" for x
  proof -
    from that obtain us vs where xs: "L l = Some (us @ x # vs)" using l by (metis in_set_conv_decomp)
    show ?thesis
      using rep_seg [OF R xs] rep_hdr [OF R xs] rep_distinct [OF R xs]
      by (cases us rule: rev_cases; cases vs)
        (auto simp: list_del_elm_u_def list_del_elm_def upd_elm_def upd_hdr_def kfree_elm_def)
  qed
  moreover have "map_option fst (fifo_exec (\<lambda>a. list_append_u (Some l) (Some a)) (list_fetch_u (Some l)) ops h)
      = map_option fst (fifo_exec (\<lambda>a. list_append (Some l) (Some a)) (list_fetch (Some l)) ops h)"
    using luq.session [OF R l ops] lq.session [OF R l ops] by auto
  moreover have "list_get_idx_u (Some l) idx h = (if idx < 0 then None else list_get_idx (Some l) idx h)"
    using list_get_idx_u_rep [OF R l len idx] list_get_idx_rep [OF R l len] by simp
  moreover have "list_search_u (Some l) arg cmp h = list_search (Some l) arg (Some (\<lambda>y x. cmp y x = 1)) h"
    by (simp add: list_search_u_rep [OF R l] list_search_rep [OF R l])
  moreover have "\<exists>t. list_cleanup_u (Some l) None h = Some t \<and> dom (elms t) = dom (elms h) - set xs \<and>
       list_print_u (Some l) t = Some (0, [])"
  proof -
    let ?t = "h\<lparr>elms := \<lambda>b. if b \<in> set xs then None else elms h b, hdrs := (hdrs h)(l \<mapsto> zero_hdr)\<rparr>"
    have "heap_rep ?t (L(l \<mapsto> []))" using list_cleanup_u_rep(2) [OF R l] by simp
    from list_print_u_rep [OF this, of l "[]"] list_cleanup_u_rep(1) [OF R l] show ?thesis
      by (intro exI [of _ ?t]) (auto simp: int32_def split: if_splits)
  qed
  moreover have "list_print_u (Some l) h = Some (int (length xs), xs)"
    using list_print_u_rep [OF R l] len by (simp add: int32_id)
  ultimately show ?thesis
    using list_append_u_rep [OF R l a] by (simp add: list_access_u_eq list_insert_u_eq)
qed

theorem user_list_agrees_witness:
  "list_append_u (Some 0) (Some 2) heap1 = list_append (Some 0) (Some 2) heap1 \<and>
   list_get_idx_u (Some 0) (- 1) heap1 = None \<and> list_print_u (Some 0) heap1 = Some (2, [1, 3]) \<and>
   list_search_u (Some 0) 3 (\<lambda>y x. if y = x then 1 else 0) heap1 = list_search (Some 0) 3 (Some (=)) heap1"
proof -
  have "fifo_ok [Get] [1, 3::nat]" "\<forall>b \<in> fifo_puts [Get::nat fifo_op]. loose (elms heap1) b \<or> b \<in> set [1, 3]"
    by simp_all
  moreover have "(\<lambda>y x. (if y = x then 1 else 0 :: int) = 1) = ((=) :: nat \<Rightarrow> nat \<Rightarrow> bool)" by (intro ext) simp
  moreover have "[0 \<mapsto> [1, 3]] 0 = Some [1, 3::nat]" "length [1, 3::nat] < 2 ^ 31" "- (2 ^ 31) \<le> (- 1 :: int)" by simp_all
  ultimately show ?thesis
    using user_list_agrees [OF heap1_rep(1) _ _ heap1_rep(2), of 0 "[1, 3]" "- 1" "[Get]" None 3
        "\<lambda>y x. if y = x then 1 else 0"] by simp
qed

text \<open>A defect: \<open>list_insert_sort\<close> tests the address of \<open>list_get_last_elm\<close> instead of calling it,
  and hands that address to the comparison. What it does depends on what the comparison makes of
  code bytes: if it returns FALSE the element is appended, whatever the order; otherwise the list
  is scanned and a sorted list stays sorted.\<close>

theorem user_insert_sort_by_code_bytes:
  fixes key :: "'a \<Rightarrow> 'k::linorder"
  assumes R: "heap_rep h L" and l: "L l = Some xs" and a: "loose (elms h) a" and srt: "sorted (map key xs)"
    and cmp: "\<forall>x \<in> set xs. cmp (Elm x) (Some a) = Some (if key a < key x then 1 else 0)"
    and code: "cmp Fun_list_get_last_elm (Some a) = Some c"
  shows "\<exists>t. list_insert_sort_u (Some l) (Some a) cmp h = Some t \<and>
    list_foreach (Some l) None t =
      Some (if c = 0 then xs @ [a]
            else filter (\<lambda>x. key x \<le> key a) xs @ a # filter (\<lambda>x. key a < key x) xs)"
proof (cases "c = 0")
  case True
  from R l a obtain E D where op: "list_append (Some l) (Some a) h = Some (h\<lparr>elms := E, hdrs := D\<rparr>)"
    and r: "rep E D (L(l \<mapsto> xs @ [a]))" by (rule list_append_rep)
  have "list_foreach (Some l) None (h\<lparr>elms := E, hdrs := D\<rparr>) = Some (xs @ [a])"
    by (rule rep_foreach [where L = "L(l \<mapsto> xs @ [a])"]) (use r in simp_all)
  with True op code list_append_u_rep [OF R l a] show ?thesis by (simp add: list_insert_sort_u_def)
next
  case False
  let ?c = "\<lambda>x. if key a < key x then 1 else 0 :: int"
  have tw: "takeWhile (\<lambda>x. key x \<le> key a) xs = filter (\<lambda>x. key x \<le> key a) xs \<and>
    dropWhile (\<lambda>x. key x \<le> key a) xs = filter (\<lambda>x. key a < key x) xs" by (rule sorted_key_split [OF srt])
  have "insert_sort_loop_u (Some l) cmp (Some a) None h = insert_sort_loop (Some l) (\<lambda>x _. ?c x \<noteq> 0) a None h"
    using insert_sort_loop_u_eq [OF R a, of l "[]" xs cmp ?c] l cmp by simp
  also have "(\<lambda>x (_ :: 'a). ?c x \<noteq> 0) = (\<lambda>x _. key a < key x)" by (intro ext) simp
  finally have eq: "insert_sort_loop_u (Some l) cmp (Some a) None h = insert_sort_loop (Some l) (\<lambda>x _. key a < key x) a None h" .
  from insert_sort_loop_rep [OF R a, of l "[]" xs "\<lambda>x _. key a < key x"] l obtain E D where
    op: "insert_sort_loop (Some l) (\<lambda>x _. key a < key x) a None h = Some (h\<lparr>elms := E, hdrs := D\<rparr>)"
    and r: "rep E D (L(l \<mapsto> takeWhile (\<lambda>x. key x \<le> key a) xs @ a # dropWhile (\<lambda>x. key x \<le> key a) xs))"
    by (auto simp: not_less)
  have "list_foreach (Some l) None (h\<lparr>elms := E, hdrs := D\<rparr>)
      = Some (filter (\<lambda>x. key x \<le> key a) xs @ a # filter (\<lambda>x. key a < key x) xs)"
    by (rule rep_foreach [where l = l and
        L = "L(l \<mapsto> filter (\<lambda>x. key x \<le> key a) xs @ a # filter (\<lambda>x. key a < key x) xs)"])
      (use r tw in simp_all)
  with False eq op code show ?thesis by (simp add: list_insert_sort_u_def)
qed

theorem user_insert_sort_by_code_bytes_witness:
  "\<exists>t. list_insert_sort_u (Some 0) (Some 2)
      (\<lambda>x n. case x of Elm y \<Rightarrow> Some (if the n < y then 1 else 0) | Fun_list_get_last_elm \<Rightarrow> Some 0) heap1 = Some t \<and>
    list_foreach (Some 0) None t = Some [1, 3, 2]"
  using user_insert_sort_by_code_bytes [OF heap1_rep(1) _ heap1_rep(2), of 0 "[1, 3]" "\<lambda>x. x"
      "\<lambda>x n. case x of Elm y \<Rightarrow> Some (if the n < y then 1 else 0) | Fun_list_get_last_elm \<Rightarrow> Some 0" 0] by simp

text \<open>A defect: \<open>list_del_elm\<close> without \<open>free\<close> unlinks the element but leaves its parent, so a second
  call on it goes to the list again, and with both links NULL it resets head and tail: every other
  element is lost to the list, whose count is one short and not zero. An element that was fetched
  (its parent is NULL) is freed although the caller asked to keep it.\<close>

theorem user_del_elm_twice:
  assumes R: "heap_rep h L" and l: "L l = Some (us @ a # vs)" and b: "loose (elms h) b"
    and len: "length (us @ vs) < 2 ^ 31"
  shows "\<exists>t u. list_del_elm_u (Some a) False h = Some t \<and> list_print_u (Some l) t = Some (int (length (us @ vs)), us @ vs) \<and>
    list_del_elm_u (Some a) False t = Some u \<and> list_print_u (Some l) u = Some (int (length (us @ vs)) - 1, []) \<and>
    (\<exists>v. list_del_elm_u (Some b) False h = Some v \<and> elms v b = None)"
proof -
  let ?p = "zero_elm\<lparr>e_parent := Some l\<rparr>"
  from R l obtain E D where op: "list_del_elm_u (Some a) False h = Some (h\<lparr>elms := E(a \<mapsto> ?p), hdrs := D\<rparr>)"
    and r: "rep E D (L(l \<mapsto> us @ vs))" by (rule list_del_elm_u_rep [where fr = False]) simp
  let ?t = "h\<lparr>elms := E(a \<mapsto> ?p), hdrs := D\<rparr>"
  have i: "int32 (int (length (us @ vs))) = int (length (us @ vs))" using len by (intro int32_id) auto
  have D: "D l = Some \<lparr>l_count = int (length (us @ vs)), l_head = first_or (us @ vs) None, l_tail = last_or None (us @ vs)\<rparr>"
    using rep_hdr [OF r, of l, OF fun_upd_same] unfolding i .
  have "a \<notin> set (us @ vs)" using rep_distinct [OF R l] by auto
  then have S: "seg (elms ?t) l None (us @ vs) None" using rep_seg [OF r, of l, OF fun_upd_same] by simp
  have p1: "list_print_u (Some l) ?t = Some (int (length (us @ vs)), us @ vs)"
    using print_seg [OF S] D by (simp add: list_print_u_def list_get_cnt_u_def)
  have "list_del_elm_u (Some a) False ?t
      = Some (?t\<lparr>hdrs := D(l \<mapsto> \<lparr>l_count = int32 (int (length (us @ vs)) - 1), l_head = None, l_tail = None\<rparr>)\<rparr>)"
    using D by (simp add: list_del_elm_u_def zero_elm_def upd_hdr_def upd_elm_def)
  moreover have "int32 (int (length (us @ vs)) - 1) = int (length (us @ vs)) - 1" using len by (intro int32_id) auto
  moreover have "\<exists>v. list_del_elm_u (Some b) False h = Some v \<and> elms v b = None"
    using b by (auto simp: list_del_elm_u_def loose_def kfree_elm_def)
  ultimately show ?thesis using op p1
    by (simp add: list_print_u_def list_get_cnt_u_def print_loop_u.simps list_iter_u_def)
qed

theorem user_del_elm_twice_witness:
  "\<exists>t u. list_del_elm_u (Some 1) False heap1 = Some t \<and> list_del_elm_u (Some 1) False t = Some u \<and>
     list_print_u (Some 0) u = Some (0, [])"
proof -
  have "[0 \<mapsto> [1, 3]] 0 = Some ([] @ 1 # [3::nat])" "length ([] @ [3::nat]) < 2 ^ 31" by simp_all
  from user_del_elm_twice [OF heap1_rep(1) this(1) heap1_rep(2) this(2)] show ?thesis by auto
qed

end
