(* ===== verification/User_Spi.thy ===== *)
theory User_Spi
  imports Prelude
begin

text \<open>
  The user-space SPI wrapper \<open>src/test_program/linux_spi.c\<close> over spidev. The operating system and
  the allocator \<open>buf_alloc\<close> (declared in a header that is not in the repository) are the fields
  of \<open>spidev\<close>, over a state \<open>'os\<close>; the tools allocated and the descriptors open are tracked
  beside it. Buffers are byte lists, NULL is \<open>None\<close>.
\<close>

section \<open>State\<close>

record spi_ioc_transfer =
  tx_buf :: "byte list option"
  rx_buf :: "byte list option"
  x_len :: "32 word"
  cs_change :: byte
  delay_usecs :: u16
  speed_hz :: "32 word"
  bits_per_word :: byte

record spi_tool =
  t_fd :: int
  t_mode :: byte
  t_bits :: byte
  t_hz :: "32 word"
  t_xfer0 :: spi_ioc_transfer
  t_xfer1 :: spi_ioc_transfer

record 'os spi_st =
  os :: 'os
  tools :: "u64 \<Rightarrow> spi_tool option"
  open_fds :: "int list"

text \<open>
  \<^item> \<open>spi_buf_alloc\<close>: the address of a zeroed block, or NULL; \<open>sys_open\<close>: a descriptor or -1.
  \<^item> \<open>rd_mode\<close>, \<open>rd_bits\<close>: return value and the byte stored; \<open>wr_mode\<close>, \<open>wr_bits\<close>, \<open>wr_hz\<close>: return
    value for the value passed.
  \<^item> \<open>ioc_message\<close>: return value, and the receive buffers of the transfers afterwards, in order.
  \<^item> \<open>sys_read\<close>: return value and bytes stored; \<open>sys_write\<close>: return value.
\<close>

record 'os spidev =
  spi_buf_alloc :: "'os \<Rightarrow> u64 option \<times> 'os"
  sys_open :: "'os \<Rightarrow> string \<Rightarrow> int \<times> 'os"
  sys_close :: "'os \<Rightarrow> int \<Rightarrow> 'os"
  rd_mode :: "'os \<Rightarrow> int \<Rightarrow> int \<times> byte \<times> 'os"
  wr_mode :: "'os \<Rightarrow> int \<Rightarrow> byte \<Rightarrow> int \<times> 'os"
  rd_bits :: "'os \<Rightarrow> int \<Rightarrow> int \<times> byte \<times> 'os"
  wr_bits :: "'os \<Rightarrow> int \<Rightarrow> byte \<Rightarrow> int \<times> 'os"
  wr_hz :: "'os \<Rightarrow> int \<Rightarrow> 32 word \<Rightarrow> int \<times> 'os"
  ioc_message :: "'os \<Rightarrow> int \<Rightarrow> spi_ioc_transfer list \<Rightarrow> int \<times> byte list option list \<times> 'os"
  os_read :: "'os \<Rightarrow> int \<Rightarrow> int \<Rightarrow> int \<times> byte list \<times> 'os"
  os_write :: "'os \<Rightarrow> int \<Rightarrow> byte list \<Rightarrow> int \<times> 'os"

definition zero_transfer :: spi_ioc_transfer where
  "zero_transfer = \<lparr>tx_buf = None, rx_buf = None, x_len = 0, cs_change = 0, delay_usecs = 0, speed_hz = 0,
     bits_per_word = 0\<rparr>"

section \<open>Operations\<close>

text \<open>\<open>spi_deinit\<close>: descriptor 0 is taken for no descriptor.\<close>

definition spi_deinit :: "'os spidev \<Rightarrow> u64 option \<Rightarrow> 'os spi_st \<Rightarrow> 'os spi_st option" where
  "spi_deinit V hdlr s =
     (case hdlr of
        None \<Rightarrow> Some s
      | Some a \<Rightarrow>
          (case tools s a of
             None \<Rightarrow> None
           | Some t \<Rightarrow>
               let s = (if t_fd t > 0
                        then s\<lparr>os := sys_close V (os s) (t_fd t), open_fds := remove1 (t_fd t) (open_fds s)\<rparr> else s)
               in Some (s\<lparr>tools := (tools s)(a := None)\<rparr>)))"

definition spi_fail :: "'os spidev \<Rightarrow> u64 \<Rightarrow> 'os spi_st \<Rightarrow> (u64 option \<times> 'os spi_st) option" where
  "spi_fail V a s = map_option (Pair None) (spi_deinit V (Some a) s)"

definition upd_tool :: "u64 \<Rightarrow> (spi_tool \<Rightarrow> spi_tool) \<Rightarrow> 'os spi_st \<Rightarrow> 'os spi_st option" where
  "upd_tool a f s = (case tools s a of None \<Rightarrow> None | Some t \<Rightarrow> Some (s\<lparr>tools := (tools s)(a \<mapsto> f t)\<rparr>))"

definition spi_ioctl ::
  "('os \<Rightarrow> int \<Rightarrow> int \<times> 'os) \<Rightarrow> u64 \<Rightarrow> 'os spi_st \<Rightarrow> (int \<times> 'os spi_st) option" where
  "spi_ioctl call a s =
     (case tools s a of
        None \<Rightarrow> None
      | Some t \<Rightarrow> (case call (os s) (t_fd t) of (ret, os') \<Rightarrow> Some (ret, s\<lparr>os := os'\<rparr>)))"

text \<open>The configuration of an open device, after \<open>open\<close>.\<close>

definition spi_config :: "'os spidev \<Rightarrow> int \<Rightarrow> u64 \<Rightarrow> 'os spi_st \<Rightarrow> (u64 option \<times> 'os spi_st) option" where
  "spi_config V spi_mode a s = do {
     t \<leftarrow> tools s a;
     let (ret, mode, os') = rd_mode V (os s) (t_fd t);
     let s = s\<lparr>os := os'\<rparr>;
     (if ret < 0 then spi_fail V a s
      else do {
        let m = (if spi_mode = - 1 then 0 else of_int spi_mode);
        s \<leftarrow> upd_tool a (\<lambda>t. t\<lparr>t_mode := m\<rparr>) s;
        (ret, s) \<leftarrow> spi_ioctl (\<lambda>d fd. wr_mode V d fd m) a s;
        (if ret < 0 then spi_fail V a s
         else do {
           let (ret, bits, os') = rd_bits V (os s) (t_fd t);
           s \<leftarrow> upd_tool a (\<lambda>t. t\<lparr>t_bits := bits\<rparr>) (s\<lparr>os := os'\<rparr>);
           (if ret < 0 then spi_fail V a s
            else do {
              (ret, s) \<leftarrow> (if bits \<noteq> 8 then do {
                             s \<leftarrow> upd_tool a (\<lambda>t. t\<lparr>t_bits := 8\<rparr>) s;
                             spi_ioctl (\<lambda>d fd. wr_bits V d fd 8) a s }
                           else Some (0, s));
              (if ret < 0 then spi_fail V a s
               else do {
                 (ret, s) \<leftarrow> spi_ioctl (\<lambda>d fd. wr_hz V d fd (t_hz t)) a s;
                 (if ret < 0 then spi_fail V a s else Some (Some a, s)) }) }) }) }) }"

definition spi_init ::
  "'os spidev \<Rightarrow> string \<Rightarrow> 32 word \<Rightarrow> int \<Rightarrow> 'os spi_st \<Rightarrow> (u64 option \<times> 'os spi_st) option" where
  "spi_init V dev hz spi_mode s =
     (case spi_buf_alloc V (os s) of
        (None, os') \<Rightarrow> Some (None, s\<lparr>os := os'\<rparr>)
      | (Some a, os') \<Rightarrow>
          (let x = zero_transfer\<lparr>speed_hz := hz, bits_per_word := 8\<rparr>;
               (fd, os') = sys_open V os' dev;
               t = \<lparr>t_fd = fd, t_mode = 0, t_bits = 0, t_hz = hz, t_xfer0 = x, t_xfer1 = x\<rparr>;
               s = s\<lparr>os := os', tools := (tools s)(a \<mapsto> t), open_fds := (if fd < 0 then [] else [fd]) @ open_fds s\<rparr>
           in if fd < 0 then spi_fail V a s else spi_config V spi_mode a s))"

definition spi_read :: "'os spidev \<Rightarrow> u64 \<Rightarrow> int \<Rightarrow> 'os spi_st \<Rightarrow> (int \<times> byte list \<times> 'os spi_st) option" where
  "spi_read V a rx_len s =
     (case tools s a of
        None \<Rightarrow> None
      | Some t \<Rightarrow> (case os_read V (os s) (t_fd t) rx_len of (r, bs, d) \<Rightarrow> Some (r, bs, s\<lparr>os := d\<rparr>)))"

definition spi_write :: "'os spidev \<Rightarrow> u64 \<Rightarrow> byte list \<Rightarrow> int \<Rightarrow> 'os spi_st \<Rightarrow> (int \<times> 'os spi_st) option" where
  "spi_write V a tx tx_len s =
     (case tools s a of
        None \<Rightarrow> None
      | Some t \<Rightarrow> (case os_write V (os s) (t_fd t) (take (nat tx_len) tx) of (r, d) \<Rightarrow> Some (r, s\<lparr>os := d\<rparr>)))"

definition SPI_SUCCESS :: int where "SPI_SUCCESS = 0"
definition SPI_FAIL :: int where "SPI_FAIL = - 1"

text \<open>\<open>spi_xfer\<close>: the number of transfers counts the non-empty ones, but the first ones of the
  array are sent. The result has the two receive buffers.\<close>

definition spi_xfer ::
  "'os spidev \<Rightarrow> u64 \<Rightarrow> byte list option \<Rightarrow> byte list option \<Rightarrow> int \<Rightarrow> byte list option \<Rightarrow> byte list option \<Rightarrow> int
     \<Rightarrow> 'os spi_st \<Rightarrow> (int \<times> byte list option \<times> byte list option \<times> 'os spi_st) option" where
  "spi_xfer V a tx1 rx1 xfer1_cnt tx2 rx2 xfer2_cnt s = do {
     s \<leftarrow> upd_tool a (\<lambda>t. t\<lparr>t_xfer0 := (t_xfer0 t)\<lparr>tx_buf := tx1, rx_buf := rx1, x_len := of_int xfer1_cnt\<rparr>,
                           t_xfer1 := (t_xfer1 t)\<lparr>tx_buf := tx2, rx_buf := rx2, x_len := of_int xfer2_cnt\<rparr>\<rparr>) s;
     t \<leftarrow> tools s a;
     let xfer_cnt = (if xfer1_cnt > 0 then 1 else 0) + (if xfer2_cnt > 0 then 1 else 0);
     let (ret, rxs, d) = ioc_message V (os s) (t_fd t) (take xfer_cnt [t_xfer0 t, t_xfer1 t]);
     let (rx1, rx2) = (case rxs of [] \<Rightarrow> (rx1, rx2) | [x] \<Rightarrow> (x, rx2) | x # y # _ \<Rightarrow> (x, y));
     Some (if ret < 0 then SPI_FAIL else SPI_SUCCESS, rx1, rx2, s\<lparr>os := d\<rparr>) }"

text \<open>\<open>spi_trx\<close>: one byte out, one byte in, 0 on failure. \<open>junk\<close> is the uninitialised local
  variable the answer is received in.\<close>

definition spi_trx :: "'os spidev \<Rightarrow> u64 \<Rightarrow> byte \<Rightarrow> byte \<Rightarrow> 'os spi_st \<Rightarrow> (byte \<times> 'os spi_st) option" where
  "spi_trx V a junk cmd s = do {
     (r, rx, _, s) \<leftarrow> spi_xfer V a (Some [cmd]) (Some [junk]) 1 None None 0 s;
     b \<leftarrow> (case rx of Some bs \<Rightarrow> nth_opt bs 0 | None \<Rightarrow> None);
     Some (if r = SPI_FAIL then 0 else b, s) }"

section \<open>Opening and closing\<close>

lemma spi_fail_ok:
  assumes "tools s a = Some t"
  shows "\<exists>d. spi_fail V a s = Some (None, s\<lparr>os := d, tools := (tools s)(a := None),
    open_fds := (if t_fd t > 0 then remove1 (t_fd t) (open_fds s) else open_fds s)\<rparr>)"
  using assms by (cases s) (auto simp: spi_fail_def spi_deinit_def Let_def)

text \<open>What a configuration may end in: the tool ready, or released.\<close>

definition config_done :: "u64 \<Rightarrow> spi_tool \<Rightarrow> byte \<Rightarrow> 'os spi_st \<Rightarrow> (u64 option \<times> 'os spi_st) option \<Rightarrow> bool" where
  "config_done a t m s r \<longleftrightarrow>
     (\<exists>d. r = Some (Some a, s\<lparr>tools := (tools s)(a \<mapsto> t\<lparr>t_mode := m, t_bits := 8\<rparr>), os := d\<rparr>)) \<or>
     (\<exists>d. r = Some (None, s\<lparr>os := d, tools := (tools s)(a := None),
        open_fds := (if t_fd t > 0 then remove1 (t_fd t) (open_fds s) else open_fds s)\<rparr>))"

lemma config_done_fail:
  "t_fd t' = t_fd t \<Longrightarrow> config_done a t m s (spi_fail V a (s\<lparr>tools := (tools s)(a \<mapsto> t'), os := d\<rparr>))"
  using spi_fail_ok [of "s\<lparr>tools := (tools s)(a \<mapsto> t'), os := d\<rparr>" a t' V] by (cases s) (auto simp: config_done_def)

lemma os_tools_comm: "s\<lparr>os := d, tools := T\<rparr> = s\<lparr>tools := T, os := d\<rparr>"
  by (cases s) simp

lemma spi_config_done:
  assumes t: "tools s a = Some t" and M: "M = (if m = - 1 then 0 else of_int m)"
  shows "config_done a t M s (spi_config V m a s)"
proof -
  obtain r1 mode d1 where 1: "rd_mode V (os s) (t_fd t) = (r1, mode, d1)" by (metis prod_cases3)
  obtain r2 d2 where 2: "wr_mode V d1 (t_fd t) M = (r2, d2)" by fastforce
  obtain r3 bits d3 where 3: "rd_bits V d2 (t_fd t) = (r3, bits, d3)" by (metis prod_cases3)
  obtain r4 d4 where 4: "(if bits \<noteq> 8 then wr_bits V d3 (t_fd t) 8 else (0, d3)) = (r4, d4)" by fastforce
  obtain r5 d5 where 5: "wr_hz V d4 (t_fd t) (t_hz t) = (r5, d5)" by fastforce
  note ups = M [symmetric] os_tools_comm upd_tool_def spi_ioctl_def Let_def
  note fail = config_done_fail [of _ t a M s V]
  have s: "s\<lparr>os := d\<rparr> = s\<lparr>tools := (tools s)(a \<mapsto> t), os := d\<rparr>" for d using t by (simp add: fun_upd_idem)
  consider "r1 < 0" | "\<not> r1 < 0" "r2 < 0" | "\<not> r1 < 0" "\<not> r2 < 0" "r3 < 0"
    | "\<not> r1 < 0" "\<not> r2 < 0" "\<not> r3 < 0" "r4 < 0" | "\<not> r1 < 0" "\<not> r2 < 0" "\<not> r3 < 0" "\<not> r4 < 0" by blast
  then show ?thesis
  proof cases
    case 1
    with t \<open>rd_mode V (os s) (t_fd t) = _\<close> show ?thesis using fail [of t d1] s by (simp add: spi_config_def ups)
  next
    case _: 2
    with t 1 2 show ?thesis using fail [of "t\<lparr>t_mode := M\<rparr>" d2] by (simp add: spi_config_def ups)
  next
    case _: 3
    with t 1 2 3 show ?thesis
      using fail [of "t\<lparr>t_mode := M, t_bits := bits\<rparr>" d3] by (simp add: spi_config_def ups)
  next
    case _: 4
    with 4 have "bits \<noteq> 8" by (auto split: if_splits)
    with \<open>r4 < 0\<close> \<open>\<not> r1 < 0\<close> \<open>\<not> r2 < 0\<close> \<open>\<not> r3 < 0\<close> t 1 2 3 4 show ?thesis
      using fail [of "t\<lparr>t_mode := M, t_bits := 8\<rparr>" d4] by (simp add: spi_config_def ups)
  next
    case _: 5
    with t 1 2 3 4 5 show ?thesis
      using fail [of "t\<lparr>t_mode := M, t_bits := 8\<rparr>" d5]
      by (cases "bits = 8"; cases "r5 < 0") (auto simp: spi_config_def ups config_done_def)
  qed
qed

lemma remove1_head: "remove1 x (x # xs) = xs"
  by simp

section \<open>Properties\<close>

text \<open>Opening a SPI device, whatever the system answers: either a tool is returned that holds the
  open descriptor, the mode asked for (0 for -1), eight bits and the clock, or NULL is returned,
  the memory is free again and the descriptor closed. Except descriptor 0, which \<open>spi_deinit\<close>
  takes for none: it stays open.\<close>

theorem spi_init_outcome:
  assumes al: "spi_buf_alloc V (os s) = (Some a, d0)" and fresh: "tools s a = None"
    and opn: "sys_open V d0 dev = (fd, d1)"
  shows "\<exists>r t. spi_init V dev hz m s = Some (r, t) \<and>
    (case r of
       None \<Rightarrow> tools t = tools s \<and> open_fds t = (if fd = 0 then [0] else []) @ open_fds s
     | Some b \<Rightarrow> b = a \<and> 0 \<le> fd \<and> open_fds t = fd # open_fds s \<and>
         (\<exists>x. tools t = (tools s)(a \<mapsto> \<lparr>t_fd = fd, t_mode = (if m = - 1 then 0 else of_int m), t_bits = 8,
            t_hz = hz, t_xfer0 = x, t_xfer1 = x\<rparr>)))"
proof -
  define x where "x = zero_transfer\<lparr>speed_hz := hz, bits_per_word := 8\<rparr>"
  define tl where "tl = \<lparr>t_fd = fd, t_mode = 0, t_bits = 0, t_hz = hz, t_xfer0 = x, t_xfer1 = x\<rparr>"
  define s1 where "s1 = s\<lparr>os := d1, tools := (tools s)(a \<mapsto> tl), open_fds := (if fd < 0 then [] else [fd]) @ open_fds s\<rparr>"
  have i: "spi_init V dev hz m s = (if fd < 0 then spi_fail V a s1 else spi_config V m a s1)"
    using al opn by (simp add: spi_init_def Let_def s1_def tl_def x_def)
  have t: "tools s1 a = Some tl" and fd: "t_fd tl = fd" by (simp_all add: s1_def tl_def)
  have restored: "(tools s1)(a := None) = tools s" using fresh by (auto simp: s1_def)
  show ?thesis
  proof (cases "fd < 0")
    case True
    with spi_fail_ok [of s1 a tl V] t i fd restored show ?thesis by (auto simp: s1_def)
  next
    case False
    from spi_config_done [OF t refl, of m V] False i fd restored show ?thesis
      by (auto simp: config_done_def s1_def tl_def)
  qed
qed

text \<open>A system that opens descriptor \<open>fd\<close>, refuses the clock, and answers each byte with its complement.\<close>

definition v_noclock :: "int \<Rightarrow> unit spidev" where
  "v_noclock fd = \<lparr>spi_buf_alloc = (\<lambda>d. (Some 4096, d)), sys_open = (\<lambda>d n. (fd, d)), sys_close = (\<lambda>d fd. d),
     rd_mode = (\<lambda>d fd. (0, 0, d)), wr_mode = (\<lambda>d fd m. (0, d)), rd_bits = (\<lambda>d fd. (0, 0, d)),
     wr_bits = (\<lambda>d fd b. (0, d)), wr_hz = (\<lambda>d fd h. (- 1, d)),
     ioc_message = (\<lambda>d fd xs. (0, map (\<lambda>x. map_option (map NOT) (tx_buf x)) xs, d)),
     os_read = (\<lambda>d fd n. (0, [], d)), os_write = (\<lambda>d fd b. (0, d))\<rparr>"

theorem spi_init_outcome_witness:
  "\<exists>t. spi_init (v_noclock 0) ''/dev/spidev0.0'' 1000000 0 \<lparr>os = (), tools = Map.empty, open_fds = []\<rparr> = Some (None, t) \<and>
     tools t = Map.empty \<and> open_fds t = [0]"
proof -
  have 1: "spi_buf_alloc (v_noclock 0) (os \<lparr>os = (), tools = Map.empty, open_fds = []\<rparr>) = (Some 4096, ())"
    by (simp add: v_noclock_def)
  have 2: "sys_open (v_noclock 0) () ''/dev/spidev0.0'' = (0, ())" by (simp add: v_noclock_def)
  have "fst (the (spi_init (v_noclock 0) ''/dev/spidev0.0'' 1000000 0 \<lparr>os = (), tools = Map.empty, open_fds = []\<rparr>)) = None"
    by (simp add: spi_init_def Let_def v_noclock_def spi_config_def upd_tool_def spi_ioctl_def spi_fail_def spi_deinit_def)
  with spi_init_outcome [OF 1 _ 2, of 1000000 0] show ?thesis by auto
qed

text \<open>What \<open>spi_xfer\<close> sends: as many transfers as there are positive lengths, but always from the
  first on. Both positive: both, and both receive buffers are returned as received; only the first
  positive: the first. Only the second positive, a defect: the empty first transfer is sent, the
  second never, and its receive buffer stays as it was, with the result of success.\<close>

theorem spi_xfer_sends:
  assumes t: "tools s a = Some t"
    and x0: "x0 = (t_xfer0 t)\<lparr>tx_buf := tx1, rx_buf := rx1, x_len := of_int n1\<rparr>"
    and x1: "x1 = (t_xfer1 t)\<lparr>tx_buf := tx2, rx_buf := rx2, x_len := of_int n2\<rparr>"
    and both: "ioc_message V (os s) (t_fd t) [x0, x1] = (ret2, [r1, r2], d2)"
    and one: "ioc_message V (os s) (t_fd t) [x0] = (ret1, [r], d1)"
  shows "(0 < n1 \<and> 0 < n2 \<longrightarrow> (\<exists>u. spi_xfer V a tx1 rx1 n1 tx2 rx2 n2 s =
      Some (if ret2 < 0 then SPI_FAIL else SPI_SUCCESS, r1, r2, u) \<and> os u = d2)) \<and>
    (0 < n1 \<and> n2 \<le> 0 \<longrightarrow> (\<exists>u. spi_xfer V a tx1 rx1 n1 tx2 rx2 n2 s =
      Some (if ret1 < 0 then SPI_FAIL else SPI_SUCCESS, r, rx2, u) \<and> os u = d1)) \<and>
    (n1 \<le> 0 \<and> 0 < n2 \<longrightarrow> (\<exists>u. spi_xfer V a tx1 rx1 n1 tx2 rx2 n2 s =
      Some (if ret1 < 0 then SPI_FAIL else SPI_SUCCESS, r, rx2, u) \<and> os u = d1))"
  using assms by (auto simp: spi_xfer_def upd_tool_def Let_def numeral_2_eq_2)

theorem spi_xfer_sends_witness:
  "\<exists>u. spi_xfer (v_noclock 3) 1 (Some []) (Some []) 0 (Some [0x55]) (Some [0]) 1
      \<lparr>os = (), tools = [1 \<mapsto> \<lparr>t_fd = 3, t_mode = 0, t_bits = 8, t_hz = 0, t_xfer0 = zero_transfer, t_xfer1 = zero_transfer\<rparr>],
       open_fds = [3]\<rparr> = Some (SPI_SUCCESS, Some [], Some [0], u)"
proof -
  let ?t = "\<lparr>t_fd = 3, t_mode = 0, t_bits = 8, t_hz = 0, t_xfer0 = zero_transfer, t_xfer1 = zero_transfer\<rparr>"
  let ?s = "\<lparr>os = (), tools = [1 \<mapsto> ?t], open_fds = [3]\<rparr>"
  have t: "tools ?s 1 = Some ?t" by simp
  have both: "ioc_message (v_noclock 3) (os ?s) (t_fd ?t)
      [(t_xfer0 ?t)\<lparr>tx_buf := Some [], rx_buf := Some [], x_len := of_int 0\<rparr>,
       (t_xfer1 ?t)\<lparr>tx_buf := Some [0x55], rx_buf := Some [0], x_len := of_int 1\<rparr>] = (0, [Some [], Some [NOT 0x55]], ())"
    by (simp add: v_noclock_def)
  have one: "ioc_message (v_noclock 3) (os ?s) (t_fd ?t)
      [(t_xfer0 ?t)\<lparr>tx_buf := Some [], rx_buf := Some [], x_len := of_int 0\<rparr>] = (0, [Some []], ())"
    by (simp add: v_noclock_def)
  from spi_xfer_sends [OF t refl refl both one] show ?thesis by auto
qed

text \<open>A failed single-byte exchange reads as 0, a good one as the byte received.\<close>

lemma spi_trx_result:
  assumes t: "tools s a = Some t"
    and io: "ioc_message V (os s) (t_fd t)
      [(t_xfer0 t)\<lparr>tx_buf := Some [cmd], rx_buf := Some [junk], x_len := 1\<rparr>] = (ret, [Some [b]], d)"
  shows "\<exists>u. spi_trx V a junk cmd s = Some (if ret < 0 then 0 else b, u) \<and> os u = d"
  using assms
  by (auto simp: spi_trx_def spi_xfer_def upd_tool_def Let_def nth_opt_def SPI_FAIL_def SPI_SUCCESS_def)

end
