(* ===== verification/Ioctl_Code.thy ===== *)
theory Ioctl_Code
  imports Iface
begin

text \<open>
  The request numbers of \<open>src/ads131m08_ioctl.h\<close> (and its copy for user space) as the 32-bit
  words that cross the system call, and \<open>src/test_program/print_ioctl_cmd.c\<close>, which lists them.
  The encoding is Linux's \<open>_IOC\<close>: direction in bits 30 and 31, argument size in bits 16 to 29,
  magic in bits 8 to 15, number in bits 0 to 7.
\<close>

definition ioc :: "nat \<Rightarrow> char \<Rightarrow> nat \<Rightarrow> nat \<Rightarrow> 32 word" where
  "ioc dir magic nr sz = push_bit 30 (of_nat dir) OR push_bit 16 (of_nat sz) OR
     push_bit 8 (of_nat (of_char magic)) OR of_nat nr"

definition IO :: "char \<Rightarrow> nat \<Rightarrow> 32 word" where "IO magic nr = ioc 0 magic nr 0"

definition IOWR :: "char \<Rightarrow> nat \<Rightarrow> nat \<Rightarrow> 32 word" where "IOWR magic nr sz = ioc 3 magic nr sz"

definition ADC_MAGIC :: char where "ADC_MAGIC = CHR ''M''"

text \<open>\<open>sizeof (struct ads_ioctl_reg)\<close> is 4, \<open>sizeof (unsigned long)\<close> is 8.\<close>

fun ioctl_code :: "ioctl_nr \<Rightarrow> 32 word option" where
  "ioctl_code CMD_RESET_nr = Some (IO ADC_MAGIC 1)"
| "ioctl_code CMD_LOCK_nr = Some (IO ADC_MAGIC 2)"
| "ioctl_code CMD_UNLOCK_nr = Some (IO ADC_MAGIC 3)"
| "ioctl_code CMD_WAKEUP_nr = Some (IO ADC_MAGIC 4)"
| "ioctl_code CMD_STANDBY_nr = Some (IO ADC_MAGIC 5)"
| "ioctl_code CMD_RREG_nr = Some (IOWR ADC_MAGIC 6 4)"
| "ioctl_code CMD_WREG_nr = Some (IOWR ADC_MAGIC 7 4)"
| "ioctl_code CMD_CHUNK_SZ_nr = Some (IOWR ADC_MAGIC 8 8)"
| "ioctl_code CMD_STAT_nr = Some (IOWR ADC_MAGIC 9 8)"
| "ioctl_code (IOC_other _) = None"

definition ioctl_nrs :: "ioctl_nr list" where
  "ioctl_nrs = [CMD_RESET_nr, CMD_LOCK_nr, CMD_UNLOCK_nr, CMD_WAKEUP_nr, CMD_STANDBY_nr,
     CMD_RREG_nr, CMD_WREG_nr, CMD_CHUNK_SZ_nr, CMD_STAT_nr]"

text \<open>How the \<open>switch\<close> of the driver reads a number.\<close>

definition ioctl_decode :: "32 word \<Rightarrow> ioctl_nr" where
  "ioctl_decode w =
     (case find (\<lambda>c. ioctl_code c = Some w) ioctl_nrs of Some c \<Rightarrow> c | None \<Rightarrow> IOC_other (unat w))"

text \<open>The listing of \<open>print_ioctl_cmd.c\<close>.\<close>

definition print_ioctl_cmd_list :: "(string \<times> ioctl_nr) list" where
  "print_ioctl_cmd_list = [(''CMD_RESET'', CMD_RESET_nr), (''CMD_LOCK'', CMD_LOCK_nr),
     (''CMD_UNLOCK'', CMD_UNLOCK_nr), (''CMD_WAKEUP'', CMD_WAKEUP_nr), (''CMD_STANDBY'', CMD_STANDBY_nr),
     (''CMD_RREG'', CMD_RREG_nr), (''CMD_WREG'', CMD_WREG_nr), (''CMD_CHUNK_SZ'', CMD_CHUNK_SZ_nr),
     (''CMD_STAT'', CMD_STAT_nr)]"

definition print_ioctl_cmd_main :: "(string \<times> 32 word) list" where
  "print_ioctl_cmd_main =
     map (\<lambda>(str, c). (str, case ioctl_code c of Some w \<Rightarrow> w | None \<Rightarrow> 0)) print_ioctl_cmd_list"

lemma ioctl_code_values:
  "map ioctl_code ioctl_nrs = map Some [0x4D01, 0x4D02, 0x4D03, 0x4D04, 0x4D05, 0xC0044D06, 0xC0044D07,
     0xC0084D08, 0xC0084D09]"
  by (simp add: ioctl_nrs_def IO_def IOWR_def ioc_def ADC_MAGIC_def push_bit_eq_mult)

lemma ioctl_codes_distinct: "distinct (map ioctl_code ioctl_nrs)"
  by (simp add: ioctl_code_values)

lemma ioctl_decode_code:
  assumes "ioctl_code c = Some x"
  shows "ioctl_decode x = c"
proof -
  have c: "c \<in> set ioctl_nrs" using assms by (cases c) (simp_all add: ioctl_nrs_def)
  with assms have "find (\<lambda>c. ioctl_code c = Some x) ioctl_nrs \<noteq> None" unfolding find_None_iff by auto
  then obtain c' where c': "find (\<lambda>c. ioctl_code c = Some x) ioctl_nrs = Some c'" by auto
  then have "c' \<in> set ioctl_nrs" "ioctl_code c' = ioctl_code c"
    using assms unfolding find_Some_iff by auto
  with ioctl_codes_distinct c have "c' = c" unfolding distinct_map by (metis inj_onD)
  with c' show ?thesis by (simp add: ioctl_decode_def)
qed

text \<open>The nine request numbers are distinct words, so the driver's \<open>switch\<close> recovers the command
  from the number a user program passes, and every other number is refused with -ENOTTY (or -EBUSY
  while running); \<open>print_ioctl_cmd\<close> lists exactly these nine.\<close>

theorem ioctl_codes_decode:
  "(\<forall>c. case ioctl_code c of Some w \<Rightarrow> ioctl_decode w = c | None \<Rightarrow> True) \<and>
   distinct (map ioctl_code ioctl_nrs) \<and>
   map snd print_ioctl_cmd_main =
     [0x4D01, 0x4D02, 0x4D03, 0x4D04, 0x4D05, 0xC0044D06, 0xC0044D07, 0xC0084D08, 0xC0084D09] \<and>
   (w \<in> snd ` set print_ioctl_cmd_main \<or>
    ads131m08_ioctl K (ioctl_decode w) arg s =
      Some (if ads131m08_run_stat s = ADC_RUN then - EBUSY else - ENOTTY, s))"
proof (intro conjI)
  show "distinct (map ioctl_code ioctl_nrs)" by (rule ioctl_codes_distinct)
  show "map snd print_ioctl_cmd_main =
     [0x4D01, 0x4D02, 0x4D03, 0x4D04, 0x4D05, 0xC0044D06, 0xC0044D07, 0xC0084D08, 0xC0084D09]"
    using ioctl_code_values by (simp add: print_ioctl_cmd_main_def print_ioctl_cmd_list_def ioctl_nrs_def)
  show "\<forall>c. case ioctl_code c of Some w \<Rightarrow> ioctl_decode w = c | None \<Rightarrow> True"
    by (auto split: option.splits intro: ioctl_decode_code)
  have m: "set (map ioctl_code ioctl_nrs) = Some ` snd ` set print_ioctl_cmd_main"
    by (auto simp: print_ioctl_cmd_main_def print_ioctl_cmd_list_def ioctl_nrs_def)
  show "w \<in> snd ` set print_ioctl_cmd_main \<or> ads131m08_ioctl K (ioctl_decode w) arg s =
      Some (if ads131m08_run_stat s = ADC_RUN then - EBUSY else - ENOTTY, s)"
  proof (cases "w \<in> snd ` set print_ioctl_cmd_main")
    case False
    then have "find (\<lambda>c. ioctl_code c = Some w) ioctl_nrs = None"
      using m unfolding find_None_iff by (metis (no_types) image_eqI imageE list.set_map option.inject)
    then show ?thesis by (simp add: ioctl_decode_def ads131m08_ioctl_def)
  qed simp
qed

end
