(* ===== verification/Shell.thy ===== *)
theory Shell
  imports Ioctl_Code
begin

text \<open>
  The interactive test program \<open>src/test_program/test.c\<close>: the tokeniser, the command table and its
  handlers, the command loop, the sample printer and the hex dump. Operating system and C
  library memory are not part of the repository: \<open>ioctl\<close>, \<open>read\<close>, \<open>calloc\<close> are the fields of
  \<open>uenv\<close> over a system state \<open>'s\<close>. C strings are char lists without the terminating NUL; what the
  program prints is a list of items. \<open>None\<close> is a crash (NULL or uninitialised pointer, access
  outside a block), as everywhere in the development.
\<close>

section \<open>The C library\<close>

text \<open>\<open>strtok\<close> on the rest of the string: the next token and what is left behind the delimiter
  that ended it.\<close>

definition strtok :: "string \<Rightarrow> string \<Rightarrow> (string \<times> string) option" where
  "strtok delim s =
     (let r = dropWhile (\<lambda>c. c \<in> set delim) s in
      if r = [] then None
      else Some (takeWhile (\<lambda>c. c \<notin> set delim) r, tl (dropWhile (\<lambda>c. c \<notin> set delim) r)))"

definition is_space :: "char \<Rightarrow> bool" where
  "is_space c = (let n = of_char c :: nat in n = 32 \<or> 9 \<le> n \<and> n \<le> 13)"

definition is_graph :: "char \<Rightarrow> bool" where
  "is_graph c = (let n = of_char c :: nat in 33 \<le> n \<and> n \<le> 126)"

definition digit_val :: "char \<Rightarrow> nat" where
  "digit_val c =
     (let n = of_char c in
      if 48 \<le> n \<and> n \<le> 57 then n - 48
      else if 97 \<le> n \<and> n \<le> 122 then n - 87
      else if 65 \<le> n \<and> n \<le> 90 then n - 55
      else 36)"

definition digits :: "nat \<Rightarrow> string \<Rightarrow> nat" where
  "digits base s = foldl (\<lambda>v c. v * base + digit_val c) 0 (takeWhile (\<lambda>c. digit_val c < base) s)"

text \<open>Leading white space, an optional sign, for base 16 an optional \<open>0x\<close>, then digits.\<close>

definition strto_parts :: "nat \<Rightarrow> string \<Rightarrow> bool \<times> nat" where
  "strto_parts base s =
     (let r = dropWhile is_space s;
          neg = (r \<noteq> [] \<and> hd r = CHR ''-'');
          r = (if r \<noteq> [] \<and> (hd r = CHR ''-'' \<or> hd r = CHR ''+'') then tl r else r);
          r = (if base = 16 \<and> (take 2 r = ''0x'' \<or> take 2 r = ''0X'') then drop 2 r else r)
      in (neg, digits base r))"

text \<open>\<open>strtoul\<close> saturates at \<open>ULONG_MAX\<close> and negates modulo \<open>2 ^ 64\<close>; \<open>atoi\<close> is \<open>strtol\<close> in base
  ten, which saturates at the bounds of \<open>long\<close>, cut to \<open>int\<close>.\<close>

definition strtoul :: "nat \<Rightarrow> string \<Rightarrow> u64" where
  "strtoul base s =
     (case strto_parts base s of (neg, v) \<Rightarrow>
        if v \<ge> 2 ^ 64 then - 1 else if neg then - of_nat v else of_nat v)"

definition atoi :: "string \<Rightarrow> int" where
  "atoi s =
     (case strto_parts 10 s of (neg, v) \<Rightarrow>
        int32 (if neg then max (- (2 ^ 63)) (- int v) else min (2 ^ 63 - 1) (int v)))"

section \<open>Tokens\<close>

text \<open>A cell of the array of token pointers.\<close>

datatype cell = Uninit | NullPtr | Str string

function make_token_loop ::
  "string \<Rightarrow> nat \<Rightarrow> string \<Rightarrow> nat \<Rightarrow> cell list \<Rightarrow> (nat \<times> cell list) option" where
  "make_token_loop delim max_cnt rest token_cnt token_ptr =
     (case strtok delim rest of
        None \<Rightarrow> map_option (Pair token_cnt) (upd_opt token_ptr token_cnt NullPtr)
      | Some (t, rest') \<Rightarrow>
          (case upd_opt token_ptr token_cnt (Str t) of
             None \<Rightarrow> None
           | Some token_ptr \<Rightarrow>
               (if Suc token_cnt = max_cnt then Some (Suc token_cnt, token_ptr)
                else make_token_loop delim max_cnt rest' (Suc token_cnt) token_ptr)))"
  by pat_completeness auto

lemma strtok_shorter: "strtok delim s = Some (t, r) \<Longrightarrow> length r < length s"
proof -
  assume "strtok delim s = Some (t, r)"
  then have ne: "dropWhile (\<lambda>c. c \<in> set delim) s \<noteq> []"
    and r: "r = tl (dropWhile (\<lambda>c. c \<notin> set delim) (dropWhile (\<lambda>c. c \<in> set delim) s))"
    by (auto simp: strtok_def Let_def split: if_splits)
  let ?d = "dropWhile (\<lambda>c. c \<in> set delim) s"
  have "length r \<le> length ?d - 1" using length_dropWhile_le [of "\<lambda>c. c \<notin> set delim" ?d] by (simp add: r)
  also have "\<dots> < length ?d" using ne by simp
  also have "\<dots> \<le> length s" by (rule length_dropWhile_le)
  finally show ?thesis .
qed

termination make_token_loop
  by (relation "measure (\<lambda>(_, _, rest, _). length rest)") (auto dest: strtok_shorter)

declare make_token_loop.simps [simp del]

definition make_token ::
  "string option \<Rightarrow> cell list \<Rightarrow> nat \<Rightarrow> string \<Rightarrow> (nat \<times> cell list) option" where
  "make_token buf token_ptr max_cnt delim =
     (case buf of
        None \<Rightarrow> Some (0, token_ptr)
      | Some s \<Rightarrow>
          (case strtok delim s of
             None \<Rightarrow> map_option (Pair 0) (upd_opt token_ptr 0 NullPtr)
           | Some (t, rest) \<Rightarrow> do {
               token_ptr \<leftarrow> upd_opt token_ptr 0 (Str t);
               make_token_loop delim max_cnt rest 1 token_ptr }))"

text \<open>What \<open>strtok\<close> leaves in the buffer as a C string: it ends at the first delimiter behind the
  first token.\<close>

definition strtok_left :: "string \<Rightarrow> string \<Rightarrow> string" where
  "strtok_left delim s =
     takeWhile (\<lambda>c. c \<in> set delim) s @ takeWhile (\<lambda>c. c \<notin> set delim) (dropWhile (\<lambda>c. c \<in> set delim) s)"

section \<open>The process\<close>

type_synonym umem = "u64 \<Rightarrow> u16 list option"

text \<open>What is printed: text, a failed system call with its errno, a register row (address, value),
  a labelled value, a sample (time, difference).\<close>

datatype uout = OText string | OFail int | ORow int u16 | OVal string int | OPkt int int

text \<open>The heap blocks as arrays of 16-bit words, the output, the static variable \<open>prev_ts\<close>, and the
  system behind the system calls.\<close>

record 's proc =
  heapm :: umem
  out :: "uout list"
  prev_ts :: int
  sys :: 's

text \<open>
  \<^item> \<open>sys_ioctl mem s fd cmd arg\<close>: the kernel's return value (a negative errno on failure), the
    program's memory and the system afterwards; \<open>None\<close> if the kernel crashes.
  \<^item> \<open>sys_read s fd n\<close>: return value and the samples at the front of the buffer.
  \<^item> \<open>calloc mem n\<close>: the address of a zeroed block of \<open>n\<close> bytes, or NULL.
\<close>

record 's uenv =
  sys_ioctl :: "umem \<Rightarrow> 's \<Rightarrow> int \<Rightarrow> 32 word \<Rightarrow> u64 \<Rightarrow> (int \<times> umem \<times> 's) option"
  sys_read :: "'s \<Rightarrow> int \<Rightarrow> nat \<Rightarrow> int \<times> smpl list \<times> 's"
  calloc :: "umem \<Rightarrow> nat \<Rightarrow> u64 option"

text \<open>A handler returns, or the process exits with a status.\<close>

datatype 's hres = Ret "'s proc" | Exit int "'s proc"

definition print :: "uout list \<Rightarrow> 's proc \<Rightarrow> 's proc" where
  "print os p = p\<lparr>out := out p @ os\<rparr>"

definition libc_ioctl ::
  "'s uenv \<Rightarrow> int \<Rightarrow> 32 word \<Rightarrow> u64 \<Rightarrow> 's proc \<Rightarrow> (int \<times> int \<times> 's proc) option" where
  "libc_ioctl E fd cmd arg p =
     (case sys_ioctl E (heapm p) (sys p) fd cmd arg of
        None \<Rightarrow> None
      | Some (r, m, s) \<Rightarrow>
          Some (if r < 0 then (- 1, - r, p\<lparr>heapm := m, sys := s\<rparr>) else (r, 0, p\<lparr>heapm := m, sys := s\<rparr>)))"

definition cmd_word :: "ioctl_nr \<Rightarrow> 32 word" where
  "cmd_word c = (case ioctl_code c of Some w \<Rightarrow> w | None \<Rightarrow> 0)"

text \<open>\<open>buf_alloc\<close>: the size is an \<open>int\<close> that \<open>calloc\<close> takes as a \<open>size_t\<close>, so a negative one
  cannot be met; without memory the process exits (\<open>None\<close>).\<close>

definition buf_alloc :: "'s uenv \<Rightarrow> int \<Rightarrow> 's proc \<Rightarrow> (u64 \<times> 's proc) option" where
  "buf_alloc E n p =
     (if n < 0 then None
      else case calloc E (heapm p) (nat n) of
             None \<Rightarrow> None
           | Some a \<Rightarrow> Some (a, p\<lparr>heapm := (heapm p)(a \<mapsto> replicate (nat n div 2) 0)\<rparr>))"

definition load :: "u64 \<Rightarrow> nat \<Rightarrow> 's proc \<Rightarrow> u16 option" where
  "load a i p = (case heapm p a of None \<Rightarrow> None | Some b \<Rightarrow> nth_opt b i)"

definition store :: "u64 \<Rightarrow> nat \<Rightarrow> u16 \<Rightarrow> 's proc \<Rightarrow> 's proc option" where
  "store a i v p =
     (case heapm p a of
        None \<Rightarrow> None
      | Some b \<Rightarrow> (case upd_opt b i v of None \<Rightarrow> None | Some b \<Rightarrow> Some (p\<lparr>heapm := (heapm p)(a \<mapsto> b)\<rparr>)))"

definition ufree :: "u64 \<Rightarrow> 's proc \<Rightarrow> 's proc option" where
  "ufree a p = (case heapm p a of None \<Rightarrow> None | Some _ \<Rightarrow> Some (p\<lparr>heapm := (heapm p)(a := None)\<rparr>))"

text \<open>The string behind \<open>args[i]\<close>.\<close>

definition arg_str :: "cell list \<Rightarrow> nat \<Rightarrow> string option" where
  "arg_str args i = (case nth_opt args i of Some (Str s) \<Rightarrow> Some s | _ \<Rightarrow> None)"

section \<open>Command handlers\<close>

definition simple_hdlr :: "ioctl_nr \<Rightarrow> 's uenv \<Rightarrow> int \<Rightarrow> 's proc \<Rightarrow> 's hres option" where
  "simple_hdlr c E fd p = do {
     (ret, errno, p) \<leftarrow> libc_ioctl E fd (cmd_word c) 0 p;
     Some (Ret (if ret < 0 then print [OFail errno] p else p)) }"

definition wakeup_hdlr :: "'s uenv \<Rightarrow> int \<Rightarrow> cell list \<Rightarrow> int \<Rightarrow> 's proc \<Rightarrow> 's hres option" where
  "wakeup_hdlr E fd args cnt p = simple_hdlr CMD_WAKEUP_nr E fd p"

definition standby_hdlr :: "'s uenv \<Rightarrow> int \<Rightarrow> cell list \<Rightarrow> int \<Rightarrow> 's proc \<Rightarrow> 's hres option" where
  "standby_hdlr E fd args cnt p = simple_hdlr CMD_STANDBY_nr E fd p"

definition reset_hdlr :: "'s uenv \<Rightarrow> int \<Rightarrow> cell list \<Rightarrow> int \<Rightarrow> 's proc \<Rightarrow> 's hres option" where
  "reset_hdlr E fd args cnt p = simple_hdlr CMD_RESET_nr E fd p"

definition table_head :: "uout list" where
  "table_head = [OText ''----+-----'', OText ''ADDR|VALUE'', OText ''----+-----'']"

text \<open>The rows \<open>addr + i\<close>, \<open>data[i]\<close>.\<close>

definition print_rows :: "u64 \<Rightarrow> int \<Rightarrow> int \<Rightarrow> 's proc \<Rightarrow> 's proc option" where
  "print_rows a addr cnt p =
     for_each (\<lambda>i p. do { v \<leftarrow> load a (2 + i) p; Some (print [ORow (int32 (addr + int i)) v] p) }) [0..<nat cnt] p"

definition rreg_hdlr :: "'s uenv \<Rightarrow> int \<Rightarrow> cell list \<Rightarrow> int \<Rightarrow> 's proc \<Rightarrow> 's hres option" where
  "rreg_hdlr E fd args token_cnt p =
     (if token_cnt \<noteq> 2 then Some (Ret (print [OText ''Usage:rreg <addr> <count>''] p))
      else do {
        a0 \<leftarrow> arg_str args 0;
        a1 \<leftarrow> arg_str args 1;
        let addr = atoi a0;
        let cnt = atoi a1;
        (case buf_alloc E (int32 (4 + 2 * cnt)) p of
           None \<Rightarrow> Some (Exit (- 1) p)
         | Some (reg_data, p) \<Rightarrow> do {
             p \<leftarrow> store reg_data 0 (of_int addr) p;
             p \<leftarrow> store reg_data 1 (of_int cnt) p;
             (ret, errno, p) \<leftarrow> libc_ioctl E fd (cmd_word CMD_RREG_nr) reg_data p;
             let p = (if ret < 0 then print [OFail errno] p else p);
             let p = print table_head p;
             p \<leftarrow> print_rows reg_data addr cnt p;
             p \<leftarrow> ufree reg_data p;
             Some (Ret p) }) })"

definition wreg_hdlr :: "'s uenv \<Rightarrow> int \<Rightarrow> cell list \<Rightarrow> int \<Rightarrow> 's proc \<Rightarrow> 's hres option" where
  "wreg_hdlr E fd args token_cnt p =
     (if token_cnt < 2 then Some (Ret (print [OText ''Usage:wreg <start_addr> <val1> <val2> ...''] p))
      else do {
        a0 \<leftarrow> arg_str args 0;
        let addr = atoi a0;
        let cnt = token_cnt - 1;
        (case buf_alloc E (int32 (4 + 2 * cnt)) p of
           None \<Rightarrow> Some (Exit (- 1) p)
         | Some (reg_data, p) \<Rightarrow> do {
             p \<leftarrow> store reg_data 0 (of_int addr) p;
             p \<leftarrow> store reg_data 1 (of_int cnt) p;
             p \<leftarrow> for_each (\<lambda>i p. do { s \<leftarrow> arg_str args (i + 1); store reg_data (2 + i) (ucast (strtoul 16 s)) p })
                    [0..<nat (token_cnt - 1)] p;
             (ret, errno, p) \<leftarrow> libc_ioctl E fd (cmd_word CMD_WREG_nr) reg_data p;
             p \<leftarrow> (if ret < 0 then Some (print [OFail errno] p)
                   else print_rows reg_data addr cnt (print table_head p));
             p \<leftarrow> ufree reg_data p;
             Some (Ret p) }) })"

definition chunk_sz_hdlr :: "'s uenv \<Rightarrow> int \<Rightarrow> cell list \<Rightarrow> int \<Rightarrow> 's proc \<Rightarrow> 's hres option" where
  "chunk_sz_hdlr E fd args token_cnt p =
     (if token_cnt < 1 then Some (Ret (print [OText ''Usage:chunk_sz <chunk size>''] p))
      else do {
        a0 \<leftarrow> arg_str args 0;
        (ret, errno, p) \<leftarrow> libc_ioctl E fd (cmd_word CMD_CHUNK_SZ_nr) (strtoul 10 a0) p;
        Some (Ret (print [if ret < 0 then OFail errno else OVal ''chunk_sz:'' ret] p)) })"

text \<open>There is no return behind the usage message of \<open>stat\<close>.\<close>

definition stat_hdlr :: "'s uenv \<Rightarrow> int \<Rightarrow> cell list \<Rightarrow> int \<Rightarrow> 's proc \<Rightarrow> 's hres option" where
  "stat_hdlr E fd args token_cnt p = do {
     let p = (if token_cnt \<noteq> 1 then print [OText ''Usage:stat <-1|0|1>''] p else p);
     a0 \<leftarrow> arg_str args 0;
     (ret, errno, p) \<leftarrow> libc_ioctl E fd (cmd_word CMD_STAT_nr) (of_int (atoi a0)) p;
     Some (Ret (print [if ret < 0 then OFail errno else OVal ''stat:'' ret] p)) }"

definition cmd_list ::
  "(string \<times> ('s uenv \<Rightarrow> int \<Rightarrow> cell list \<Rightarrow> int \<Rightarrow> 's proc \<Rightarrow> 's hres option)) list" where
  "cmd_list = [(''start'', wakeup_hdlr), (''stop'', standby_hdlr), (''stat'', stat_hdlr), (''rreg'', rreg_hdlr),
     (''wreg'', wreg_hdlr), (''reset'', reset_hdlr), (''chunk_sz'', chunk_sz_hdlr)]"

definition delims :: string where "delims = [CHR '' '', CHR 0x0A, CHR 0x0D]"

definition parse_cmd :: "'s uenv \<Rightarrow> string \<Rightarrow> int \<Rightarrow> 's proc \<Rightarrow> 's hres option" where
  "parse_cmd E cmd_buf fd p = do {
     (token_cnt, token) \<leftarrow> make_token (Some cmd_buf) (replicate 10 Uninit) 10 delims;
     (if token_cnt = 0 then Some (Ret p)
      else do {
        t0 \<leftarrow> arg_str token 0;
        (case find (\<lambda>(cmd, _). cmd = t0) cmd_list of
           None \<Rightarrow> Some (Ret p)
         | Some (_, hdlr) \<Rightarrow> hdlr E fd (drop 1 token) (int token_cnt - 1) p) }) }"

section \<open>The command loop\<close>

text \<open>\<open>fgets\<close> with room for \<open>n\<close> characters and the terminator: up to and including a newline.\<close>

fun fgets :: "nat \<Rightarrow> string \<Rightarrow> string \<times> string" where
  "fgets 0 s = ([], s)"
| "fgets (Suc n) [] = ([], [])"
| "fgets (Suc n) (c # s) =
     (if c = CHR 0x0A then ([c], s) else (case fgets n s of (l, r) \<Rightarrow> (c # l, r)))"

text \<open>\<open>n\<close> rounds of \<open>cmd_loop\<close>, on an input and a buffer (\<open>None\<close> before the first line). The result
  of \<open>fgets\<close> is not looked at: at the end of the input it leaves the buffer as it is.\<close>

fun cmd_loop :: "'s uenv \<Rightarrow> int \<Rightarrow> nat \<Rightarrow> string \<Rightarrow> string option \<Rightarrow> 's proc \<Rightarrow> 's hres option" where
  "cmd_loop E fd 0 stdin buf p = Some (Ret p)"
| "cmd_loop E fd (Suc n) stdin buf p =
     (let p = print [OText ''>> ''] p;
          (line, stdin) = fgets 511 stdin
      in case (if line = [] then buf else Some (takeWhile (\<lambda>c. c \<noteq> CHR 0x00) line)) of
           None \<Rightarrow> None
         | Some buf \<Rightarrow>
             (case parse_cmd E buf fd p of
                None \<Rightarrow> None
              | Some (Exit st p) \<Rightarrow> Some (Exit st p)
              | Some (Ret p) \<Rightarrow> cmd_loop E fd n stdin (Some (strtok_left delims buf)) p))"

section \<open>The sample printer\<close>

text \<open>\<open>%d\<close> shows the low 32 bits of the 64-bit difference.\<close>

definition print_pkt :: "smpl \<Rightarrow> 's proc \<Rightarrow> 's proc" where
  "print_pkt pkt p =
     (print [OPkt (s_ts pkt) (int32 (s_ts pkt - prev_ts p))] p)\<lparr>prev_ts := s_ts pkt\<rparr>"

definition TEST_CHUNK_SZ :: nat where "TEST_CHUNK_SZ = 320"

text \<open>\<open>n\<close> rounds of \<open>test_loop\<close>; its buffer keeps what earlier reads left.\<close>

fun test_loop :: "'s uenv \<Rightarrow> int \<Rightarrow> nat \<Rightarrow> smpl list \<Rightarrow> 's proc \<Rightarrow> 's proc option" where
  "test_loop E fd 0 buf p = Some p"
| "test_loop E fd (Suc n) buf p =
     (case sys_read E (sys p) fd (SMPL_SIZE * TEST_CHUNK_SZ) of
        (ret, got, s) \<Rightarrow>
          let p = p\<lparr>sys := s\<rparr>; buf = got @ drop (length got) buf in
          if ret < 0 then test_loop E fd n buf (print [OFail (- ret)] p)
          else
            (case for_each (\<lambda>i p. do { m \<leftarrow> nth_opt buf i; Some (print_pkt m p) }) [0..<nat ret div SMPL_SIZE] p of
               None \<Rightarrow> None
             | Some p \<Rightarrow> test_loop E fd n buf p))"

section \<open>The main program\<close>

text \<open>What \<open>main\<close> uses of the system: \<open>fopen\<close> for appending (whether it succeeds), \<open>open\<close> of the
  device (a descriptor, or a negative errno), \<open>pthread_create\<close>.\<close>

record 's menv =
  fopen_append :: "'s \<Rightarrow> string \<Rightarrow> bool \<times> 's"
  open_dev :: "'s \<Rightarrow> int \<times> 's"
  pthread_create :: "'s \<Rightarrow> int \<times> 's"

definition launch_thread :: "'s menv \<Rightarrow> 's proc \<Rightarrow> int \<times> 's proc" where
  "launch_thread M p =
     (case pthread_create M (sys p) of (ret, s) \<Rightarrow>
        if ret \<noteq> 0 then (ret, p\<lparr>sys := s\<rparr>) else (0, p\<lparr>sys := s\<rparr>))"

text \<open>Where the samples go: standard output, an opened file, the NULL of a failed \<open>fopen\<close>, or, with
  more than one argument, an uninitialised pointer.\<close>

datatype outfile = Stdout | File string | NullFile | UninitFile

text \<open>\<open>main\<close> up to its loops: it has returned a status, or \<open>test_loop\<close> runs on the descriptor and,
  if the thread could be created, \<open>cmd_loop\<close> beside it. Neither returns.\<close>

datatype 's main_state = MExit int "'s proc" | MLoops outfile int bool "'s proc"

definition test_main :: "'s menv \<Rightarrow> string list \<Rightarrow> 's proc \<Rightarrow> 's main_state" where
  "test_main M args p =
     (let (outfd, p) =
        (case args of
           [] \<Rightarrow> (Stdout, p)
         | [name] \<Rightarrow> (case fopen_append M (sys p) name of (ok, s) \<Rightarrow> (if ok then File name else NullFile, p\<lparr>sys := s\<rparr>))
         | _ \<Rightarrow> (UninitFile, p))
      in case open_dev M (sys p) of (fd, s) \<Rightarrow>
        let p = p\<lparr>sys := s\<rparr> in
        if fd < 0 then MExit (- fd) (print [OFail (- fd)] p)
        else (case launch_thread M p of (ret, p) \<Rightarrow> MLoops outfd fd (ret = 0) p))"

text \<open>The loops start exactly when the device opens, whether or not the output can be written; the
  result of \<open>pthread_create\<close> is not looked at.\<close>

lemma test_main_cases:
  assumes "open_dev M (sys p) = (fd, s)"
  shows "test_main M [] p =
      (if fd < 0 then MExit (- fd) (print [OFail (- fd)] (p\<lparr>sys := s\<rparr>))
       else MLoops Stdout fd (fst (pthread_create M s) = 0) (p\<lparr>sys := snd (pthread_create M s)\<rparr>))"
    and "0 \<le> fd \<Longrightarrow> test_main M (a # b # as) p =
      MLoops UninitFile fd (fst (pthread_create M s) = 0) (p\<lparr>sys := snd (pthread_create M s)\<rparr>)"
  using assms by (cases "pthread_create M s"; simp add: test_main_def launch_thread_def Let_def)+

section \<open>The hex dump\<close>

datatype dump_item = DHead | DOff nat | DByte byte | DPad | DGap | DChar byte | DNl | DTotal nat

definition is_graph_byte :: "byte \<Rightarrow> bool" where
  "is_graph_byte b = (33 \<le> b \<and> b \<le> 126)"

text \<open>The right column reads every byte of the row before it looks at the length.\<close>

definition dump_right :: "byte list \<Rightarrow> nat \<Rightarrow> nat \<Rightarrow> dump_item list \<Rightarrow> dump_item list option" where
  "dump_right buf len start o1 = for_each (\<lambda>idx o1. do {
      tmp8 \<leftarrow> nth_opt buf idx;
      Some (if idx < len then o1 @ [DChar (if is_graph_byte tmp8 then tmp8 else 46)] else o1) })
    [start..<start + 16] o1"

definition dump_buffer :: "byte list \<Rightarrow> nat \<Rightarrow> dump_item list option" where
  "dump_buffer buf len = do {
     let tmp_len = (if len mod 16 = 0 then len else (len div 16 + 1) * 16);
     r \<leftarrow> for_each (\<lambda>i o1. do {
         let o1 = (if i mod 16 = 0 then o1 @ [DOff i] else o1);
         o1 \<leftarrow> (if i < len then do { b \<leftarrow> nth_opt buf i; Some (o1 @ [DByte b]) } else Some (o1 @ [DPad]));
         (if (i + 1) mod 16 = 0 then do {
            o1 \<leftarrow> dump_right buf len (16 * (i div 16)) (o1 @ [DGap]);
            Some (o1 @ [DNl]) }
          else Some o1) }) [0..<tmp_len] [DHead];
     Some (r @ [DTotal len]) }"

section \<open>Tokens: the words of the line\<close>

text \<open>The words of a line, one character at a time.\<close>

fun split_words :: "string \<Rightarrow> string \<Rightarrow> string \<Rightarrow> string list" where
  "split_words d acc [] = (if acc = [] then [] else [acc])"
| "split_words d acc (c # cs) =
     (if c \<in> set d then (if acc = [] then split_words d [] cs else acc # split_words d [] cs)
      else split_words d (acc @ [c]) cs)"

abbreviation words :: "string \<Rightarrow> string \<Rightarrow> string list" where
  "words d s \<equiv> split_words d [] s"

lemma split_words_acc:
  "acc \<noteq> [] \<Longrightarrow> split_words d acc s =
     (acc @ takeWhile (\<lambda>c. c \<notin> set d) s) # words d (tl (dropWhile (\<lambda>c. c \<notin> set d) s))"
  by (induction s arbitrary: acc) simp_all

lemma words_skip: "words d s = words d (dropWhile (\<lambda>c. c \<in> set d) s)"
  by (induction s) simp_all

lemma words_strtok: "words d s = (case strtok d s of None \<Rightarrow> [] | Some (t, r) \<Rightarrow> t # words d r)"
proof (cases "dropWhile (\<lambda>c. c \<in> set d) s")
  case Nil
  then have "strtok d s = None" by (simp add: strtok_def)
  moreover have "words d s = []" by (subst words_skip, simp only: Nil) simp
  ultimately show ?thesis by simp
next
  case (Cons c r)
  then have "c \<notin> set d" using hd_dropWhile [of "\<lambda>c. c \<in> set d" s] by simp
  then show ?thesis using words_skip [of d s] Cons by (simp add: strtok_def split_words_acc)
qed

lemma words_print:
  "\<forall>t \<in> set ts. t \<noteq> [] \<and> set t \<inter> set d = {} \<Longrightarrow> c \<in> set d \<Longrightarrow> words d (concat (map (\<lambda>t. t @ [c]) ts)) = ts"
proof (induction ts)
  case (Cons t ts)
  from Cons.prems have t: "t \<noteq> []" "\<forall>x \<in> set t. x \<notin> set d" by auto
  then obtain x u where x: "t = x # u" by (cases t) auto
  have u: "takeWhile (\<lambda>c. c \<notin> set d) (u @ c # r) = u" "dropWhile (\<lambda>c. c \<notin> set d) (u @ c # r) = c # r" for r
    using t x Cons.prems(2) by (simp_all add: takeWhile_append dropWhile_append)
  show ?case using Cons t x by (simp add: split_words_acc u)
qed simp

text \<open>\<open>cells ws arr\<close>: the words in the array, a terminating NULL if there is room, the rest as it was.\<close>

definition cells :: "string list \<Rightarrow> cell list \<Rightarrow> cell list" where
  "cells ws arr =
     map Str (take (length arr) ws) @
     (if length ws < length arr then NullPtr # drop (Suc (length ws)) arr else [])"

lemma upd_opt_at: "upd_opt (us @ x # vs) (length us) y = Some (us @ y # vs)"
  by (simp add: upd_opt_def)

lemma make_token_loop_words:
  "make_token_loop d (length us + length arr) rest (length us) (us @ arr) =
     Some (length us + min (length arr) (length (words d rest)), us @ cells (words d rest) arr)"
  if "arr \<noteq> []" for arr
  using that
proof (induction arr arbitrary: us rest)
  case (Cons x arr)
  show ?case
  proof (cases "strtok d rest")
    case None
    then show ?thesis using words_strtok [of d rest]
      by (subst make_token_loop.simps) (simp add: upd_opt_at cells_def)
  next
    case (Some tr)
    obtain t r where tr: "tr = (t, r)" by (cases tr)
    have w: "words d rest = t # words d r" using words_strtok [of d rest] Some tr by simp
    show ?thesis
    proof (cases "arr = []")
      case True
      then show ?thesis using Some tr w
        by (subst make_token_loop.simps) (simp add: upd_opt_at cells_def)
    next
      case False
      from Cons.IH [OF this, of "us @ [Str t]" r] show ?thesis using Some tr w False
        by (subst make_token_loop.simps) (simp add: upd_opt_at cells_def)
    qed
  qed
qed simp

lemma make_token_words_eq:
  assumes "2 \<le> length arr"
  shows "make_token (Some line) arr (length arr) d =
    Some (min (length arr) (length (words d line)), cells (words d line) arr)"
proof -
  from assms obtain x arr' where arr: "arr = x # arr'" "arr' \<noteq> []"
    by (cases arr; cases "tl arr") auto
  show ?thesis
  proof (cases "strtok d line")
    case None
    then show ?thesis using words_strtok [of d line] arr
      by (simp add: make_token_def cells_def upd_opt_def)
  next
    case (Some tr)
    obtain t r where tr: "tr = (t, r)" by (cases tr)
    then show ?thesis
      using words_strtok [of d line] Some arr make_token_loop_words [OF arr(2), of d "[Str t]" r]
      by (simp add: make_token_def cells_def upd_opt_def)
  qed
qed

lemma arg_str_cells:
  "i < length ws \<Longrightarrow> i < length arr \<Longrightarrow> arg_str (cells ws arr) i = Some (ws ! i)"
  "arg_str (cells ws arr) (length ws) = None"
  by (auto simp: arg_str_def cells_def nth_opt_def nth_append)

lemma arg_str_two:
  assumes "2 \<le> length arr"
  shows "arg_str (cells [a0, a1] arr) 0 = Some a0" "arg_str (cells [a0, a1] arr) 1 = Some a1"
proof -
  have "0 < length arr" "1 < length arr" using assms by linarith+
  then show "arg_str (cells [a0, a1] arr) 0 = Some a0" "arg_str (cells [a0, a1] arr) 1 = Some a1"
    using arg_str_cells(1) [of 0 "[a0, a1]" arr] arg_str_cells(1) [of 1 "[a0, a1]" arr] by simp_all
qed

section \<open>What a typed line does\<close>

lemma drop_cells: "drop 1 (cells (t # ts) (x # arr)) = cells ts arr"
  by (simp add: cells_def)

lemma parse_cmd_words:
  "parse_cmd E line fd p =
    (case words delims line of
       [] \<Rightarrow> Some (Ret p)
     | t0 # ts \<Rightarrow>
         (case find (\<lambda>(cmd, _). cmd = t0) cmd_list of
            None \<Rightarrow> Some (Ret p)
          | Some (_, hdlr) \<Rightarrow> hdlr E fd (cells ts (replicate 9 Uninit)) (int (min 9 (length ts))) p))"
proof -
  have ten: "replicate 10 Uninit = Uninit # replicate 9 Uninit" by (simp add: numeral_eq_Suc)
  have mt: "make_token (Some line) (replicate 10 Uninit) 10 delims =
      Some (min 10 (length (words delims line)), cells (words delims line) (replicate 10 Uninit))"
    using make_token_words_eq [of "replicate 10 Uninit" line delims] by simp
  show ?thesis
  proof (cases "words delims line")
    case Nil
    with mt show ?thesis by (simp add: parse_cmd_def)
  next
    case (Cons t0 ts)
    have a0: "arg_str (cells (t0 # ts) (Uninit # replicate 9 Uninit)) 0 = Some t0"
      using arg_str_cells(1) [of 0 "t0 # ts" "Uninit # replicate 9 Uninit"] by simp
    have m: "int (min 10 (length (t0 # ts))) - 1 = int (min 9 (length ts))" "min 10 (length (t0 # ts)) \<noteq> 0" by auto
    show ?thesis
      using mt unfolding Cons ten parse_cmd_def
      by (simp only: bind_Some_eq case_prod_conv a0 m if_False) (simp only: drop_cells list.case)
  qed
qed

text \<open>Memory of the process.\<close>

lemma for_each_append: "for_each f (xs @ ys) s = (for_each f xs s \<bind> for_each f ys)"
proof (induction xs arbitrary: s)
  case (Cons x xs)
  then show ?case by (cases "f x s") simp_all
qed simp

lemma print_simps [simp]:
  "heapm (print os p) = heapm p" "sys (print os p) = sys p" "prev_ts (print os p) = prev_ts p"
  "out (print os p) = out p @ os"
  by (simp_all add: print_def)

lemma print_append [simp]: "print os (print us p) = print (us @ os) p"
  by (simp add: print_def)

lemma print_Nil [simp]: "print [] p = p"
  by (simp add: print_def)

lemma print_rows_ok:
  assumes "heapm p a = Some b" "2 + nat cnt \<le> length b"
  shows "print_rows a addr cnt p =
    Some (print (map (\<lambda>i. ORow (int32 (addr + int i)) (b ! (2 + i))) [0..<nat cnt]) p)"
proof -
  have "n \<le> nat cnt \<Longrightarrow>
    for_each (\<lambda>i p. do { v \<leftarrow> load a (2 + i) p; Some (print [ORow (int32 (addr + int i)) v] p) }) [0..<n] p
      = Some (print (map (\<lambda>i. ORow (int32 (addr + int i)) (b ! (2 + i))) [0..<n]) p)" for n
  proof (induction n)
    case (Suc n)
    then show ?case using assms by (simp add: for_each_append load_def nth_opt_def)
  qed simp
  then show ?thesis unfolding print_rows_def by simp
qed

lemma store_data_ok:
  assumes "heapm p a = Some (h @ replicate n 0)" "length h = 2"
  shows "k \<le> n \<Longrightarrow> (\<And>i. i < k \<Longrightarrow> f i = Some (v i)) \<Longrightarrow>
    for_each (\<lambda>i p. do { s \<leftarrow> f i; store a (2 + i) (g s) p }) [0..<k] p
      = Some (p\<lparr>heapm := (heapm p)(a \<mapsto> h @ map (g \<circ> v) [0..<k] @ replicate (n - k) 0)\<rparr>)"
proof (induction k)
  case 0
  with assms show ?case by (simp add: fun_upd_idem)
next
  case (Suc k)
  let ?F = "\<lambda>i p. do { s \<leftarrow> f i; store a (2 + i) (g s) p }"
  let ?b = "\<lambda>k. h @ map (g \<circ> v) [0..<k] @ replicate (n - k) 0"
  have len: "2 + k < length (?b k)" using Suc.prems(1) assms(2) by simp
  have "replicate (n - k) 0 = 0 # replicate (n - Suc k) (0::u16)"
    using Suc.prems(1) by (metis Suc_diff_le diff_Suc_Suc replicate_Suc)
  then have upd: "(?b k)[2 + k := g (v k)] = ?b (Suc k)"
    using assms(2) by (simp add: list_update_append)
  have "?F k (p\<lparr>heapm := (heapm p)(a \<mapsto> ?b k)\<rparr>) = Some (p\<lparr>heapm := (heapm p)(a \<mapsto> ?b (Suc k))\<rparr>)"
    using len upd Suc.prems(2) [of k] by (simp add: store_def upd_opt_def del: upt_Suc)
  moreover have "for_each ?F [0..<k] p = Some (p\<lparr>heapm := (heapm p)(a \<mapsto> ?b k)\<rparr>)"
    by (rule Suc.IH) (use Suc.prems in simp_all)
  moreover have "[0..<Suc k] = [0..<k] @ [k]" by simp
  ultimately show ?case by (simp only: for_each_append bind_Some_eq for_each.simps)
qed

text \<open>The rows printed from a register block.\<close>

definition reg_rows :: "int \<Rightarrow> u16 list \<Rightarrow> nat \<Rightarrow> uout list" where
  "reg_rows addr b n = map (\<lambda>i. ORow (int32 (addr + int i)) (b ! (2 + i))) [0..<n]"

lemma buf_alloc_reg:
  assumes "calloc E (heapm p) (4 + 2 * n) = Some a" "4 + 2 * int n < 2 ^ 31"
  shows "buf_alloc E (int32 (4 + 2 * int n)) p = Some (a, p\<lparr>heapm := (heapm p)(a \<mapsto> 0 # 0 # replicate n 0)\<rparr>)"
proof -
  have "int32 (4 + 2 * int n) = 4 + 2 * int n" using assms(2) by (intro int32_id) auto
  moreover have "nat (4 + 2 * int n) = 4 + 2 * n" by simp
  moreover have "(4 + 2 * n) div 2 = Suc (Suc n)" by simp
  ultimately show ?thesis using assms(1) by (simp add: buf_alloc_def)
qed

lemma store_header:
  assumes "heapm p a = Some (x # y # zs)"
  shows "(store a 0 v p \<bind> store a 1 w) = Some (p\<lparr>heapm := (heapm p)(a \<mapsto> v # w # zs)\<rparr>)"
  using assms by (simp add: store_def upd_opt_def)

lemma wreg_hdlr_ok:
  assumes n: "vs \<noteq> []" "length vs < length arr" "length arr \<le> 9"
    and al: "calloc E (heapm p) (4 + 2 * length vs) = Some a"
    and io: "sys_ioctl E ((heapm p)(a \<mapsto> [of_int (atoi a0), of_nat (length vs)] @ map (\<lambda>s. ucast (strtoul 16 s)) vs))
      (sys p) fd (cmd_word CMD_WREG_nr) a = Some (r, m, s)"
    and m: "m a = Some b" "length b = 2 + length vs"
  shows "wreg_hdlr E fd (cells (a0 # vs) arr) (int (length (a0 # vs))) p =
    Some (Ret (print (if r < 0 then [OFail (- r)] else table_head @ reg_rows (atoi a0) b (length vs))
      (p\<lparr>heapm := m(a := None), sys := s\<rparr>)))"
proof -
  let ?n = "length vs" and ?h = "[of_int (atoi a0), of_nat (length vs)] :: u16 list"
  let ?q = "p\<lparr>heapm := (heapm p)(a \<mapsto> ?h @ replicate ?n 0)\<rparr>"
  have "arr \<noteq> []" using n(2) by auto
  then have arg: "arg_str (cells (a0 # vs) arr) 0 = Some a0"
    "i < ?n \<Longrightarrow> arg_str (cells (a0 # vs) arr) (i + 1) = Some (vs ! i)" for i
    using n arg_str_cells(1) [of 0 "a0 # vs" arr] arg_str_cells(1) [of "i + 1" "a0 # vs" arr] by simp_all
  have alloc: "buf_alloc E (int32 (4 + 2 * int ?n)) p = Some (a, p\<lparr>heapm := (heapm p)(a \<mapsto> 0 # 0 # replicate ?n 0)\<rparr>)"
    by (rule buf_alloc_reg [OF al]) (use n in simp)
  have hdr: "(store a 0 (of_int (atoi a0)) (p\<lparr>heapm := (heapm p)(a \<mapsto> 0 # 0 # replicate ?n 0)\<rparr>)
      \<bind> (\<lambda>p. store a 1 (of_int (int ?n)) p \<bind> f)) = f ?q" for f
    by (simp add: store_def upd_opt_def)
  have "for_each (\<lambda>i p. do { s \<leftarrow> arg_str (cells (a0 # vs) arr) (i + 1); store a (2 + i) (ucast (strtoul 16 s)) p })
      [0..<?n] ?q = Some (?q\<lparr>heapm := (heapm ?q)(a \<mapsto> ?h @ map ((\<lambda>s. ucast (strtoul 16 s)) \<circ> (!) vs) [0..<?n] @ replicate (?n - ?n) 0)\<rparr>)"
    by (rule store_data_ok [where g = "\<lambda>s. ucast (strtoul 16 s)"]) (use arg in simp_all)
  also have "map ((\<lambda>s. ucast (strtoul 16 s)) \<circ> (!) vs) [0..<?n] = map (\<lambda>s. ucast (strtoul 16 s)) vs"
    by (simp add: map_nth flip: map_map)
  finally have data: "for_each (\<lambda>i p. do { s \<leftarrow> arg_str (cells (a0 # vs) arr) (i + 1); store a (2 + i) (ucast (strtoul 16 s)) p })
      [0..<?n] ?q = Some (p\<lparr>heapm := (heapm p)(a \<mapsto> ?h @ map (\<lambda>s. ucast (strtoul 16 s)) vs)\<rparr>)"
    by (simp add: fun_upd_def cong: if_cong)
  have io': "libc_ioctl E fd (cmd_word CMD_WREG_nr) a (p\<lparr>heapm := (heapm p)(a \<mapsto> ?h @ map (\<lambda>s. ucast (strtoul 16 s)) vs)\<rparr>)
      = Some (if r < 0 then (- 1, - r, p\<lparr>heapm := m, sys := s\<rparr>) else (r, 0, p\<lparr>heapm := m, sys := s\<rparr>))"
    using io by (simp add: libc_ioctl_def)
  have rows: "print_rows a (atoi a0) (int ?n) (print table_head (p\<lparr>heapm := m, sys := s\<rparr>))
      = Some (print (table_head @ reg_rows (atoi a0) b ?n) (p\<lparr>heapm := m, sys := s\<rparr>))"
    using m by (subst print_rows_ok [where b = b]) (simp_all add: reg_rows_def)
  have free: "ufree a (print os (p\<lparr>heapm := m, sys := s\<rparr>)) = Some (print os (p\<lparr>heapm := m(a := None), sys := s\<rparr>))" for os
    using m by (simp add: ufree_def print_def)
  have c: "int (length (a0 # vs)) - 1 = int ?n" "\<not> int (length (a0 # vs)) < 2" using n(1) by (cases vs; simp)+
  show ?thesis
    unfolding wreg_hdlr_def Let_def c arg(1) bind_Some_eq alloc option.case case_prod_conv hdr nat_int data io'
    using rows free n(1) by simp
qed

lemma rreg_hdlr_ok:
  assumes arr: "2 \<le> length arr" and n: "atoi a1 = int n" "4 + 2 * int n < 2 ^ 31"
    and al: "calloc E (heapm p) (4 + 2 * n) = Some a"
    and io: "sys_ioctl E ((heapm p)(a \<mapsto> [of_int (atoi a0), of_nat n] @ replicate n 0))
      (sys p) fd (cmd_word CMD_RREG_nr) a = Some (r, m, s)"
    and m: "m a = Some b" "length b = 2 + n"
  shows "rreg_hdlr E fd (cells [a0, a1] arr) 2 p =
    Some (Ret (print ((if r < 0 then [OFail (- r)] else []) @ table_head @ reg_rows (atoi a0) b n)
      (p\<lparr>heapm := m(a := None), sys := s\<rparr>)))"
proof -
  let ?h = "[of_int (atoi a0), of_nat n] :: u16 list"
  let ?q = "p\<lparr>heapm := (heapm p)(a \<mapsto> ?h @ replicate n 0)\<rparr>"
  note arg = arg_str_two [OF arr]
  have alloc: "buf_alloc E (int32 (4 + 2 * int n)) p = Some (a, p\<lparr>heapm := (heapm p)(a \<mapsto> 0 # 0 # replicate n 0)\<rparr>)"
    by (rule buf_alloc_reg [OF al n(2)])
  have hdr: "(store a 0 (of_int (atoi a0)) (p\<lparr>heapm := (heapm p)(a \<mapsto> 0 # 0 # replicate n 0)\<rparr>)
      \<bind> (\<lambda>p. store a 1 (of_int (int n)) p \<bind> f)) = f ?q" for f
    by (simp add: store_def upd_opt_def)
  have io': "libc_ioctl E fd (cmd_word CMD_RREG_nr) a ?q
      = Some (if r < 0 then (- 1, - r, p\<lparr>heapm := m, sys := s\<rparr>) else (r, 0, p\<lparr>heapm := m, sys := s\<rparr>))"
    using io by (simp add: libc_ioctl_def)
  have rows: "print_rows a (atoi a0) (int n) (print os (p\<lparr>heapm := m, sys := s\<rparr>))
      = Some (print (os @ reg_rows (atoi a0) b n) (p\<lparr>heapm := m, sys := s\<rparr>))" for os
    using m by (subst print_rows_ok [where b = b]) (simp_all add: reg_rows_def)
  have free: "ufree a (print os (p\<lparr>heapm := m, sys := s\<rparr>)) = Some (print os (p\<lparr>heapm := m(a := None), sys := s\<rparr>))" for os
    using m by (simp add: ufree_def print_def)
  have c: "\<not> (2::int) \<noteq> 2" by simp
  show ?thesis
    unfolding rreg_hdlr_def Let_def if_not_P [OF c] arg n(1) bind_Some_eq alloc option.case case_prod_conv hdr io'
    using rows free rows [of "[]"] by simp
qed

text \<open>A count of -1 asks for a block of two bytes, without room for the count.\<close>

lemma rreg_hdlr_negative:
  assumes "2 \<le> length arr" "atoi a1 = - 1" "calloc E (heapm p) 2 = Some a"
  shows "rreg_hdlr E fd (cells [a0, a1] arr) 2 p = None"
proof -
  note arg = arg_str_two [OF assms(1)]
  have "int32 (4 + 2 * - 1) = 2" by (simp add: int32_id)
  then show ?thesis using assms(2,3) arg
    by (simp add: rreg_hdlr_def buf_alloc_def store_def upd_opt_def)
qed

lemma stat_hdlr_no_arg: "stat_hdlr E fd (cells [] arr) 0 p = None"
  using arg_str_cells(2) [of "[]" arr] by (simp add: stat_hdlr_def)

section \<open>The loops\<close>

lemma strtok_left_words:
  "words d (strtok_left d s) = take 1 (words d s)"
  "strtok_left d (strtok_left d s) = strtok_left d s"
proof -
  let ?g = "takeWhile (\<lambda>c. c \<in> set d) s" and ?r = "dropWhile (\<lambda>c. c \<in> set d) s"
  let ?t = "takeWhile (\<lambda>c. c \<notin> set d) ?r"
  have "?r = [] \<or> hd ?r \<notin> set d" using hd_dropWhile [of "\<lambda>c. c \<in> set d" s] by blast
  moreover have "r = [] \<or> hd r \<notin> set d \<Longrightarrow> (r = [] \<longleftrightarrow> takeWhile (\<lambda>c. c \<notin> set d) r = []) \<and>
      (takeWhile (\<lambda>c. c \<notin> set d) r = [] \<or> hd (takeWhile (\<lambda>c. c \<notin> set d) r) \<notin> set d)" for r by (cases r) auto
  ultimately have e: "?r = [] \<longleftrightarrow> ?t = []" and hd: "?t = [] \<or> hd ?t \<notin> set d" by blast+
  have g: "dropWhile (\<lambda>c. c \<in> set d) (?g @ ?t) = ?t" "takeWhile (\<lambda>c. c \<in> set d) (?g @ ?t) = ?g"
  proof -
    from hd have "dropWhile (\<lambda>c. c \<in> set d) ?t = ?t" "takeWhile (\<lambda>c. c \<in> set d) ?t = []"
      by (cases ?t; simp)+
    moreover have "\<forall>c \<in> set ?g. c \<in> set d" by (metis set_takeWhileD)
    ultimately show "dropWhile (\<lambda>c. c \<in> set d) (?g @ ?t) = ?t" "takeWhile (\<lambda>c. c \<in> set d) (?g @ ?t) = ?g"
      by (simp_all add: dropWhile_append takeWhile_append)
  qed
  have t: "takeWhile (\<lambda>c. c \<notin> set d) ?t = ?t" "dropWhile (\<lambda>c. c \<notin> set d) ?t = []"
    by (auto dest: set_takeWhileD)
  show "strtok_left d (strtok_left d s) = strtok_left d s"
    unfolding strtok_left_def g t ..
  have "strtok d (strtok_left d s) = (if ?r = [] then None else Some (?t, []))"
    unfolding strtok_def strtok_left_def Let_def g t using e by simp
  then show "words d (strtok_left d s) = take 1 (words d s)"
    using words_strtok [of d "strtok_left d s"] words_strtok [of d s]
    by (simp add: strtok_def Let_def split: if_splits)
qed

text \<open>The packets of one read.\<close>

fun show_smpls :: "smpl list \<Rightarrow> int \<Rightarrow> uout list" where
  "show_smpls [] prev = []"
| "show_smpls (m # ms) prev = OPkt (s_ts m) (int32 (s_ts m - prev)) # show_smpls ms (s_ts m)"

definition last_ts :: "smpl list \<Rightarrow> int \<Rightarrow> int" where
  "last_ts ms prev = (if ms = [] then prev else s_ts (last ms))"

lemma show_smpls_append: "show_smpls (ms @ ns) prev = show_smpls ms prev @ show_smpls ns (last_ts ms prev)"
  by (induction ms arbitrary: prev) (auto simp: last_ts_def)

lemma print_pkts_ok:
  "k \<le> length buf \<Longrightarrow> for_each (\<lambda>i p. do { m \<leftarrow> nth_opt buf i; Some (print_pkt m p) }) [0..<k] p
     = Some ((print (show_smpls (take k buf) (prev_ts p)) p)\<lparr>prev_ts := last_ts (take k buf) (prev_ts p)\<rparr>)"
proof (induction k)
  case 0
  then show ?case by (simp add: last_ts_def)
next
  case (Suc k)
  then have "take (Suc k) buf = take k buf @ [buf ! k]" by (simp add: take_Suc_conv_app_nth)
  with Suc show ?case
    by (simp add: for_each_append nth_opt_def show_smpls_append print_pkt_def print_def last_ts_def)
qed

text \<open>The reads of \<open>n\<close> rounds, and what \<open>read\<close> is documented to do: it returns at most the size asked
  for and has stored that many bytes.\<close>

fun reads :: "'s uenv \<Rightarrow> int \<Rightarrow> nat \<Rightarrow> 's \<Rightarrow> (int \<times> smpl list) list" where
  "reads E fd 0 s = []"
| "reads E fd (Suc n) s =
     (case sys_read E s fd (SMPL_SIZE * TEST_CHUNK_SZ) of (ret, got, s) \<Rightarrow> (ret, got) # reads E fd n s)"

definition read_fits :: "int \<times> smpl list \<Rightarrow> bool" where
  "read_fits r = (nat (fst r) div SMPL_SIZE \<le> length (snd r) \<and> length (snd r) \<le> TEST_CHUNK_SZ)"

definition read_smpls :: "int \<times> smpl list \<Rightarrow> smpl list" where
  "read_smpls r = (if fst r < 0 then [] else take (nat (fst r) div SMPL_SIZE) (snd r))"

fun show_reads :: "(int \<times> smpl list) list \<Rightarrow> int \<Rightarrow> uout list" where
  "show_reads [] prev = []"
| "show_reads (r # rs) prev =
     (if fst r < 0 then OFail (- fst r) # show_reads rs prev
      else show_smpls (read_smpls r) prev @ show_reads rs (last_ts (read_smpls r) prev))"

definition pkt_times :: "uout list \<Rightarrow> int list" where
  "pkt_times os = concat (map (\<lambda>x. case x of OPkt t _ \<Rightarrow> [t] | _ \<Rightarrow> []) os)"

lemma pkt_times_smpls: "pkt_times (show_smpls ms prev) = map s_ts ms"
  by (induction ms arbitrary: prev) (simp_all add: pkt_times_def)

lemma pkt_times_reads: "pkt_times (show_reads rs prev) = map s_ts (concat (map read_smpls rs))"
proof (induction rs arbitrary: prev)
  case Nil
  then show ?case by (simp add: pkt_times_def)
next
  case (Cons r rs)
  have "pkt_times (xs @ ys) = pkt_times xs @ pkt_times ys" for xs ys by (simp add: pkt_times_def)
  with Cons show ?case
    by (simp add: pkt_times_smpls read_smpls_def) (simp add: pkt_times_def)
qed

lemma test_loop_ok:
  "length buf = TEST_CHUNK_SZ \<Longrightarrow> \<forall>r \<in> set (reads E fd n (sys p)). read_fits r \<Longrightarrow>
     \<exists>q. test_loop E fd n buf p = Some q \<and>
       out q = out p @ show_reads (reads E fd n (sys p)) (prev_ts p) \<and> heapm q = heapm p"
proof (induction n arbitrary: buf p)
  case (Suc n)
  obtain ret got s where r: "sys_read E (sys p) fd (SMPL_SIZE * TEST_CHUNK_SZ) = (ret, got, s)"
    by (cases "sys_read E (sys p) fd (SMPL_SIZE * TEST_CHUNK_SZ)") auto
  with Suc.prems(2) have fit: "nat ret div SMPL_SIZE \<le> length got" "length got \<le> TEST_CHUNK_SZ"
    and fits: "\<forall>r \<in> set (reads E fd n s). read_fits r" by (auto simp: read_fits_def)
  let ?buf = "got @ drop (length got) buf" and ?k = "nat ret div SMPL_SIZE"
  have len: "length ?buf = TEST_CHUNK_SZ" using fit Suc.prems(1) by simp
  let ?ms = "read_smpls (ret, got)"
  define p' where "p' = (if ret < 0 then print [OFail (- ret)] (p\<lparr>sys := s\<rparr>)
    else (print (show_smpls ?ms (prev_ts p)) (p\<lparr>sys := s\<rparr>))\<lparr>prev_ts := last_ts ?ms (prev_ts p)\<rparr>)"
  have "for_each (\<lambda>i p. do { m \<leftarrow> nth_opt ?buf i; Some (print_pkt m p) }) [0..<?k] (p\<lparr>sys := s\<rparr>)
      = Some (print (show_smpls (take ?k ?buf) (prev_ts p)) (p\<lparr>sys := s\<rparr>)\<lparr>prev_ts := last_ts (take ?k ?buf) (prev_ts p)\<rparr>)"
    using print_pkts_ok [of ?k ?buf "p\<lparr>sys := s\<rparr>"] fit by simp
  moreover have "take ?k ?buf = ?ms" if "\<not> ret < 0" using fit that by (simp add: read_smpls_def)
  ultimately have step: "test_loop E fd (Suc n) buf p = test_loop E fd n ?buf p'"
    using r by (simp add: p'_def Let_def)
  have p': "sys p' = s" "heapm p' = heapm p"
    "out p' @ show_reads (reads E fd n s) (prev_ts p') = out p @ show_reads (reads E fd (Suc n) (sys p)) (prev_ts p)"
    using r by (simp_all add: p'_def)
  from Suc.IH [of ?buf p'] len fits p' step show ?case by simp
qed simp

section \<open>The dump\<close>

lemma for_each_total: "(\<And>x s. x \<in> set xs \<Longrightarrow> f x s \<noteq> None) \<Longrightarrow> for_each f xs s \<noteq> None"
proof (induction xs arbitrary: s)
  case (Cons x xs)
  then obtain t where "f x s = Some t" by fastforce
  with Cons show ?case by auto
qed simp

lemma for_each_stuck: "x \<in> set xs \<Longrightarrow> (\<And>s. f x s = None) \<Longrightarrow> for_each f xs s = None"
proof (induction xs arbitrary: s)
  case (Cons y xs)
  then show ?case by (cases "f y s") auto
qed simp

lemma dump_right_total: "start + 16 \<le> length buf \<Longrightarrow> dump_right buf len start o1 \<noteq> None"
  unfolding dump_right_def by (rule for_each_total) (simp add: nth_opt_def)

lemma dump_right_over: "start \<le> i \<Longrightarrow> i < start + 16 \<Longrightarrow> length buf \<le> i \<Longrightarrow> dump_right buf len start o1 = None"
  unfolding dump_right_def by (rule for_each_stuck [of i]) (simp_all add: nth_opt_def)

lemma dump_buffer_overread:
  "(dump_buffer buf (length buf) = None) = (length buf mod 16 \<noteq> 0)"
proof (cases "length buf mod 16 = 0")
  case True
  let ?f = "\<lambda>i o1. do {
         let o1 = (if i mod 16 = 0 then o1 @ [DOff i] else o1);
         o1 \<leftarrow> (if i < length buf then do { b \<leftarrow> nth_opt buf i; Some (o1 @ [DByte b]) } else Some (o1 @ [DPad]));
         (if (i + 1) mod 16 = 0 then do {
            o1 \<leftarrow> dump_right buf (length buf) (16 * (i div 16)) (o1 @ [DGap]);
            Some (o1 @ [DNl]) }
          else Some o1) }"
  have "?f i o1 \<noteq> None" if "i \<in> set [0..<length buf]" for i o1
  proof -
    obtain k where k: "length buf = 16 * k" using True by (metis mod_0_imp_dvd dvdE)
    then have "i div 16 < k" using that by auto
    then have "16 * (i div 16) + 16 \<le> length buf" using k by linarith
    then have "\<forall>o2. \<exists>r. dump_right buf (length buf) (16 * (i div 16)) o2 = Some r"
      using dump_right_total by blast
    then obtain R where R: "\<And>o2. dump_right buf (length buf) (16 * (i div 16)) o2 = Some (R o2)" by metis
    show ?thesis using that unfolding Let_def R by (simp add: nth_opt_def)
  qed
  then have "for_each ?f [0..<length buf] [DHead] \<noteq> None" by (rule for_each_total)
  with True show ?thesis by (auto simp: dump_buffer_def)
next
  case False
  let ?n = "(length buf div 16 + 1) * 16"
  have "length buf < ?n" using dividend_less_div_times [of 16 "length buf"] by simp
  then have n: "length buf < ?n" "?n - 1 < ?n" "length buf \<le> ?n - 1" by simp_all
  have d: "(?n - 1) div 16 = length buf div 16" "(?n - 1 + 1) mod 16 = 0" by auto
  have over: "dump_right buf (length buf) (16 * ((?n - 1) div 16)) o2 = None" for o2
    unfolding d by (rule dump_right_over [of _ "?n - 1"]) (use n in auto)
  have "for_each (\<lambda>i o1. do {
         let o1 = (if i mod 16 = 0 then o1 @ [DOff i] else o1);
         o1 \<leftarrow> (if i < length buf then do { b \<leftarrow> nth_opt buf i; Some (o1 @ [DByte b]) } else Some (o1 @ [DPad]));
         (if (i + 1) mod 16 = 0 then do {
            o1 \<leftarrow> dump_right buf (length buf) (16 * (i div 16)) (o1 @ [DGap]);
            Some (o1 @ [DNl]) }
          else Some o1) }) [0..<?n] [DHead] = None"
  proof (rule for_each_stuck [of "?n - 1"])
    show "?n - 1 \<in> set [0..<?n]" using n by auto
  qed (use over d n in \<open>simp add: Let_def\<close>)
  with False show ?thesis by (simp add: dump_buffer_def)
qed

section \<open>Properties\<close>

text \<open>The tokeniser: for every line, \<open>make_token\<close> on an array of at least two cells stores the words
  of the line in order, as many as fit, ends them with NULL when there is room, leaves the other
  cells alone and never writes outside the array; words printed with a delimiter after each come
  back as they were.\<close>

theorem make_token_words:
  assumes arr: "2 \<le> length arr" and ts: "\<forall>t \<in> set ts. t \<noteq> [] \<and> set t \<inter> set d = {}" and c: "c \<in> set d"
  shows "make_token (Some line) arr (length arr) d =
      Some (min (length arr) (length (words d line)), cells (words d line) arr) \<and>
    words d (concat (map (\<lambda>t. t @ [c]) ts)) = ts \<and> make_token None arr k d = Some (0, arr)"
  using make_token_words_eq [OF arr] words_print [OF ts c] by (simp add: make_token_def)

theorem make_token_words_witness:
  "make_token (Some ''wreg 2  1A'') (replicate 10 Uninit) 10 delims =
     Some (3, map Str [''wreg'', ''2'', ''1A''] @ NullPtr # replicate 6 Uninit) \<and>
   words delims ''rreg 0 '' = [''rreg'', ''0'']"
proof -
  have "2 \<le> length (replicate 10 Uninit)" "\<forall>t \<in> set [''rreg'', ''0'']. t \<noteq> [] \<and> set t \<inter> set delims = {}"
    "CHR '' '' \<in> set delims" by (simp_all add: delims_def)
  from make_token_words [OF this, of "''wreg 2  1A''"] show ?thesis
    by (simp add: cells_def delims_def numeral_eq_Suc)
qed

text \<open>Two defects of the handlers: \<open>stat\<close> without an argument prints the usage and then reads it
  (a NULL pointer), and \<open>rreg\<close> with count -1 allocates two bytes and stores the register count
  behind them. Both lines crash the program.\<close>

theorem shell_bad_arguments:
  assumes stat: "words delims l1 = [''stat'']" and rreg: "words delims l2 = [''rreg'', a0, a1]" "atoi a1 = - 1"
    and mem: "calloc E (heapm p) 2 = Some a"
  shows "parse_cmd E l1 fd p = None \<and> parse_cmd E l2 fd p = None"
proof
  show "parse_cmd E l1 fd p = None"
    using stat stat_hdlr_no_arg by (simp add: parse_cmd_words cmd_list_def)
  show "parse_cmd E l2 fd p = None"
    using rreg(1) rreg_hdlr_negative [of "replicate 9 Uninit" a1 E p a fd a0] rreg(2) mem
    by (simp add: parse_cmd_words cmd_list_def)
qed

text \<open>A system that accepts everything.\<close>

definition e_ok :: "unit uenv" where
  "e_ok = \<lparr>sys_ioctl = (\<lambda>m s fd cmd arg. Some (0, m, s)),
     sys_read = (\<lambda>s fd n. (40, [\<lparr>s_ts = 77, s_data = replicate 8 0\<rparr>], s)), calloc = (\<lambda>m n. Some 4096)\<rparr>"

definition p0 :: "'s \<Rightarrow> 's proc" where
  "p0 s = \<lparr>heapm = (\<lambda>_. None), out = [], prev_ts = 0, sys = s\<rparr>"

theorem shell_bad_arguments_witness:
  "parse_cmd e_ok (''stat'' @ [CHR 0x0A]) 3 (p0 ()) = None \<and> parse_cmd e_ok (''rreg 0 -1'' @ [CHR 0x0A]) 3 (p0 ()) = None"
proof -
  have "words delims (''stat'' @ [CHR 0x0A]) = [''stat'']" "words delims (''rreg 0 -1'' @ [CHR 0x0A]) = [''rreg'', ''0'', ''-1'']"
    by (simp_all add: delims_def)
  moreover have "atoi ''-1'' = - 1"
    by (simp add: atoi_def strto_parts_def is_space_def digits_def digit_val_def int32_id)
  moreover have "calloc e_ok (heapm (p0 ())) 2 = Some 4096" by (simp add: e_ok_def)
  ultimately show ?thesis by (rule shell_bad_arguments)
qed

text \<open>A defect of the command loop: at the end of the input it does not stop. The buffer still holds
  the first word of the last line (\<open>strtok\<close> has ended it there), so that command is issued again
  in every further round, without arguments.\<close>

theorem cmd_loop_eof_repeats:
  assumes line: "words delims line = t0 # ts"
  shows "\<exists>b. b = strtok_left delims line \<and> words delims b = [t0] \<and> strtok_left delims b = b \<and>
    (\<forall>n p. cmd_loop E fd (Suc n) [] (Some b) p =
       (case parse_cmd E b fd (print [OText ''>> ''] p) of
          None \<Rightarrow> None
        | Some (Exit st q) \<Rightarrow> Some (Exit st q)
        | Some (Ret q) \<Rightarrow> cmd_loop E fd n [] (Some b) q))"
proof -
  have f: "fgets 511 [] = ([], [])" by (simp add: numeral_eq_Suc)
  have "strtok_left delims (strtok_left delims line) = strtok_left delims line" by (rule strtok_left_words)
  then show ?thesis using strtok_left_words(1) [of delims line] line
    by (simp add: f Let_def cong: option.case_cong hres.case_cong)
qed

theorem cmd_loop_eof_repeats_witness:
  "\<exists>b. words delims b = [''start''] \<and>
     cmd_loop e_ok 3 2 [] (Some b) (p0 ()) = Some (Ret (print [OText ''>> '', OText ''>> ''] (p0 ())))"
proof -
  have "words delims (''start'' @ [CHR 0x0A]) = ''start'' # []" by (simp add: delims_def)
  from cmd_loop_eof_repeats [OF this, of e_ok 3] obtain b where b: "words delims b = [''start'']"
    and r: "\<And>n p. cmd_loop e_ok 3 (Suc n) [] (Some b) p =
       (case parse_cmd e_ok b 3 (print [OText ''>> ''] p) of
          None \<Rightarrow> None
        | Some (Exit st q) \<Rightarrow> Some (Exit st q)
        | Some (Ret q) \<Rightarrow> cmd_loop e_ok 3 n [] (Some b) q)" by blast
  have "parse_cmd e_ok b 3 p = Some (Ret p)" for p
    using b by (simp add: parse_cmd_words cmd_list_def wakeup_hdlr_def simple_hdlr_def libc_ioctl_def e_ok_def)
  then have "cmd_loop e_ok 3 (Suc (Suc 0)) [] (Some b) (p0 ()) = Some (Ret (print [OText ''>> '', OText ''>> ''] (p0 ())))"
    by (simp only: r option.case hres.case print_append append.simps cmd_loop.simps(1))
  then show ?thesis using b by (auto simp: numeral_2_eq_2)
qed

text \<open>The sample printer: over any number of rounds it prints one line per sample that \<open>read\<close>
  returned, in order, each once, and one line per failed read; it stays within its buffer. The
  time difference it prints is the true one modulo \<open>2 ^ 32\<close> (\<open>%d\<close> for a 64-bit value).\<close>

theorem test_loop_prints:
  assumes buf: "length buf = TEST_CHUNK_SZ" and fits: "\<forall>r \<in> set (reads E fd n (sys p)). read_fits r"
  shows "\<exists>q. test_loop E fd n buf p = Some q \<and>
    out q = out p @ show_reads (reads E fd n (sys p)) (prev_ts p) \<and>
    pkt_times (show_reads (reads E fd n (sys p)) (prev_ts p))
      = map s_ts (concat (map read_smpls (reads E fd n (sys p))))"
  using test_loop_ok [OF assms] pkt_times_reads by blast

theorem test_loop_prints_witness:
  "\<exists>q. test_loop e_ok 3 2 (replicate 320 zero_smpl) (p0 ()) = Some q \<and> out q = [OPkt 77 77, OPkt 77 0]"
proof -
  have r: "reads e_ok 3 2 () = [(40, [\<lparr>s_ts = 77, s_data = replicate 8 0\<rparr>]), (40, [\<lparr>s_ts = 77, s_data = replicate 8 0\<rparr>])]"
    by (simp add: numeral_2_eq_2 e_ok_def)
  have "\<forall>r \<in> set (reads e_ok 3 2 (sys (p0 ()))). read_fits r"
    by (simp add: p0_def r read_fits_def SMPL_SIZE_def TEST_CHUNK_SZ_def)
  moreover have "length (replicate 320 zero_smpl) = TEST_CHUNK_SZ" by (simp add: TEST_CHUNK_SZ_def)
  ultimately have "\<exists>q. test_loop e_ok 3 2 (replicate 320 zero_smpl) (p0 ()) = Some q \<and>
      out q = out (p0 ()) @ show_reads (reads e_ok 3 2 (sys (p0 ()))) (prev_ts (p0 ()))"
    using test_loop_prints by blast
  then show ?thesis by (simp add: p0_def r read_smpls_def SMPL_SIZE_def int32_id last_ts_def)
qed

end
