(* ===== verification/Reg_Service.thy ===== *)
theory Reg_Service
  imports Shell
begin

text \<open>
  What the commands \<open>wreg\<close> and \<open>rreg\<close> of the test program rely on when they hand a block of memory to
  an ioctl: a register write takes the block as it is and reports how the write went, a register
  read replaces the data words by the answer, or leaves them zero when it fails; neither touches
  other memory, and the service stays ready. The driver provides the interface (theory
  Shell_Driver).
\<close>

locale reg_service =
  fixes ioctl :: "umem \<Rightarrow> 's \<Rightarrow> int \<Rightarrow> 32 word \<Rightarrow> u64 \<Rightarrow> (int \<times> umem \<times> 's) option"
    and ready :: "'s \<Rightarrow> bool"
    and wrote :: "umem \<Rightarrow> u64 \<Rightarrow> 's \<Rightarrow> byte \<Rightarrow> u16 list \<Rightarrow> int \<Rightarrow> 's \<Rightarrow> bool"
    and answered :: "umem \<Rightarrow> u64 \<Rightarrow> 's \<Rightarrow> byte \<Rightarrow> u16 list \<Rightarrow> int \<Rightarrow> 's \<Rightarrow> bool"
  assumes wreg_law: "ready s \<Longrightarrow> m a = Some ([w, of_nat (length vs)] @ vs) \<Longrightarrow> vs \<noteq> [] \<Longrightarrow> length vs \<le> 680 \<Longrightarrow>
      \<exists>r t. ioctl m s fd (cmd_word CMD_WREG_nr) a = Some (r, m, t) \<and> ready t \<and> wrote m a s (ucast w) vs r t"
    and rreg_law: "ready s \<Longrightarrow> m a = Some ([w, of_nat n] @ replicate n 0) \<Longrightarrow> 1 \<le> n \<Longrightarrow> n \<le> 680 \<Longrightarrow>
      \<exists>r vs t. ioctl m s fd (cmd_word CMD_RREG_nr) a = Some (r, m(a \<mapsto> [w, of_nat n] @ vs), t) \<and>
        length vs = n \<and> ready t \<and> answered m a s (ucast w) vs r t"
begin

text \<open>The table printed for registers from \<open>addr\<close> on.\<close>

lemma typed_wreg:
  assumes line: "words delims line = ''wreg'' # a0 # vs" "vs \<noteq> []" "length vs \<le> 8"
    and E: "sys_ioctl E = ioctl" "calloc E (heapm p) (4 + 2 * length vs) = Some a" and rdy: "ready (sys p)"
  defines "ws \<equiv> map (\<lambda>s. ucast (strtoul 16 s)) vs"
  defines "b \<equiv> [of_int (atoi a0), of_nat (length vs)] @ ws"
  shows "\<exists>r t. parse_cmd E line fd p =
      Some (Ret (print (if r < 0 then [OFail (- r)] else table_head @ reg_rows (atoi a0) b (length vs))
        (p\<lparr>heapm := (heapm p)(a := None), sys := t\<rparr>))) \<and>
    ready t \<and> wrote ((heapm p)(a \<mapsto> b)) a (sys p) (ucast (of_int (atoi a0) :: u16)) ws r t"
proof -
  let ?b = "[of_int (atoi a0), of_nat (length vs)] @ ws"
  have b: "((heapm p)(a \<mapsto> ?b)) a = Some ([of_int (atoi a0), of_nat (length ws)] @ ws)" by (simp add: ws_def)
  have ws: "ws \<noteq> []" "length ws \<le> 680" "length ws = length vs" using line(2,3) by (simp_all add: ws_def)
  from wreg_law [where m = "(heapm p)(a \<mapsto> ?b)" and a = a and fd = fd, OF rdy b ws(1,2)] obtain r t where
    io: "ioctl ((heapm p)(a \<mapsto> ?b)) (sys p) fd (cmd_word CMD_WREG_nr) a = Some (r, (heapm p)(a \<mapsto> ?b), t)"
    and t: "ready t" "wrote ((heapm p)(a \<mapsto> ?b)) a (sys p) (ucast (of_int (atoi a0) :: u16)) ws r t" by auto
  have "wreg_hdlr E fd (cells (a0 # vs) (replicate 9 Uninit)) (int (length (a0 # vs))) p =
    Some (Ret (print (if r < 0 then [OFail (- r)] else table_head @ reg_rows (atoi a0) ?b (length vs))
      (p\<lparr>heapm := ((heapm p)(a \<mapsto> ?b))(a := None), sys := t\<rparr>)))"
    by (rule wreg_hdlr_ok [OF line(2) _ _ E(2)]) (use io E(1) line(3) ws in \<open>simp_all add: ws_def\<close>)
  moreover have "min 9 (length (a0 # vs)) = length (a0 # vs)" using line(3) by simp
  ultimately have "parse_cmd E line fd p =
      Some (Ret (print (if r < 0 then [OFail (- r)] else table_head @ reg_rows (atoi a0) ?b (length vs))
        (p\<lparr>heapm := (heapm p)(a := None), sys := t\<rparr>)))"
    using line(1) unfolding parse_cmd_words by (simp add: cmd_list_def)
  with t show ?thesis unfolding b_def by blast
qed

lemma typed_rreg:
  assumes line: "words delims line = [''rreg'', a0, a1]" and n: "atoi a1 = int n" "1 \<le> n" "n \<le> 680"
    and E: "sys_ioctl E = ioctl" "calloc E (heapm p) (4 + 2 * n) = Some a" and rdy: "ready (sys p)"
  shows "\<exists>r ws t. parse_cmd E line fd p =
      Some (Ret (print ((if r < 0 then [OFail (- r)] else []) @ table_head @
          reg_rows (atoi a0) ([of_int (atoi a0), of_nat n] @ ws) n)
        (p\<lparr>heapm := (heapm p)(a := None), sys := t\<rparr>))) \<and>
    length ws = n \<and> ready t \<and> answered ((heapm p)(a \<mapsto> [of_int (atoi a0), of_nat n] @ replicate n 0)) a (sys p)
      (ucast (of_int (atoi a0) :: u16)) ws r t"
proof -
  let ?b = "[of_int (atoi a0), of_nat n] @ replicate n 0" and ?h = "[of_int (atoi a0), of_nat n] :: u16 list"
  have b: "((heapm p)(a \<mapsto> ?b)) a = Some ([of_int (atoi a0), of_nat n] @ replicate n 0)" by simp
  from rreg_law [where m = "(heapm p)(a \<mapsto> ?b)" and a = a and fd = fd, OF rdy b n(2,3)] obtain r ws t where
    io: "ioctl ((heapm p)(a \<mapsto> ?b)) (sys p) fd (cmd_word CMD_RREG_nr) a = Some (r, (heapm p)(a \<mapsto> ?h @ ws), t)"
    and t: "length ws = n" "ready t" "answered ((heapm p)(a \<mapsto> ?b)) a (sys p) (ucast (of_int (atoi a0) :: u16)) ws r t" by auto
  have "rreg_hdlr E fd (cells [a0, a1] (replicate 9 Uninit)) 2 p =
    Some (Ret (print ((if r < 0 then [OFail (- r)] else []) @ table_head @ reg_rows (atoi a0) (?h @ ws) n)
      (p\<lparr>heapm := ((heapm p)(a \<mapsto> ?h @ ws))(a := None), sys := t\<rparr>)))"
    by (rule rreg_hdlr_ok [OF _ n(1) _ E(2)]) (use io E(1) n t(1) in simp_all)
  then have "parse_cmd E line fd p =
      Some (Ret (print ((if r < 0 then [OFail (- r)] else []) @ table_head @ reg_rows (atoi a0) (?h @ ws) n)
        (p\<lparr>heapm := (heapm p)(a := None), sys := t\<rparr>)))"
    using line unfolding parse_cmd_words by (simp add: cmd_list_def)
  with t show ?thesis by blast
qed

end

end
