(* ===== verification/Shell_Driver.thy ===== *)
theory Shell_Driver
  imports Reg_Service Registers
begin

text \<open>
  The test program on top of the driver: the ioctl of the character device seen from a process,
  with the process's memory behind the kernel's user-memory calls, provides the interface of
  Reg_Service. What is typed at the prompt is followed down to the frames on the SPI bus.
\<close>

section \<open>The device as a system call\<close>

text \<open>The system is a kernel and the driver's variables; the first component of the device state is
  the memory of the calling process.\<close>

type_synonym 'd devsys = "(umem \<times> 'd) kenv \<times> (umem \<times> 'd) drv"

fun dev_ioctl :: "umem \<Rightarrow> 'd devsys \<Rightarrow> int \<Rightarrow> 32 word \<Rightarrow> u64 \<Rightarrow> (int \<times> umem \<times> 'd devsys) option" where
  "dev_ioctl m (K, s) fd cmd arg =
     (case ads131m08_ioctl K (ioctl_decode cmd) arg (s\<lparr>dev := (m, snd (dev s))\<rparr>) of
        None \<Rightarrow> None
      | Some (r, t) \<Rightarrow> Some (r, fst (dev t), K, t))"

text \<open>What the documentation of the user-memory calls says, for a block of the process: reading returns
  its words, writing behind the header replaces them, and nothing else of it changes.\<close>

definition user_mem :: "(umem \<times> 'd) kenv \<Rightarrow> bool" where
  "user_mem K \<longleftrightarrow>
     (\<forall>m d p n b. m p = Some b \<longrightarrow> n \<le> length b \<longrightarrow>
        (\<exists>f d'. copy_from_user K (m, d) p n = (Some f, m, d') \<and> (\<forall>i < n. f i = b ! i))) \<and>
     (\<forall>m d p ws h b. m p = Some (h @ b) \<longrightarrow> length h = 2 \<longrightarrow> length ws = length b \<longrightarrow>
        (\<exists>d'. copy_to_user K (m, d) (p + 4) ws = (True, m(p \<mapsto> h @ ws), d')))"

text \<open>The process's memory is its own: neither the bus nor the allocator writes to it.\<close>

definition apart :: "(umem \<times> 'd) kenv \<Rightarrow> bool" where
  "apart K \<longleftrightarrow> (\<forall>m d tx. \<exists>r rx d'. spi_sync_transfer K (m, d) tx = (r, rx, m, d')) \<and>
     (\<forall>m d. \<exists>ok d'. kzalloc K (m, d) = (ok, m, d'))"

text \<open>One register access on the bus, from device state \<open>d\<close>: the command frame and, if its transfer is
  good, the NULL frame. The result, the frames sent, the bytes received with the last of them.\<close>

definition reg_exchange :: "'d kenv \<Rightarrow> 'd \<Rightarrow> byte list \<Rightarrow> byte list \<Rightarrow> int \<times> byte list list \<times> (nat \<Rightarrow> byte) \<times> 'd" where
  "reg_exchange K d f1 f2 =
     (case spi_sync_transfer K d f1 of (r1, rx1, d1) \<Rightarrow>
        if r1 < 0 then (r1, [f1], rx1, d1)
        else case spi_sync_transfer K d1 f2 of (r2, rx2, d2) \<Rightarrow> (if r2 < 0 then r2 else 0, [f1, f2], rx2, d2))"

text \<open>The same with what the kernel is asked before: the header at \<open>a\<close>, the permission and the memory for
  \<open>n\<close> registers, the header again, with the values if they are to be written.\<close>

definition reg_outcome ::
  "'d kenv \<Rightarrow> u64 \<Rightarrow> 'd \<Rightarrow> bool \<Rightarrow> nat \<Rightarrow> byte list \<Rightarrow> byte list \<Rightarrow> int \<times> byte list list \<times> (nat \<Rightarrow> byte) \<times> 'd" where
  "reg_outcome K a d rd n f1 f2 =
     (case copy_from_user K d a 2 of (h, d1) \<Rightarrow>
        if \<not> access_ok K d1 a (4 + 2 * n) then (- EFAULT, [], (\<lambda>_. 0), d1)
        else case kzalloc K d1 of (ok, d2) \<Rightarrow>
          if \<not> ok then (- ENOMEM, [], (\<lambda>_. 0), d2)
          else case copy_from_user K d2 a (if rd then 2 else 2 + n) of (src, d3) \<Rightarrow> reg_exchange K d3 f1 f2)"

fun dev_ready :: "'d devsys \<Rightarrow> bool" where
  "dev_ready (K, s) \<longleftrightarrow> user_mem K \<and> apart K \<and> (\<exists>R A F H X bs. drv_inv s R A F H X bs) \<and>
     spi_hdlr s \<and> run_stat s = ADC_STOP"

fun dev_wrote :: "umem \<Rightarrow> u64 \<Rightarrow> 'd devsys \<Rightarrow> byte \<Rightarrow> u16 list \<Rightarrow> int \<Rightarrow> 'd devsys \<Rightarrow> bool" where
  "dev_wrote m p (K, s) a vs r (K', t) \<longleftrightarrow> K' = K \<and>
     (\<exists>fs rx d. reg_outcome K p (m, snd (dev s)) False (length vs)
        (trx_frame (reg_cmd CMD_WREG a (int (length vs))) vs (length vs + 2)) (trx_frame CMD_NULL [] 1) = (r, fs, rx, d) \<and>
        klog t = klog s @ map KSpi fs)"

lemma dev_readyI:
  "user_mem K \<Longrightarrow> apart K \<Longrightarrow> drv_inv s R A F H X bs \<Longrightarrow> spi_hdlr s \<Longrightarrow> run_stat s = ADC_STOP \<Longrightarrow> dev_ready (K, s)"
  unfolding dev_ready.simps by blast

text \<open>The words in the bytes received with the NULL frame.\<close>

definition reg_answer :: "(nat \<Rightarrow> byte) \<Rightarrow> nat \<Rightarrow> u16 list" where
  "reg_answer rx n = (if n = 1 then [dec_word (rx 0) (rx 1)] else rx_words rx n)"

fun dev_answered :: "umem \<Rightarrow> u64 \<Rightarrow> 'd devsys \<Rightarrow> byte \<Rightarrow> u16 list \<Rightarrow> int \<Rightarrow> 'd devsys \<Rightarrow> bool" where
  "dev_answered m p (K, s) a vs r (K', t) \<longleftrightarrow> K' = K \<and>
     (\<exists>fs rx d. reg_outcome K p (m, snd (dev s)) True (length vs)
        (trx_frame (reg_cmd CMD_RREG a (int (length vs))) [] 10) (trx_frame CMD_NULL [] (length vs + 2)) = (r, fs, rx, d) \<and>
        klog t = klog s @ map KSpi fs \<and> vs = (if r < 0 then replicate (length vs) 0 else reg_answer rx (length vs)))"

section \<open>The driver provides the register service\<close>

lemma decode_reg: "ioctl_decode (cmd_word CMD_WREG_nr) = CMD_WREG_nr" "ioctl_decode (cmd_word CMD_RREG_nr) = CMD_RREG_nr"
  by (simp_all add: ioctl_decode_code cmd_word_def)

text \<open>A request with a proper block is refused before the bus, or gets there.\<close>

lemma request_of_block:
  assumes K: "user_mem K" "apart K" and b: "m a = Some ([w, of_nat n] @ b)" "length b = n" and n: "1 \<le> n" "n \<le> 1024"
    and d: "dev s = (m, d)"
  obtains (refused) r rx d' where "r < 0" "reg_outcome K a (m, d) rd n f1 f2 = (r, [], rx, (m, d'))"
      "ioctl_reg K a rd f s = Some (r, s\<lparr>dev := (m, d')\<rparr>)"
    | (sent) src d3 where "reg_request K a (m, d) rd n src (m, d3)"
      "map src [0..<if rd then 2 else 2 + n] = (if rd then [w, of_nat n] else [w, of_nat n] @ b)"
      "reg_outcome K a (m, d) rd n f1 f2 = reg_exchange K (m, d3) f1 f2"
proof -
  let ?k = "if rd then 2 else 2 + n"
  have len: "2 \<le> length ([w, of_nat n] @ b)" "?k \<le> length ([w, of_nat n] @ b)" using b(2) by auto
  from K(1) b(1) len obtain h d1 where h: "copy_from_user K (m, d) a 2 = (Some h, m, d1)" "\<forall>i < 2. h i = ([w, of_nat n] @ b) ! i"
    unfolding user_mem_def by meson
  have "h 1 = of_nat n" using h(2) by simp
  then have hn: "unat (h 1) = n" using n(2) by (simp add: unat_of_nat take_bit_nat_eq_self)
  from K(2) obtain ok d2 where al: "kzalloc K (m, d1) = (ok, m, d2)" unfolding apart_def by meson
  consider (acc) "\<not> access_ok K (m, d1) a (4 + 2 * n)" | (mem) "access_ok K (m, d1) a (4 + 2 * n)" "\<not> ok"
    | (good) "access_ok K (m, d1) a (4 + 2 * n)" ok by blast
  then show thesis
  proof cases
    case acc
    show thesis
    proof (rule refused [of "- EFAULT" "\<lambda>_. 0" d1])
      show "ioctl_reg K a rd f s = Some (- EFAULT, s\<lparr>dev := (m, d1)\<rparr>)"
        using acc h(1) d n unfolding hn [symmetric] ioctl_reg_def Let_def kcall_def
        by (simp del: upt_Suc One_nat_def add_2_eq_Suc add_2_eq_Suc')
    qed (use acc h(1) in \<open>simp_all add: reg_outcome_def EFAULT_def\<close>)
  next
    case mem
    show thesis
    proof (rule refused [of "- ENOMEM" "\<lambda>_. 0" d2])
      show "ioctl_reg K a rd f s = Some (- ENOMEM, s\<lparr>dev := (m, d2)\<rparr>)"
        using mem h(1) al d n unfolding hn [symmetric] ioctl_reg_def Let_def kcall_def
        by (simp del: upt_Suc One_nat_def add_2_eq_Suc add_2_eq_Suc')
    qed (use mem h(1) al in \<open>simp_all add: reg_outcome_def ENOMEM_def\<close>)
  next
    case good
    from K(1) b(1) len obtain src d3 where
      src: "copy_from_user K (m, d2) a ?k = (Some src, m, d3)" "\<forall>i < ?k. src i = ([w, of_nat n] @ b) ! i"
      unfolding user_mem_def by meson
    have "reg_request K a (m, d) rd n src (m, d3)"
      unfolding reg_request_def
      by (intro exI [of _ h] exI [of _ "(m, d1)"] exI [of _ "(m, d2)"] conjI)
        (use h(1) al src(1) n hn good in \<open>simp_all del: One_nat_def\<close>)
    moreover have "map src [0..<?k] = take ?k ([w, of_nat n] @ b)"
      using src(2) len(2) by (intro nth_equalityI) simp_all
    then have "map src [0..<?k] = (if rd then [w, of_nat n] else [w, of_nat n] @ b)" using b(2) by simp
    moreover have "reg_outcome K a (m, d) rd n f1 f2 = reg_exchange K (m, d3) f1 f2"
      using h(1) al src(1) good by (simp add: reg_outcome_def)
    ultimately show thesis by (rule sent)
  qed
qed

lemma apart_spi: "apart K \<Longrightarrow> \<exists>r rx d'. spi_sync_transfer K (m, d) tx = (r, rx, m, d')"
  unfolding apart_def by blast

text \<open>A refused request changes nothing that matters.\<close>

lemma refused_block:
  assumes I: "drv_inv s R A F H X bs" "spi_hdlr s" "run_stat s = ADC_STOP"
  shows "drv_inv (s\<lparr>dev := d\<rparr>) R A F H X bs \<and> spi_hdlr (s\<lparr>dev := d\<rparr>) \<and> run_stat (s\<lparr>dev := d\<rparr>) = ADC_STOP \<and>
    klog (s\<lparr>dev := d\<rparr>) = klog s"
  using assms by simp

lemma wreg_block:
  assumes K: "user_mem K" "apart K" and I: "drv_inv s R A F H X bs" "spi_hdlr s" "run_stat s = ADC_STOP"
    and mem: "fst (dev s) = m" "m a = Some ([w, of_nat (length vs)] @ vs)" and n: "vs \<noteq> []" "length vs \<le> 680"
  shows "\<exists>r t X'. ads131m08_ioctl K CMD_WREG_nr a s = Some (r, t) \<and> fst (dev t) = m \<and> drv_inv t R A F H X' bs \<and>
    spi_hdlr t \<and> run_stat t = ADC_STOP \<and> dev_wrote m a (K, s) (ucast w) vs r (K, t)"
proof -
  let ?n = "length vs"
  let ?f1 = "trx_frame (reg_cmd CMD_WREG (ucast w) (int ?n)) vs (?n + 2)" and ?f2 = "trx_frame CMD_NULL [] 1"
  have n1: "1 \<le> ?n" "?n \<le> 1024" using n by (cases vs; simp)+
  obtain d where d: "dev s = (m, d)" using mem(1) by (cases "dev s") auto
  have io: "ads131m08_ioctl K CMD_WREG_nr a s = ioctl_reg K a False (ads131m08_reg_write K) s"
    using I(3) by (simp add: ads131m08_ioctl_def ads131m08_run_stat_def ADC_RUN_def ADC_STOP_def ioctl_wreg_def)
  from K mem(2) refl n1 d show ?thesis
  proof (cases rule: request_of_block [where rd = False and ?f1.0 = ?f1 and ?f2.0 = ?f2 and f = "ads131m08_reg_write K"])
    case (refused r rx d')
    with refused_block [OF I, of "(m, d')"] d show ?thesis unfolding io
      by (intro exI [of _ r] exI [of _ "s\<lparr>dev := (m, d')\<rparr>"] exI [of _ X]) simp
  next
    case (sent src d3)
    then have q: "reg_request K a (dev s) False ?n src (m, d3)"
      and kd: "map src [0..<2 + ?n] @ replicate 0 0 = [w, of_nat ?n] @ vs" using d by auto
    let ?s = "s\<lparr>dev := (m, d3)\<rparr>"
    have J: "drv_inv ?s R A F H X bs" "spi_hdlr ?s" using I by simp_all
    have P: "xfer_pool ?s (drv_lists R A F (Some X)) X" "X \<noteq> []"
      using J(1) by (simp_all add: drv_inv_pool) (simp add: drv_inv_def)
    have c: "1 \<le> int ?n" "int ?n \<le> 680" "nat (int ?n) \<le> length vs" using n1 n(2) by simp_all
    let ?f = "trx_frame (reg_cmd CMD_WREG (ucast w) (int ?n)) (take (nat (int ?n)) vs) (nat (int ?n) + 2)"
    from apart_spi [OF K(2), of m d3 ?f] obtain r1 rx1 d4 where
      io1: "spi_sync_transfer K (dev ?s) ?f = (r1, rx1, m, d4)" by auto
    from apart_spi [OF K(2), of m d4 ?f2] obtain r2 rx2 d5 where
      io2: "spi_sync_transfer K (m, d4) ?f2 = (r2, rx2, m, d5)" by auto
    let ?r = "if r1 < 0 then r1 else r2" let ?ev = "KSpi ?f1 # (if r1 < 0 then [] else [KSpi ?f2])"
    from reg_write_ok [OF P J(2) c io1 io2] obtain t ys where
      t: "ads131m08_reg_write K (ucast w) (int ?n) vs ?s = Some (?r, vs, t)" "fst (dev t) = m"
      and ps: "pool_step ?s (drv_lists R A F (Some X)) X ?ev t ys"
      by (auto simp del: One_nat_def split: if_splits)
    have u: "uint (of_nat ?n :: u16) = int ?n" using n(2) by (simp add: unsigned_of_nat take_bit_nat_eq_self uint_nat)
    have "ioctl_reg K a False (ads131m08_reg_write K) s
        = ioctl_reg_call K a False (ads131m08_reg_write K) ([w, of_nat ?n] @ vs) ?s"
      using ioctl_reg_request [OF q, of "ads131m08_reg_write K"] kd by simp
    also have "\<dots> = Some (if ?r < 0 then ?r else 0, t)" using t(1) u by (simp add: ioctl_reg_call_def)
    finally have i: "ads131m08_ioctl K CMD_WREG_nr a s = Some (if ?r < 0 then ?r else 0, t)" using io by simp
    from pool_step_drv [OF J(1) ps] have D: "drv_inv t R A F H ys bs" and ds: "drv_step ?s X ?ev t ys" by simp_all
    have st: "spi_hdlr t" "run_stat t = ADC_STOP"
      using ds I(2,3) ctl_fields [of t ?s] by (simp_all add: drv_step_def)
    have "\<exists>rx d'. reg_outcome K a (m, snd (dev s)) False ?n ?f1 ?f2 =
        (if ?r < 0 then ?r else 0, if r1 < 0 then [?f1] else [?f1, ?f2], rx, d')"
      using sent(3) d io1 io2 by (auto simp: reg_exchange_def simp del: One_nat_def)
    moreover have "klog t = klog s @ map KSpi (if r1 < 0 then [?f1] else [?f1, ?f2])" using ps by (simp add: pool_step_def)
    ultimately have "dev_wrote m a (K, s) (ucast w) vs (if ?r < 0 then ?r else 0) (K, t)"
      unfolding dev_wrote.simps by blast
    with i t(2) D st show ?thesis by blast
  qed
qed

lemma rreg_block:
  assumes K: "user_mem K" "apart K" and I: "drv_inv s R A F H X bs" "spi_hdlr s" "run_stat s = ADC_STOP"
    and mem: "fst (dev s) = m" "m a = Some ([w, of_nat n] @ replicate n 0)" and n: "1 \<le> n" "n \<le> 680"
  shows "\<exists>r vs t X'. ads131m08_ioctl K CMD_RREG_nr a s = Some (r, t) \<and> fst (dev t) = m(a \<mapsto> [w, of_nat n] @ vs) \<and>
    length vs = n \<and> drv_inv t R A F H X' bs \<and> spi_hdlr t \<and> run_stat t = ADC_STOP \<and>
    dev_answered m a (K, s) (ucast w) vs r (K, t)"
proof -
  let ?f1 = "trx_frame (reg_cmd CMD_RREG (ucast w) (int n)) [] 10" and ?f2 = "trx_frame CMD_NULL [] (n + 2)"
  let ?z = "replicate n (0 :: u16)"
  obtain d where d: "dev s = (m, d)" using mem(1) by (cases "dev s") auto
  have n1: "n \<le> 1024" using n(2) by simp
  have same: "m(a \<mapsto> [w, of_nat n] @ ?z) = m" using mem(2) by auto
  have io: "ads131m08_ioctl K CMD_RREG_nr a s = ioctl_reg K a True (ads131m08_reg_read K) s"
    using I(3) by (simp add: ads131m08_ioctl_def ads131m08_run_stat_def ADC_RUN_def ADC_STOP_def ioctl_rreg_def)
  from K mem(2) length_replicate n(1) n1 d show ?thesis
  proof (cases rule: request_of_block [where rd = True and ?f1.0 = ?f1 and ?f2.0 = ?f2 and f = "ads131m08_reg_read K"])
    case (refused r rx d')
    then have "dev_answered m a (K, s) (ucast w) ?z r (K, s\<lparr>dev := (m, d')\<rparr>)" using d by simp
    with refused refused_block [OF I, of "(m, d')"] same show ?thesis unfolding io
      by (intro exI [of _ r] exI [of _ ?z] exI [of _ "s\<lparr>dev := (m, d')\<rparr>"] exI [of _ X]) simp
  next
    case (sent src d3)
    then have q: "reg_request K a (dev s) True n src (m, d3)" and hdr: "map src [0..<2] = [w, of_nat n]" using d by simp_all
    have src: "src 0 = w" "src 1 = of_nat n" using hdr by (simp_all add: numeral_2_eq_2)
    then have cnt: "unat (src 1) = n" using n(2) by (simp add: unat_of_nat take_bit_nat_eq_self)
    from apart_spi [OF K(2), of m d3 ?f1] obtain r1 rx1 d4 where
      io1: "spi_sync_transfer K (m, d3) ?f1 = (r1, rx1, m, d4)" by auto
    from apart_spi [OF K(2), of m d4 ?f2] obtain r2 rx2 d5 where
      io2: "spi_sync_transfer K (m, d4) ?f2 = (r2, rx2, m, d5)" by auto
    let ?ws = "reg_answer rx2 n"
    have len: "length ?ws = n" using n(1) by (simp add: reg_answer_def rx_words_def)
    have "length [w, of_nat n] = 2" "length ?ws = length ?z" using len by simp_all
    with K(1) mem(2) obtain d6 where
      cu: "copy_to_user K (m, d5) (a + 4) ?ws = (True, m(a \<mapsto> [w, of_nat n] @ ?ws), d6)"
      unfolding user_mem_def by meson
    let ?r = "if r1 < 0 then r1 else if r2 < 0 then r2 else 0" let ?vs = "if ?r < 0 then ?z else ?ws"
    let ?fs = "if r1 < 0 then [?f1] else [?f1, ?f2]"
    from ioctl_rreg_any [OF I q cnt n(2) io1 [folded src(1)] io2 cu [unfolded reg_answer_def]] obtain t X' where
      t: "ads131m08_ioctl K CMD_RREG_nr a s = Some (?r, t)" "drv_inv t R A F H X' bs"
      and dt: "dev t = (if r1 < 0 then (m, d4) else if r2 < 0 then (m, d5) else (m(a \<mapsto> [w, of_nat n] @ ?ws), d6))"
      and ks: "klog t = klog s @ KSpi ?f1 # (if r1 < 0 then [] else [KSpi ?f2])" and st: "spi_hdlr t" "run_stat t = ADC_STOP"
      unfolding reg_answer_def [symmetric] if_True src(1) by blast
    have l: "length ?vs = n" using len by simp
    have ft: "fst (dev t) = m(a \<mapsto> [w, of_nat n] @ ?vs)" unfolding dt using same by auto
    have "\<exists>d'. reg_outcome K a (m, snd (dev s)) True n ?f1 ?f2 = (?r, ?fs, if r1 < 0 then rx1 else rx2, d')"
      using sent(3) d io1 io2 by (auto simp: reg_exchange_def)
    moreover have "klog t = klog s @ map KSpi ?fs" using ks by simp
    moreover have "?vs = (if ?r < 0 then ?z else reg_answer (if r1 < 0 then rx1 else rx2) n)" by simp
    ultimately have "dev_answered m a (K, s) (ucast w) ?vs ?r (K, t)" unfolding dev_answered.simps l by blast
    with t st ft l show ?thesis by blast
  qed
qed

interpretation dev: reg_service
  "dev_ioctl :: umem \<Rightarrow> 'd devsys \<Rightarrow> _" dev_ready dev_wrote dev_answered
proof unfold_locales
  fix ks :: "'d devsys" and m :: umem and a w vs fd
  assume rdy: "dev_ready ks" and b: "m a = Some ([w, of_nat (length vs)] @ vs)" and n: "vs \<noteq> []" "length vs \<le> 680"
  obtain K s where ks: "ks = (K, s)" by (cases ks)
  with rdy obtain R A F H X bs where r: "user_mem K" "apart K" "drv_inv s R A F H X bs" "spi_hdlr s"
    "run_stat s = ADC_STOP" by auto
  let ?s = "s\<lparr>dev := (m, snd (dev s))\<rparr>"
  have J: "drv_inv ?s R A F H X bs" "spi_hdlr ?s" "run_stat ?s = ADC_STOP" "fst (dev ?s) = m" using r by simp_all
  from wreg_block [OF r(1,2) J b n] obtain rc t X' where
    t: "ads131m08_ioctl K CMD_WREG_nr a ?s = Some (rc, t)" "fst (dev t) = m" "drv_inv t R A F H X' bs" "spi_hdlr t"
      "run_stat t = ADC_STOP" "dev_wrote m a (K, ?s) (ucast w) vs rc (K, t)" by blast
  then have "dev_ready (K, t)" using r(1,2) dev_readyI by blast
  then show "\<exists>r t. dev_ioctl m ks fd (cmd_word CMD_WREG_nr) a = Some (r, m, t) \<and>
      dev_ready t \<and> dev_wrote m a ks (ucast w) vs r t"
    using t unfolding ks by (intro exI [of _ rc] exI [of _ "(K, t)"]) (simp add: decode_reg)
next
  fix ks :: "'d devsys" and m :: umem and a w n fd
  assume rdy: "dev_ready ks" and b: "m a = Some ([w, of_nat n] @ replicate n 0)" and n: "1 \<le> n" "n \<le> 680"
  obtain K s where ks: "ks = (K, s)" by (cases ks)
  with rdy obtain R A F H X bs where r: "user_mem K" "apart K" "drv_inv s R A F H X bs" "spi_hdlr s"
    "run_stat s = ADC_STOP" by auto
  let ?s = "s\<lparr>dev := (m, snd (dev s))\<rparr>"
  have J: "drv_inv ?s R A F H X bs" "spi_hdlr ?s" "run_stat ?s = ADC_STOP" "fst (dev ?s) = m" using r by simp_all
  from rreg_block [OF r(1,2) J b n] obtain rc vs t X' where
    t: "ads131m08_ioctl K CMD_RREG_nr a ?s = Some (rc, t)" "fst (dev t) = m(a \<mapsto> [w, of_nat n] @ vs)" "length vs = n"
      "drv_inv t R A F H X' bs" "spi_hdlr t" "run_stat t = ADC_STOP" "dev_answered m a (K, ?s) (ucast w) vs rc (K, t)" by blast
  then have "dev_ready (K, t)" using r(1,2) dev_readyI by blast
  then show "\<exists>r vs t. dev_ioctl m ks fd (cmd_word CMD_RREG_nr) a =
      Some (r, m(a \<mapsto> [w, of_nat n] @ vs), t) \<and> length vs = n \<and> dev_ready t \<and> dev_answered m a ks (ucast w) vs r t"
    using t unfolding ks by (intro exI [of _ rc] exI [of _ vs] exI [of _ "(K, t)"]) (simp add: decode_reg)
qed

section \<open>A running system\<close>

definition k_user :: "(umem \<times> unit) kenv" where
  "k_user = k_base\<lparr>
     copy_from_user := (\<lambda>(m, d) p n. (case m p of
        None \<Rightarrow> (None, m, d) | Some b \<Rightarrow> (Some (\<lambda>i. if i < length b then b ! i else 0), m, d))),
     copy_to_user := (\<lambda>(m, d) p ws. (case m (p - 4) of
        None \<Rightarrow> (False, m, d) | Some b \<Rightarrow> (True, m(p - 4 \<mapsto> take 2 b @ ws @ drop (2 + length ws) b), d)))\<rparr>"

lemma k_user_mem: "user_mem k_user"
  by (auto simp: user_mem_def k_user_def)

lemma k_user_apart: "apart k_user"
  by (auto simp: apart_def k_user_def k_base_def)

lemma k_user_up:
  "\<exists>s. dev_ready (k_user, s)"
proof -
  let ?d = "(Map.empty, ()) :: umem \<times> unit"
  have "willing k_user" by (simp add: willing_def spi_mode_setup_def k_user_def k_base_def)
  from probe_willing [OF this drv_off_empty [of ?d]] obtain t where
    t: "ads131m08_probe k_user (drv_off ?d) = Some (SUCCESS, t)" by blast
  from probe_ok [OF drv_off_empty, of k_user ?d] t obtain evs where "probe_ready k_user (drv_off ?d) t evs"
    by (auto simp: k_user_def k_base_def)
  then obtain X where "sys_inv t [] [] [0..<CHUNK_BUF_CNT] [] X (replicate CHUNK_BUF_CNT fresh_chunk_buf)"
    "run_stat t = ADC_STOP" by (auto simp: probe_ready_def)
  then have "dev_ready (k_user, t)" using dev_readyI [OF k_user_mem k_user_apart] unfolding sys_inv_def by blast
  then show ?thesis by blast
qed

definition e_user :: "unit devsys uenv" where
  "e_user = \<lparr>sys_ioctl = dev_ioctl, sys_read = (\<lambda>s fd n. (0, [], s)), calloc = (\<lambda>m n. Some 4096)\<rparr>"

lemma reg_outcome_frames:
  assumes "reg_outcome K a d rd n f1 f2 = (r, fs, rx, d')"
  shows "r = 0 \<and> fs = [f1, f2] \<or> r < 0 \<and> (fs = [] \<or> fs = [f1] \<or> fs = [f1, f2])"
  using assms by (auto simp: reg_outcome_def reg_exchange_def EFAULT_def ENOMEM_def split: prod.splits if_splits)

section \<open>Properties\<close>

text \<open>C38: from the prompt to the bus: a line \<open>wreg A V1 ... Vn\<close> (one to eight values) typed into the test
  program while the device is stopped. If the kernel grants the request and both transfers are
  good exactly two frames go out, the WREG command for address A and count n with the values read
  as hexadecimal numbers modulo \<open>2 ^ 16\<close>, then NULL, and the program prints the table of what it wrote.
  If the first transfer fails only the first frame goes out, if \<open>kzalloc\<close> or \<open>access_ok\<close> refuses none
  (\<open>reg_outcome\<close>, a function of the kernel from the state the ioctl finds it in); then the program prints
  the error and no table. Either way it frees its block and the driver stays ready. Assumed: \<open>calloc\<close>
  gives a block, the user-memory calls work on a mapped block as documented, and neither bus nor
  allocator writes to the process (\<open>dev_ready\<close>).\<close>

theorem shell_wreg_bus:
  assumes line: "words delims line = ''wreg'' # a0 # vs" "vs \<noteq> []" "length vs \<le> 8"
    and E: "sys_ioctl E = dev_ioctl" "calloc E (heapm p) (4 + 2 * length vs) = Some a"
    and sys: "sys p = (K, s)" "dev_ready (K, s)"
  defines "ws \<equiv> map (\<lambda>s. ucast (strtoul 16 s)) vs"
  defines "b \<equiv> [of_int (atoi a0), of_nat (length vs)] @ ws"
  defines "f1 \<equiv> trx_frame (reg_cmd CMD_WREG (ucast (of_int (atoi a0) :: u16)) (int (length vs))) ws (length vs + 2)"
  shows "\<exists>r fs rx d t.
    reg_outcome K a ((heapm p)(a \<mapsto> b), snd (dev s)) False (length vs) f1 (trx_frame CMD_NULL [] 1) = (r, fs, rx, d) \<and>
    (r = 0 \<and> fs = [f1, trx_frame CMD_NULL [] 1] \<or> r < 0 \<and> (fs = [] \<or> fs = [f1] \<or> fs = [f1, trx_frame CMD_NULL [] 1])) \<and>
    parse_cmd E line fd p =
      Some (Ret (print (if r < 0 then [OFail (- r)] else table_head @ reg_rows (atoi a0) b (length vs))
        (p\<lparr>heapm := (heapm p)(a := None), sys := (K, t)\<rparr>))) \<and>
    dev_ready (K, t) \<and> klog t = klog s @ map KSpi fs"
proof -
  have rdy: "dev_ready (sys p)" using sys by simp
  from dev.typed_wreg [OF line E rdy, of fd, folded ws_def, folded b_def] obtain r ks where
    q: "parse_cmd E line fd p =
      Some (Ret (print (if r < 0 then [OFail (- r)] else table_head @ reg_rows (atoi a0) b (length vs))
        (p\<lparr>heapm := (heapm p)(a := None), sys := ks\<rparr>)))"
    and w: "dev_ready ks" "dev_wrote ((heapm p)(a \<mapsto> b)) a (sys p) (ucast (of_int (atoi a0) :: u16)) ws r ks" by blast
  obtain K' t where ks: "ks = (K', t)" by (cases ks)
  have l: "length ws = length vs" by (simp add: ws_def)
  from w(2) obtain fs rx d where o: "K' = K"
    "reg_outcome K a ((heapm p)(a \<mapsto> b), snd (dev s)) False (length vs) f1 (trx_frame CMD_NULL [] 1) = (r, fs, rx, d)"
    "klog t = klog s @ map KSpi fs" unfolding ks sys(1) dev_wrote.simps l f1_def by blast
  from reg_outcome_frames [OF o(2)] o q w(1) show ?thesis unfolding ks by blast
qed

text \<open>The line \<open>wreg 2 1A 0x2b\<close> with a kernel that grants everything.\<close>

lemma k_user_outcome:
  "\<exists>d'. reg_outcome k_user a (m, d) rd n f1 f2 = (0, [f1, f2], (\<lambda>i. of_nat (3 * i)), d')"
  by (auto simp: reg_outcome_def reg_exchange_def k_user_def k_base_def split: option.splits)

theorem shell_wreg_bus_witness:
  "\<exists>s t q. parse_cmd e_user (''wreg 2 1A 0x2b'' @ [CHR 0x0A]) 3 (p0 (k_user, s)) = Some (Ret q) \<and> sys q = (k_user, t) \<and>
     klog t = klog s @ [KSpi (trx_frame (reg_cmd CMD_WREG 2 2) [0x1A, 0x2B] 4), KSpi (trx_frame CMD_NULL [] 1)]"
proof -
  obtain s where s: "dev_ready (k_user, s)" using k_user_up by blast
  have w: "words delims (''wreg 2 1A 0x2b'' @ [CHR 0x0A]) = ''wreg'' # ''2'' # [''1A'', ''0x2b'']" by (simp add: delims_def)
  have v: "atoi ''2'' = 2" "strtoul 16 ''1A'' = 0x1A" "strtoul 16 ''0x2b'' = 0x2B"
    by (simp_all add: atoi_def strtoul_def strto_parts_def is_space_def digits_def digit_val_def int32_id)
  have e: "calloc e_user (heapm (p0 (k_user, s))) (4 + 2 * length [''1A'', ''0x2b'']) = Some 4096"
    "sys_ioctl e_user = dev_ioctl" "sys (p0 (k_user, s)) = (k_user, s)" by (simp_all add: e_user_def p0_def)
  have n: "length [''1A'', ''0x2b''] = 2" "int 2 = 2" "ucast (2 :: u16) = (2 :: byte)" "of_int 2 = (2 :: u16)"
    "of_nat 2 = (2 :: u16)" "(2 :: nat) + 2 = 4" "[''1A'', ''0x2b''] \<noteq> []" "(2 :: nat) \<le> 8"
    "ucast (0x1A :: u64) = (0x1A :: u16)" "ucast (0x2B :: u64) = (0x2B :: u16)" by simp_all
  let ?f = "[trx_frame (reg_cmd CMD_WREG 2 2) [0x1A, 0x2B] 4, trx_frame CMD_NULL [] 1]"
  from shell_wreg_bus [OF w n(7) _ e(2,1,3) s, of 3, unfolded n(1), OF n(8), unfolded v n list.map] obtain r fs rx d t where
    o: "reg_outcome k_user 4096 ((heapm (p0 (k_user, s)))(4096 \<mapsto> [2, 2] @ [0x1A, 0x2B]), snd (dev s)) False 2
      (?f ! 0) (?f ! 1) = (r, fs, rx, d)"
    and q: "parse_cmd e_user (''wreg 2 1A 0x2b'' @ [CHR 0x0A]) 3 (p0 (k_user, s)) =
      Some (Ret (print (if r < 0 then [OFail (- r)] else table_head @ reg_rows 2 ([2, 2] @ [0x1A, 0x2B]) 2)
        ((p0 (k_user, s))\<lparr>heapm := (heapm (p0 (k_user, s)))(4096 := None), sys := (k_user, t)\<rparr>)))"
    and k: "klog t = klog s @ map KSpi fs" by auto
  from k_user_outcome [of 4096 "(heapm (p0 (k_user, s)))(4096 \<mapsto> [2, 2] @ [0x1A, 0x2B])" "snd (dev s)" False 2 "?f ! 0" "?f ! 1"] o
  have "fs = ?f" by auto
  with k have k2: "klog t = klog s @
     [KSpi (trx_frame (reg_cmd CMD_WREG 2 2) [0x1A, 0x2B] 4), KSpi (trx_frame CMD_NULL [] 1)]" by simp
  show ?thesis by (intro exI conjI, rule q, simp, rule k2)
qed

text \<open>C39: and back: a line \<open>rreg A N\<close> (1 to 680 registers) sends the RREG command for address A and
  count N and, if its transfer is good, a NULL command. If that is good too, the table printed has
  N rows, from address A on, with exactly the words received with this NULL command (with one
  register, its status word): \<open>reg_outcome\<close> follows the device from the state the ioctl finds it in
  through the user-memory calls, the RREG frame and the NULL frame, whose bytes \<open>rx\<close> are. If anything
  fails the error is printed, and then the table all the same, of zeros. Assumed as in C38: \<open>calloc\<close>
  gives a block, the user-memory calls work as documented, nobody else writes to the process.\<close>

theorem shell_rreg_prints:
  assumes line: "words delims line = [''rreg'', a0, a1]" and n: "atoi a1 = int n" "1 \<le> n" "n \<le> 680"
    and E: "sys_ioctl E = dev_ioctl" "calloc E (heapm p) (4 + 2 * n) = Some a"
    and sys: "sys p = (K, s)" "dev_ready (K, s)"
  defines "h \<equiv> [of_int (atoi a0), of_nat n]"
  defines "f1 \<equiv> trx_frame (reg_cmd CMD_RREG (ucast (of_int (atoi a0) :: u16)) (int n)) [] 10"
    and "f2 \<equiv> trx_frame CMD_NULL [] (n + 2)"
  shows "\<exists>r fs rx d t.
    reg_outcome K a ((heapm p)(a \<mapsto> h @ replicate n 0), snd (dev s)) True n f1 f2 = (r, fs, rx, d) \<and>
    (r = 0 \<and> fs = [f1, f2] \<or> r < 0 \<and> (fs = [] \<or> fs = [f1] \<or> fs = [f1, f2])) \<and>
    parse_cmd E line fd p =
      Some (Ret (print ((if r < 0 then [OFail (- r)] else []) @ table_head @
          reg_rows (atoi a0) (h @ (if r < 0 then replicate n 0 else reg_answer rx n)) n)
        (p\<lparr>heapm := (heapm p)(a := None), sys := (K, t)\<rparr>))) \<and>
    dev_ready (K, t) \<and> klog t = klog s @ map KSpi fs"
proof -
  have rdy: "dev_ready (sys p)" using sys by simp
  from dev.typed_rreg [OF line n E rdy, of fd, folded h_def] obtain r ws ks where
    q: "parse_cmd E line fd p =
      Some (Ret (print ((if r < 0 then [OFail (- r)] else []) @ table_head @ reg_rows (atoi a0) (h @ ws) n)
        (p\<lparr>heapm := (heapm p)(a := None), sys := ks\<rparr>)))"
    and w: "length ws = n" "dev_ready ks"
      "dev_answered ((heapm p)(a \<mapsto> h @ replicate n 0)) a (sys p) (ucast (of_int (atoi a0) :: u16)) ws r ks" by blast
  obtain K' t where ks: "ks = (K', t)" by (cases ks)
  from w(3) obtain fs rx d where o: "K' = K"
    "reg_outcome K a ((heapm p)(a \<mapsto> h @ replicate n 0), snd (dev s)) True n f1 f2 = (r, fs, rx, d)"
    "klog t = klog s @ map KSpi fs" "ws = (if r < 0 then replicate n 0 else reg_answer rx n)"
    unfolding ks sys(1) dev_answered.simps w(1) f1_def f2_def by blast
  from reg_outcome_frames [OF o(2)] o(1-3) q [unfolded o(4)] w(2) show ?thesis unfolding ks by blast
qed

theorem shell_rreg_prints_witness:
  "\<exists>s t. parse_cmd e_user (''rreg 2 1'' @ [CHR 0x0A]) 3 (p0 (k_user, s)) =
     Some (Ret (print (table_head @ [ORow 2 0x0003]) (p0 (k_user, t))))"
proof -
  obtain s where s: "dev_ready (k_user, s)" using k_user_up by blast
  have w: "words delims (''rreg 2 1'' @ [CHR 0x0A]) = [''rreg'', ''2'', ''1'']" by (simp add: delims_def)
  have v: "atoi ''2'' = 2" "atoi ''1'' = int 1"
    by (simp_all add: atoi_def strto_parts_def is_space_def digits_def digit_val_def int32_id)
  have e: "calloc e_user (heapm (p0 (k_user, s))) (4 + 2 * 1) = Some 4096"
    "sys_ioctl e_user = dev_ioctl" "sys (p0 (k_user, s)) = (k_user, s)" by (simp_all add: e_user_def p0_def)
  let ?p = "p0 (k_user, s)"
  let ?f1 = "trx_frame (reg_cmd CMD_RREG (ucast (of_int (atoi ''2'') :: u16)) (int 1)) [] 10" and ?f2 = "trx_frame CMD_NULL [] (1 + 2)"
  let ?h = "[of_int (atoi ''2''), of_nat 1] :: u16 list"
  from shell_rreg_prints [OF w v(2) _ _ e(2,1,3) s, of 3] obtain r fs rx d t where
    o: "reg_outcome k_user 4096 ((heapm ?p)(4096 \<mapsto> ?h @ replicate 1 0), snd (dev s)) True 1 ?f1 ?f2 = (r, fs, rx, d)"
    and q: "parse_cmd e_user (''rreg 2 1'' @ [CHR 0x0A]) 3 ?p =
      Some (Ret (print ((if r < 0 then [OFail (- r)] else []) @ table_head @
          reg_rows (atoi ''2'') (?h @ (if r < 0 then replicate 1 0 else reg_answer rx 1)) 1)
        (?p\<lparr>heapm := (heapm ?p)(4096 := None), sys := (k_user, t)\<rparr>)))" by auto
  from k_user_outcome [of 4096 "(heapm ?p)(4096 \<mapsto> ?h @ replicate 1 0)" "snd (dev s)" True 1 ?f1 ?f2] o
  have r: "r = 0" "rx = (\<lambda>i. of_nat (3 * i))" by auto
  then have "reg_answer rx 1 = [3]" by (simp add: reg_answer_def dec_word_def)
  then have "reg_rows (atoi ''2'') (?h @ (if r < 0 then replicate 1 0 else reg_answer rx 1)) 1 = [ORow 2 3]"
    using r(1) by (simp add: reg_rows_def int32_id v(1))
  moreover have "?p\<lparr>heapm := (heapm ?p)(4096 := None), sys := (k_user, t)\<rparr> = p0 (k_user, t)" by (simp add: p0_def)
  ultimately show ?thesis using q r(1) by auto
qed

end
