(* ===== verification/Stages.thy ===== *)
theory Stages
  imports Iface
begin

text \<open>
  The interrupt thread and \<open>ads131m08_run_cmd\<close> cut into the stages between which other contexts
  run: each stage makes at most one access to what is shared, a list, the transfer pool, the bus,
  the run state or the interrupt line. Run one after the other the stages are the functions of
  theory Acquire.
\<close>

section \<open>The interrupt thread\<close>

text \<open>Where the thread is: the handler has run and woken it (\<open>Woken\<close>), the active list was empty,
  both lists were empty, it holds chunk \<open>b\<close>, has stamped it, has attached transfer buffer \<open>x\<close>, has
  exchanged the frame, has stored the sample; the chunk is full, and the two statements of
  \<open>ads131m08_chunk_buf_ready\<close> are one stage each (\<open>Full\<close>, \<open>Notify\<close>): what others do between them matters
  to a reader that falls asleep; or the chunk goes back to the active list, not full or after an
  error.\<close>

datatype irq_pc =
    Idle | Woken | NoActive | NoBuf | Got nat | Stamped nat | Armed nat nat | Sent nat nat int
  | Filled nat | Full nat | Notify nat | Back nat

fun irq_next :: "'d kenv \<Rightarrow> irq_pc \<Rightarrow> 'd drv \<Rightarrow> (irq_pc \<times> 'd drv) option" where
  "irq_next K Idle s = Some (Idle, s)"
| "irq_next K Woken s = do {
     (a, s) \<leftarrow> list_fetch (active_list s) s;
     (case a of None \<Rightarrow> Some (NoActive, s) | Some ob \<Rightarrow> do { b \<leftarrow> as_chunk ob; Some (Got b, s) }) }"
| "irq_next K NoActive s = do {
     (a, s) \<leftarrow> list_fetch (free_list s) s;
     (case a of None \<Rightarrow> Some (NoBuf, s) | Some ob \<Rightarrow> do { b \<leftarrow> as_chunk ob; Some (Got b, s) }) }"
| "irq_next K NoBuf s = Some (Idle, snd (ads131m08_read_data_discard K (s\<lparr>drop_cnt := drop_cnt s + 1\<rparr>)))"
| "irq_next K (Got b) s = do { s \<leftarrow> irq_stamp b s; Some (Stamped b, s) }"
| "irq_next K (Stamped b) s =
     (if \<not> spi_hdlr s then Some (Back b, s)
      else do {
        (x, s) \<leftarrow> rd_arm b s;
        (case x of None \<Rightarrow> Some (Back b, s) | Some x \<Rightarrow> Some (Armed b x, s)) })"
| "irq_next K (Armed b x) s = do { (ret, s) \<leftarrow> rd_trx K x s; Some (Sent b x ret, s) }"
| "irq_next K (Sent b x ret) s =
     (if ret < 0 then do { s \<leftarrow> rd_fail b x s; Some (Back b, s) }
      else do { (stored, s) \<leftarrow> rd_store b s; Some (if stored then Filled b else Idle, s) })"
| "irq_next K (Filled b) s = do { (ready, s) \<leftarrow> rd_count b s; Some (if ready then Full b else Back b, s) }"
| "irq_next K (Full b) s = do { s \<leftarrow> (chunk_buf_ready_stmts (Some b) ! 0) s; Some (Notify b, s) }"
| "irq_next K (Notify b) s = do { s \<leftarrow> (chunk_buf_ready_stmts (Some b) ! 1) s; Some (Idle, s) }"
| "irq_next K (Back b) s = do { s \<leftarrow> ads131m08_chunk_buf_active (Some b) s; Some (Idle, s) }"

fun irq_run :: "'d kenv \<Rightarrow> nat \<Rightarrow> irq_pc \<Rightarrow> 'd drv \<Rightarrow> (irq_pc \<times> 'd drv) option" where
  "irq_run K 0 pc s = Some (pc, s)"
| "irq_run K (Suc n) pc s = do { (pc, s) \<leftarrow> irq_next K pc s; irq_run K n pc s }"

lemma irq_run_Idle [simp]: "irq_run K n Idle s = Some (Idle, s)"
  by (induction n) simp_all

text \<open>With a chunk in hand the remaining stages are the rest of the thread.\<close>

lemma irq_run_Back:
  "irq_run K (Suc n) (Back b) s = map_option (Pair Idle) (ads131m08_chunk_buf_active (Some b) s)"
  by (cases "ads131m08_chunk_buf_active (Some b) s") simp_all

lemma irq_run_Full:
  "irq_run K (Suc (Suc n)) (Full b) s = map_option (Pair Idle) (ads131m08_chunk_buf_ready (Some b) s)"
proof (cases "list_append (ready_list s) (Some (Chunk b)) s")
  case (Some t)
  then show ?thesis by (cases "ads131m08_iface_wakeup t") (simp_all add: chunk_buf_ready_eq chunk_buf_ready_stmts_def)
qed (simp add: chunk_buf_ready_eq chunk_buf_ready_stmts_def)

lemma irq_run_Filled: "irq_run K (Suc (Suc (Suc n))) (Filled b) s = map_option (Pair Idle) (rd_done b s)"
proof (cases "rd_count b s")
  case (Some p)
  obtain ready t where p: "p = (ready, t)" by (cases p)
  have "irq_run K (Suc (Suc (Suc n))) (Filled b) s = irq_run K (Suc (Suc n)) (if ready then Full b else Back b) t"
    using Some p by (simp del: irq_run.simps(2) add: irq_run.simps(2) [of K "Suc (Suc n)"])
  with Some p show ?thesis
    by (cases ready) (simp_all add: irq_run_Full irq_run_Back rd_done_def del: irq_run.simps(2))
qed (simp add: rd_done_def)

lemma irq_run_Sent:
  "irq_run K (Suc (Suc (Suc (Suc n)))) (Sent b x ret) s =
     map_option (Pair Idle) (if ret < 0 then do { s \<leftarrow> rd_fail b x s; ads131m08_chunk_buf_active (Some b) s }
      else xfer_complete b s)"
proof -
  have u: "irq_run K (Suc (Suc (Suc (Suc n)))) (Sent b x ret) s =
      do { (pc, s) \<leftarrow> irq_next K (Sent b x ret) s; irq_run K (Suc (Suc (Suc n))) pc s }" by (rule irq_run.simps(2))
  show ?thesis
  proof (cases "ret < 0")
    case False
    show ?thesis
    proof (cases "rd_store b s")
      case (Some p)
      obtain stored t where p: "p = (stored, t)" by (cases p)
      have "irq_run K (Suc (Suc (Suc (Suc n)))) (Sent b x ret) s
          = irq_run K (Suc (Suc (Suc n))) (if stored then Filled b else Idle) t"
        unfolding u using Some p False by (simp del: irq_run.simps(2))
      with Some p False show ?thesis
        by (cases stored) (simp_all add: irq_run_Filled xfer_complete_stages del: irq_run.simps(2))
    qed (use False in \<open>simp add: xfer_complete_stages\<close>)
  next
    case True
    then show ?thesis unfolding u
      by (cases "rd_fail b x s") (simp_all add: irq_run_Back del: irq_run.simps(2))
  qed
qed

definition irq_work :: "'d kenv \<Rightarrow> nat \<Rightarrow> 'd drv \<Rightarrow> 'd drv option" where
  "irq_work K b s = do {
     s \<leftarrow> irq_stamp b s;
     (ret, s) \<leftarrow> ads131m08_read_data K (Some b) s;
     (if ret < 0 then ads131m08_chunk_buf_active (Some b) s else Some s) }"

lemma irq_run_Got: "irq_run K 7 (Got b) s = map_option (Pair Idle) (irq_work K b s)"
proof -
  have seven: "(7 :: nat) = Suc (Suc (Suc (Suc (Suc (Suc (Suc 0))))))" by simp
  have rest: "irq_run K (Suc (Suc (Suc (Suc (Suc (Suc 0)))))) (Stamped b) t = map_option (Pair Idle) (do {
     (ret, s) \<leftarrow> ads131m08_read_data K (Some b) t;
     (if ret < 0 then ads131m08_chunk_buf_active (Some b) s else Some s) })" for t
  proof (cases "spi_hdlr t")
    case True
    show ?thesis
    proof (cases "rd_arm b t")
      case (Some p)
      obtain x u where p: "p = (x, u)" by (cases p)
      show ?thesis
      proof (cases x)
        case None
        with True Some p show ?thesis
          by (cases "ads131m08_chunk_buf_active (Some b) u") (simp_all add: read_data_stages ENOMEM_def)
      next
        case (Some x')
        show ?thesis
        proof (cases "rd_trx K x' u")
          case (Some q)
          obtain ret v where q: "q = (ret, v)" by (cases q)
          have "irq_run K (Suc (Suc (Suc (Suc (Suc (Suc 0)))))) (Stamped b) t = irq_run K (Suc (Suc (Suc (Suc 0)))) (Sent b x' ret) v"
            using True \<open>rd_arm b t = Some p\<close> p \<open>x = Some x'\<close> Some q by simp
          with True \<open>rd_arm b t = Some p\<close> p \<open>x = Some x'\<close> Some q show ?thesis
            unfolding irq_run_Sent
            by (cases "ret < 0"; cases "xfer_complete b v")
              (simp_all add: read_data_stages SUCCESS_def Option.bind_assoc)
        qed (use True \<open>rd_arm b t = Some p\<close> p Some in \<open>simp add: read_data_stages\<close>)
      qed
    qed (use True in \<open>simp add: read_data_stages\<close>)
  next
    case False
    then show ?thesis
      by (cases "ads131m08_chunk_buf_active (Some b) t") (simp_all add: read_data_stages ENODEV_def)
  qed
  show ?thesis unfolding seven irq_run.simps(2) [of K "Suc (Suc (Suc (Suc (Suc (Suc 0)))))"]
    by (cases "irq_stamp b s") (simp_all add: rest irq_work_def del: irq_run.simps(2))
qed

lemma irq_run_add: "irq_run K (m + n) pc s = do { (pc, s) \<leftarrow> irq_run K m pc s; irq_run K n pc s }"
  by (induction m arbitrary: pc s) (simp_all add: Option.bind_assoc split_def)

lemma irq_run_Got_more: "irq_run K (7 + n) (Got b) s = map_option (Pair Idle) (irq_work K b s)"
  unfolding irq_run_add irq_run_Got by (cases "irq_work K b s") simp_all

lemma irq_run_thread: "irq_run K 9 Woken s = map_option (Pair Idle) (ads131m08_irq_thread K s)"
proof -
  have nine: "(9 :: nat) = Suc (7 + 1)" "(7 + 1 :: nat) = Suc (7 + 0)" by simp_all
  have w: "do { b \<leftarrow> as_chunk ob; s \<leftarrow> irq_stamp b t; (ret, s) \<leftarrow> ads131m08_read_data K (Some b) s;
      (if ret < 0 then ads131m08_chunk_buf_active (Some b) s else Some s) } = do { b \<leftarrow> as_chunk ob; irq_work K b t }" for ob t
    by (simp add: irq_work_def)
  have m: "do { b \<leftarrow> as_chunk ob; map_option (Pair Idle) (irq_work K b t) }
      = map_option (Pair Idle) (do { b \<leftarrow> as_chunk ob; irq_work K b t })" for ob t
    by (cases "as_chunk ob") simp_all
  have nobuf: "irq_run K 7 NoBuf t
      = Some (Idle, snd (ads131m08_read_data_discard K (t\<lparr>drop_cnt := drop_cnt t + 1\<rparr>)))" for t
    by (simp add: eval_nat_numeral)
  have second: "irq_run K (7 + 1) NoActive t = map_option (Pair Idle) (do {
      (a, s) \<leftarrow> list_fetch (free_list t) t;
      (case a of
         None \<Rightarrow> Some (snd (ads131m08_read_data_discard K (s\<lparr>drop_cnt := drop_cnt s + 1\<rparr>)))
       | Some ob \<Rightarrow> do { b \<leftarrow> as_chunk ob; irq_work K b s }) })" for t
  proof (cases "list_fetch (free_list t) t")
    case (Some p)
    then show ?thesis unfolding nine(2) irq_run.simps(2) irq_next.simps
      by (cases p; cases "fst p") (auto simp: Option.bind_assoc irq_run_Got m nobuf simp del: irq_run.simps(2))
  next
    case None
    then show ?thesis unfolding nine(2) irq_run.simps(2) irq_next.simps by simp
  qed
  show ?thesis
  proof (cases "list_fetch (active_list s) s")
    case (Some p)
    obtain a t where p: "p = (a, t)" by (cases p)
    show ?thesis
    proof (cases a)
      case None
      with Some p second show ?thesis
        unfolding nine(1) irq_run.simps(2) irq_thread_stages w by simp
    next
      case (Some ob)
      with \<open>list_fetch (active_list s) s = Some p\<close> p show ?thesis
        unfolding nine(1) irq_run.simps(2) irq_thread_stages w
        by (simp add: Option.bind_assoc irq_run_Got_more [of K 1, simplified] m)
    qed
  next
    case None
    then show ?thesis unfolding nine(1) irq_run.simps(2) irq_thread_stages by simp
  qed
qed

section \<open>Starting and stopping\<close>

text \<open>Where the thread that runs \<open>ads131m08_run_cmd\<close> is: the three parts of
  \<open>ads131m08_data_cleanup\<close> with what follows them, the steps of a start and its two error
  paths, the steps of a stop. \<open>Done\<close> holds the value to return.\<close>

datatype after = ToRun | Return int

datatype ctl_pc =
    NoCall | CleanReady after | CleanActive after | WakeReaders after
  | SetRun | SetIrq | SendWakeup | IrqFailed int | AbortIrq int | AbortStop int
  | SetStop | ClrIrq | SendStandby | Done int

fun after_cleanup :: "after \<Rightarrow> ctl_pc" where
  "after_cleanup ToRun = SetRun"
| "after_cleanup (Return ret) = Done ret"

fun ctl_next :: "'d kenv \<Rightarrow> ctl_pc \<Rightarrow> 'd drv \<Rightarrow> (ctl_pc \<times> 'd drv) option" where
  "ctl_next K NoCall s = Some (NoCall, s)"
| "ctl_next K (CleanReady a) s =
     (if \<not> ads131m08_data s then Some (after_cleanup a, s)
      else do {
        s \<leftarrow> list_cleanup (ready_list s) (Some (\<lambda>data. ads131m08_data_return (Some data))) s;
        Some (CleanActive a, s) })"
| "ctl_next K (CleanActive a) s = do {
     s \<leftarrow> list_cleanup (active_list s) (Some (\<lambda>data. ads131m08_data_return (Some data))) s;
     Some (WakeReaders a, s) }"
| "ctl_next K (WakeReaders a) s = Some (after_cleanup a, log_ev KWakeUp s)"
| "ctl_next K SetRun s = Some (SetIrq, s\<lparr>run_stat := ADC_RUN\<rparr>)"
| "ctl_next K SetIrq s =
     (case ads131m08_gpio_set_irq K s of (ret, s) \<Rightarrow> Some (if ret < 0 then IrqFailed ret else SendWakeup, s))"
| "ctl_next K SendWakeup s = do {
     (ret, s) \<leftarrow> ads131m08_cmd_wakeup K s;
     Some (if ret < 0 then AbortIrq ret else Done SUCCESS, s) }"
| "ctl_next K (IrqFailed ret) s = Some (Done ret, s\<lparr>run_stat := ADC_STOP\<rparr>)"
| "ctl_next K (AbortIrq ret) s = Some (AbortStop ret, ads131m08_gpio_clr_irq s)"
| "ctl_next K (AbortStop ret) s = Some (CleanReady (Return ret), s\<lparr>run_stat := ADC_STOP\<rparr>)"
| "ctl_next K SetStop s = do { (ret, s) \<leftarrow> (stop_stmts K ! 0) (SUCCESS, s); Some (ClrIrq, s) }"
| "ctl_next K ClrIrq s = do { (ret, s) \<leftarrow> (stop_stmts K ! 1) (SUCCESS, s); Some (SendStandby, s) }"
| "ctl_next K SendStandby s = do {
     (ret, s) \<leftarrow> (stop_stmts K ! 2) (SUCCESS, s);
     Some (CleanReady (Return (if ret < 0 then ret else SUCCESS)), s) }"
| "ctl_next K (Done ret) s = Some (Done ret, s)"

definition ctl_entry :: "int \<Rightarrow> 'd drv \<Rightarrow> ctl_pc" where
  "ctl_entry run s =
     (if ads131m08_run_stat s = run then Done SUCCESS
      else if run \<noteq> 0 then CleanReady ToRun else SetStop)"

fun ctl_run :: "'d kenv \<Rightarrow> nat \<Rightarrow> ctl_pc \<Rightarrow> 'd drv \<Rightarrow> (ctl_pc \<times> 'd drv) option" where
  "ctl_run K 0 pc s = Some (pc, s)"
| "ctl_run K (Suc n) pc s = do { (pc, s) \<leftarrow> ctl_next K pc s; ctl_run K n pc s }"

lemma ctl_run_Done [simp]: "ctl_run K n (Done ret) s = Some (Done ret, s)"
  by (induction n) simp_all

lemma ctl_run_clean:
  "ctl_run K (Suc (Suc (Suc n))) (CleanReady a) s =
     (if \<not> ads131m08_data s then ctl_run K (Suc (Suc n)) (after_cleanup a) s
      else do { s \<leftarrow> ads131m08_data_cleanup s; ctl_run K n (after_cleanup a) s })"
  by (simp add: ads131m08_data_cleanup_def Option.bind_assoc)

lemma ctl_run_clean_ret:
  "ctl_run K (Suc (Suc (Suc n))) (CleanReady (Return ret)) s = map_option (Pair (Done ret)) (ads131m08_data_cleanup s)"
proof (cases "ads131m08_data s")
  case True
  then show ?thesis by (cases "ads131m08_data_cleanup s") (simp_all add: ctl_run_clean del: ctl_run.simps(2))
qed (simp add: ads131m08_data_cleanup_def)

lemma ctl_run_start:
  "ctl_run K (Suc (Suc (Suc (Suc (Suc (Suc (Suc (Suc n)))))))) SetRun s =
     (case ads131m08_gpio_set_irq K (s\<lparr>run_stat := ADC_RUN\<rparr>) of (ret, s) \<Rightarrow>
        if ret < 0 then Some (Done ret, s\<lparr>run_stat := ADC_STOP\<rparr>)
        else do {
          (ret, s) \<leftarrow> ads131m08_cmd_wakeup K s;
          (if ret < 0
           then map_option (Pair (Done ret)) (ads131m08_data_cleanup ((ads131m08_gpio_clr_irq s)\<lparr>run_stat := ADC_STOP\<rparr>))
           else Some (Done SUCCESS, s)) })"
proof -
  obtain ret t where q: "ads131m08_gpio_set_irq K (s\<lparr>run_stat := ADC_RUN\<rparr>) = (ret, t)"
    by (cases "ads131m08_gpio_set_irq K (s\<lparr>run_stat := ADC_RUN\<rparr>)")
  show ?thesis
  proof (cases "ret < 0 \<or> ads131m08_cmd_wakeup K t = None")
    case False
    then obtain r u where w: "ads131m08_cmd_wakeup K t = Some (r, u)" by auto
    then have "ctl_run K (Suc (Suc (Suc (Suc (Suc (Suc (Suc (Suc n)))))))) SetRun s
      = ctl_run K (Suc (Suc (Suc (Suc (Suc n))))) (if r < 0 then AbortIrq r else Done SUCCESS) u"
      using q False by simp
    moreover have "ctl_run K (Suc (Suc (Suc (Suc (Suc n))))) (AbortIrq r) u
      = ctl_run K (Suc (Suc (Suc n))) (CleanReady (Return r)) ((ads131m08_gpio_clr_irq u)\<lparr>run_stat := ADC_STOP\<rparr>)"
      by simp
    ultimately show ?thesis using q w False by (simp add: ctl_run_clean_ret del: ctl_run.simps(2))
  qed (use q in auto)
qed

lemma ctl_run_stop:
  "ctl_run K (Suc (Suc (Suc (Suc (Suc (Suc n)))))) SetStop s = do {
     (ret, s) \<leftarrow> ads131m08_cmd_standby K (ads131m08_gpio_clr_irq (s\<lparr>run_stat := ADC_STOP\<rparr>));
     map_option (Pair (Done (if ret < 0 then ret else SUCCESS))) (ads131m08_data_cleanup s) }"
proof (cases "ads131m08_cmd_standby K (ads131m08_gpio_clr_irq (s\<lparr>run_stat := ADC_STOP\<rparr>))")
  case (Some p)
  moreover obtain ret u where "p = (ret, u)" by (cases p)
  ultimately have "ctl_run K (Suc (Suc (Suc (Suc (Suc (Suc n)))))) SetStop s
      = ctl_run K (Suc (Suc (Suc n))) (CleanReady (Return (if ret < 0 then ret else SUCCESS))) u"
    by simp
  with Some \<open>p = (ret, u)\<close> show ?thesis by (simp add: ctl_run_clean_ret del: ctl_run.simps(2))
qed simp

definition start_rest :: "'d kenv \<Rightarrow> 'd drv \<Rightarrow> (int \<times> 'd drv) option" where
  "start_rest K s =
     (case ads131m08_gpio_set_irq K (s\<lparr>run_stat := ADC_RUN\<rparr>) of (ret, s) \<Rightarrow>
        if ret < 0 then Some (ret, s\<lparr>run_stat := ADC_STOP\<rparr>)
        else do {
          (ret, s) \<leftarrow> ads131m08_cmd_wakeup K s;
          (if ret < 0 then do { s \<leftarrow> ads131m08_data_cleanup ((ads131m08_gpio_clr_irq s)\<lparr>run_stat := ADC_STOP\<rparr>); Some (ret, s) }
           else Some (SUCCESS, s)) })"

lemma ctl_run_start_rest:
  "ctl_run K (Suc (Suc (Suc (Suc (Suc (Suc (Suc (Suc n)))))))) SetRun t
    = map_option (\<lambda>(ret, t). (Done ret, t)) (start_rest K t)"
proof -
  obtain ret u where q: "ads131m08_gpio_set_irq K (t\<lparr>run_stat := ADC_RUN\<rparr>) = (ret, u)"
    by (cases "ads131m08_gpio_set_irq K (t\<lparr>run_stat := ADC_RUN\<rparr>)")
  show ?thesis
  proof (cases "ads131m08_cmd_wakeup K u")
    case (Some p)
    show ?thesis unfolding ctl_run_start start_rest_def
      by (cases p; cases "ads131m08_data_cleanup ((ads131m08_gpio_clr_irq (snd p))\<lparr>run_stat := ADC_STOP\<rparr>)")
        (simp_all add: q Some)
  qed (simp add: ctl_run_start start_rest_def q del: ctl_run.simps(2))
qed

lemma ctl_run_stop_cmd:
  assumes "run_stat s \<noteq> 0"
  shows "ctl_run K 11 SetStop s = map_option (\<lambda>(ret, t). (Done ret, t)) (ads131m08_run_cmd K 0 s)"
proof -
  have eleven: "(11 :: nat) = Suc (Suc (Suc (Suc (Suc (Suc 5)))))" by simp
  show ?thesis
  proof (cases "ads131m08_cmd_standby K (ads131m08_gpio_clr_irq (s\<lparr>run_stat := ADC_STOP\<rparr>))")
    case (Some p)
    with assms show ?thesis unfolding eleven ctl_run_stop
      by (cases p; cases "ads131m08_data_cleanup (snd p)") (auto simp: ads131m08_run_cmd_def ads131m08_run_stat_def)
  next
    case None
    with assms show ?thesis unfolding eleven ctl_run_stop
      by (simp add: ads131m08_run_cmd_def ads131m08_run_stat_def)
  qed
qed

lemma ctl_run_start_cmd:
  assumes "run_stat s \<noteq> run" "run \<noteq> 0"
  shows "ctl_run K 11 (CleanReady ToRun) s = map_option (\<lambda>(ret, t). (Done ret, t)) (ads131m08_run_cmd K run s)"
proof -
  have eleven: "(11 :: nat) = Suc (Suc (Suc (Suc (Suc (Suc (Suc (Suc (Suc (Suc (Suc 0))))))))))" by simp
  have r: "ads131m08_run_cmd K run s = do { s \<leftarrow> ads131m08_data_cleanup s; start_rest K s }"
    unfolding ads131m08_run_cmd_def ads131m08_run_stat_def Let_def using assms by (simp add: start_rest_def split_def)
  show ?thesis unfolding eleven ctl_run_clean r
    by (cases "ads131m08_data s"; cases "ads131m08_data_cleanup s")
      (simp_all add: ctl_run_start_rest ads131m08_data_cleanup_def del: ctl_run.simps(2))
qed

lemma ctl_run_cmd:
  "ctl_run K 11 (ctl_entry run s) s = map_option (\<lambda>(ret, t). (Done ret, t)) (ads131m08_run_cmd K run s)"
proof (cases "run_stat s = run")
  case True
  then show ?thesis by (simp add: ctl_entry_def ads131m08_run_cmd_def ads131m08_run_stat_def)
next
  case False
  then show ?thesis using ctl_run_stop_cmd [of s K] ctl_run_start_cmd [OF False, of K]
    by (cases "run = 0") (simp_all add: ctl_entry_def ads131m08_run_stat_def)
qed

end
