(* ===== verification/Irq_Stages.thy ===== *)
theory Irq_Stages
  imports Stages
begin

text \<open>
  The invariant of the driver at every stage of the interrupt thread. The chunk and the transfer
  buffer in the thread's hands are on no list; what the thread has done so far is in them.
\<close>

section \<open>The thread's hands\<close>

fun irq_bufs :: "irq_pc \<Rightarrow> nat list" where
  "irq_bufs (Got b) = [b]" | "irq_bufs (Stamped b) = [b]" | "irq_bufs (Armed b x) = [b]"
| "irq_bufs (Sent b x ret) = [b]" | "irq_bufs (Filled b) = [b]" | "irq_bufs (Full b) = [b]"
| "irq_bufs (Back b) = [b]"
| "irq_bufs pc = []"

fun irq_xfers :: "irq_pc \<Rightarrow> nat list" where
  "irq_xfers (Armed b x) = [x]" | "irq_xfers (Sent b x ret) = [x]" | "irq_xfers pc = []"

definition stamped_ok :: "'d drv \<Rightarrow> chunk_buf \<Rightarrow> bool" where
  "stamped_ok s c \<longleftrightarrow> filling (chunk_sz s) c \<and> s_ts (c_data c ! nat (c_idx c)) = smpl_ts s"

fun irq_ok :: "irq_pc \<Rightarrow> 'd drv \<Rightarrow> nat list \<Rightarrow> chunk_buf list \<Rightarrow> bool" where
  "irq_ok Idle s A bs = True" | "irq_ok Woken s A bs = True"
| "irq_ok NoActive s A bs = (A = [])" | "irq_ok NoBuf s A bs = (A = [])"
| "irq_ok (Got b) s A bs = (A = [] \<and> c_xfer (bs ! b) = None \<and> c_idx (bs ! b) < chunk_sz s)"
| "irq_ok (Stamped b) s A bs = (A = [] \<and> stamped_ok s (bs ! b) \<and> c_xfer (bs ! b) = None)"
| "irq_ok (Armed b x) s A bs = (A = [] \<and> stamped_ok s (bs ! b) \<and> c_xfer (bs ! b) = Some (Xfer x))"
| "irq_ok (Sent b x ret) s A bs = (A = [] \<and> stamped_ok s (bs ! b) \<and> c_xfer (bs ! b) = Some (Xfer x))"
| "irq_ok (Filled b) s A bs = (A = [] \<and> filling (chunk_sz s) (bs ! b) \<and> c_xfer (bs ! b) = None)"
| "irq_ok (Full b) s A bs = (A = [] \<and> ready_ok (chunk_sz s) (bs ! b))" | "irq_ok (Notify b) s A bs = True"
| "irq_ok (Back b) s A bs = (A = [] \<and> filling (chunk_sz s) (bs ! b) \<and> c_xfer (bs ! b) = None)"

definition in_hand :: "'d drv \<Rightarrow> nat list \<Rightarrow> nat \<Rightarrow> bool" where
  "in_hand s X x \<longleftrightarrow> x \<notin> set X \<and> Xfer x \<in> dom (elms s) \<and> (\<exists>m. xmem s x = Some m \<and> xfer_ok m)"

definition irq_inv ::
  "'d drv \<Rightarrow> irq_pc \<Rightarrow> nat list \<Rightarrow> nat list \<Rightarrow> nat list \<Rightarrow> nat list \<Rightarrow> nat list \<Rightarrow> chunk_buf list \<Rightarrow> bool" where
  "irq_inv s pc R A F H X bs \<longleftrightarrow> drv_inv s R A F (irq_bufs pc @ H) X bs \<and> spi_hdlr s \<and>
     (pc \<noteq> Idle \<longrightarrow> irq_registered s) \<and> length X + length (irq_xfers pc) = XFER_BUF_NUM \<and>
     (\<forall>x \<in> set (irq_xfers pc). in_hand s X x) \<and> irq_ok pc s A bs"

text \<open>The samples the device has sent that are in no chunk yet: decoded from the transfer buffer,
  or stored behind the index of the chunk.\<close>

fun in_flight :: "irq_pc \<Rightarrow> 'd drv \<Rightarrow> chunk_buf list \<Rightarrow> smpl list" where
  "in_flight (Sent b x ret) s bs =
     (if ret < 0 then [] else [\<lparr>s_ts = smpl_ts s, s_data = longs_at (x_rx (the (xmem s x))) 3 8\<rparr>])"
| "in_flight (Filled b) s bs = [c_data (bs ! b) ! nat (c_idx (bs ! b))]"
| "in_flight pc s bs = []"

text \<open>All samples received and not yet fetched by a reader, oldest first.\<close>

definition stream :: "irq_pc \<Rightarrow> 'd drv \<Rightarrow> nat list \<Rightarrow> nat list \<Rightarrow> chunk_buf list \<Rightarrow> smpl list" where
  "stream pc s R A bs = pending bs R (A @ irq_bufs pc) @ in_flight pc s bs"

text \<open>The sample that the device sends at a stage.\<close>

fun sent_smpls :: "'d kenv \<Rightarrow> irq_pc \<Rightarrow> 'd drv \<Rightarrow> (arrival \<times> smpl) list" where
  "sent_smpls K (Armed b x) s = clocked_out K Stored s"
| "sent_smpls K NoBuf s = (if spi_hdlr s then clocked_out K Dropped s else [])"
| "sent_smpls K pc s = []"

section \<open>Every stage keeps it\<close>

text \<open>Readers are woken between two states.\<close>

definition woke :: "'d drv \<Rightarrow> 'd drv \<Rightarrow> bool" where
  "woke s t \<longleftrightarrow> KWakeUp \<in> set (drop (length (klog s)) (klog t))"

text \<open>A chunk is on the ready list, and its wake-up is still to come.\<close>

fun notifying :: "irq_pc \<Rightarrow> bool" where
  "notifying (Notify b) = True" | "notifying pc = False"

definition irq_stage_ok ::
  "'d kenv \<Rightarrow> irq_pc \<Rightarrow> 'd drv \<Rightarrow> nat list \<Rightarrow> nat list \<Rightarrow> nat list \<Rightarrow> nat list \<Rightarrow> nat list \<Rightarrow> chunk_buf list \<Rightarrow> bool" where
  "irq_stage_ok K pc s R A F H X bs \<longleftrightarrow>
     (\<exists>pc' t R' A' F' X' bs'. irq_next K pc s = Some (pc', t) \<and> irq_inv t pc' R' A' F' H X' bs' \<and>
        stream pc' t R' A' bs' = stream pc s R A bs @ with_fate Stored (sent_smpls K pc s) \<and>
        ctl t = ctl (s\<lparr>drop_cnt := drop_cnt t\<rparr>) \<and> (R' = R \<or> notifying pc') \<and> (notifying pc \<longrightarrow> woke s t) \<and> (\<forall>x \<in> set H. bs' ! x = bs ! x))"

lemma irq_stage_okI:
  assumes "irq_next K pc s = Some (pc', t)" "irq_inv t pc' R' A' F' H X' bs'"
    "stream pc' t R' A' bs' = stream pc s R A bs @ with_fate Stored (sent_smpls K pc s)" "ctl t = ctl (s\<lparr>drop_cnt := drop_cnt t\<rparr>)"
    "R' = R \<or> notifying pc'" "notifying pc \<Longrightarrow> woke s t" "\<forall>x \<in> set H. bs' ! x = bs ! x"
  shows "irq_stage_ok K pc s R A F H X bs"
  using assms unfolding irq_stage_ok_def by blast

lemma ctl_drop: "ctl t = ctl s \<Longrightarrow> ctl t = ctl (s\<lparr>drop_cnt := drop_cnt t\<rparr>)"
  by (auto simp: ctl_def)

lemma irq_invD:
  assumes "irq_inv s pc R A F H X bs"
  shows "data_inv s R A F (irq_bufs pc @ H) (Some X) bs" "xfer_list s = Some XferL" "mem_ok (xmem s) (set X)"
    "X \<noteq> []" "spi_hdlr s" "irq_ok pc s A bs"
  using assms by (simp_all add: irq_inv_def drv_inv_def)

text \<open>A stage that works on chunks only.\<close>

lemma irq_invI:
  assumes I: "irq_inv s pc R A F H X bs" "pc \<noteq> Idle" and d: "data_inv t R' A' F' (irq_bufs pc' @ H) (Some X) bs'"
    and b: "buf_step s evs t" and x: "irq_xfers pc' = irq_xfers pc" and ok: "irq_ok pc' t A' bs'"
  shows "irq_inv t pc' R' A' F' H X bs'"
proof -
  have "ctl t = ctl s" using b by (simp add: buf_step_def)
  from ctl_fields [OF this] I d b x ok show ?thesis
    by (simp add: irq_inv_def drv_inv_def buf_step_def in_hand_def)
qed

lemma in_hand_loose:
  assumes D: "data_inv s R A F H (Some X) bs" and x: "in_hand s X x"
  shows "loose (elms s) (Xfer x)"
proof -
  have R: "heap_rep s (drv_lists R A F (Some X))" using D by (simp add: data_inv_def)
  have "Xfer x \<notin> set xs" if "drv_lists R A F (Some X) l = Some xs" for l xs
    using that x by (cases l) (auto simp: in_hand_def)
  with x loose_iff [OF R] show ?thesis by (auto simp: in_hand_def)
qed

lemma loose_in_hand:
  assumes D: "data_inv s R A F H (Some X) bs" and lo: "loose (elms s) (Xfer x)"
    and m: "xmem s x = Some m" "xfer_ok m"
  shows "in_hand s X x"
proof -
  have R: "heap_rep s (drv_lists R A F (Some X))" using D by (simp add: data_inv_def)
  from lo loose_iff [OF R] have d: "Xfer x \<in> dom (elms s)"
    and n: "\<And>l xs. drv_lists R A F (Some X) l = Some xs \<Longrightarrow> Xfer x \<notin> set xs" by blast+
  from n [of XferL "map Xfer X"] have "x \<notin> set X" by auto
  with d m show ?thesis by (auto simp: in_hand_def)
qed

lemma stage_Woken:
  assumes I: "irq_inv s Woken R A F H X bs"
  shows "irq_stage_ok K Woken s R A F H X bs"
proof -
  note D = irq_invD [OF I, simplified]
  have l: "active_list s = Some ActiveL" using D(1) by (simp add: data_inv_def)
  show ?thesis
  proof (cases A)
    case Nil
    have "irq_inv s NoActive R [] F H X bs" using I Nil by (simp add: irq_inv_def)
    with Nil l data_fetch_empty(2) [OF D(1) Nil] show ?thesis
      by (intro irq_stage_okI [of K Woken s NoActive s R "[]" F H X bs]) (simp_all add: stream_def)
  next
    case (Cons b A0)
    with D(1) have A: "A = [b]" by (simp add: data_inv_def owned_def)
    from data_fetch(2) [OF D(1) A] obtain t where t: "list_fetch (Some ActiveL) s = Some (Some (Chunk b), t)"
      "data_inv t R [] F (b # H) (Some X) bs" "buf_step s [] t" by blast
    have c: "ctl t = ctl s" using t(3) by (simp add: buf_step_def)
    have "irq_ok (Got b) t [] bs" using D(1) A ctl_fields(6) [OF c] by (simp add: data_inv_def bufs_ok_def active_ok_def)
    then have "irq_inv t (Got b) R [] F H X bs" by (intro irq_invI [OF I _ _ t(3)]) (use t(2) in simp_all)
    with A l t(1) ctl_drop [OF c] show ?thesis
      by (intro irq_stage_okI [of K Woken s "Got b" t R "[]" F H X bs]) (simp_all add: stream_def)
  qed
qed

lemma stage_NoActive:
  assumes I: "irq_inv s NoActive R A F H X bs"
  shows "irq_stage_ok K NoActive s R A F H X bs"
proof -
  note D = irq_invD [OF I, simplified]
  have l: "free_list s = Some FreeL" using D(1) by (simp add: data_inv_def)
  show ?thesis
  proof (cases F)
    case Nil
    have "irq_inv s NoBuf R [] [] H X bs" using I Nil D(6) by (simp add: irq_inv_def)
    with Nil l data_fetch_empty(3) [OF D(1) Nil] D(6) show ?thesis
      by (intro irq_stage_okI [of K NoActive s NoBuf s R "[]" "[]" H X bs]) (simp_all add: stream_def)
  next
    case (Cons b F')
    from data_fetch(3) [OF D(1) Cons] obtain t where t: "list_fetch (Some FreeL) s = Some (Some (Chunk b), t)"
      "data_inv t R A F' (b # H) (Some X) bs" "buf_step s [] t" by blast
    have c: "ctl t = ctl s" using t(3) by (simp add: buf_step_def)
    have z: "c_idx (bs ! b) = 0" "c_xfer (bs ! b) = None" "1 \<le> chunk_sz s"
      using D(1) Cons by (simp_all add: data_inv_def bufs_ok_def free_ok_def)
    then have "irq_ok (Got b) t [] bs" using ctl_fields(6) [OF c] by simp
    then have "irq_inv t (Got b) R [] F' H X bs" by (intro irq_invI [OF I _ _ t(3)]) (use t(2) D(6) in simp_all)
    moreover have "pending bs R [b] = pending bs R []"
      using z pending_split [of bs R "[b]"] by (simp add: taken_def)
    ultimately show ?thesis using l t(1) ctl_drop [OF c] D(6)
      by (intro irq_stage_okI [of K NoActive s "Got b" t R "[]" F' H X bs]) (simp_all add: stream_def)
  qed
qed

lemma stage_NoBuf:
  assumes I: "irq_inv s NoBuf R A F H X bs"
  shows "irq_stage_ok K NoBuf s R A F H X bs"
proof -
  obtain ret rxd d where io: "spi_sync_transfer K (dev s) (replicate 30 0) = (ret, rxd, d)"
    by (cases "spi_sync_transfer K (dev s) (replicate 30 0)")
  let ?t = "s\<lparr>drop_cnt := drop_cnt s + 1, dev := d, klog := klog s @ [KSpi (replicate 30 0)]\<rparr>"
  have "irq_next K NoBuf s = Some (Idle, ?t)"
    using io irq_invD(5) [OF I] by (simp add: ads131m08_read_data_discard_def spi_sync_def)
  moreover have "irq_inv ?t Idle R A F H X bs" using I by (auto simp: irq_inv_def)
  ultimately show ?thesis
    by (rule irq_stage_okI) (simp_all add: stream_def ctl_def)
qed

text \<open>The chunk in the thread's hands ends the stream.\<close>

lemma pending_hand:
  assumes D: "data_inv s R [] F (b # H) X bs"
  shows "pending (bs[b := c]) R [b] = pending bs R [] @ taken c" "pending bs R [b] = pending bs R [] @ taken (bs ! b)"
proof -
  have bl: "b < length bs" using data_get_buf(2) [OF D, of b] by simp
  have "owned R [] F (b # H)" using D by (simp add: data_inv_def)
  from owned_lt(2) [OF this] have n: "b \<noteq> x" if "x \<in> set R" for x using that by auto
  have "pending (bs[b := c]) R [] = pending bs R []" by (rule pending_cong) (simp add: n)
  with bl show "pending (bs[b := c]) R [b] = pending bs R [] @ taken c"
    using pending_split [of "bs[b := c]" R "[b]"] by simp
  show "pending bs R [b] = pending bs R [] @ taken (bs ! b)" using pending_split [of bs R "[b]"] by simp
qed

lemma stage_Got:
  assumes I: "irq_inv s (Got b) R A F H X bs"
  shows "irq_stage_ok K (Got b) s R A F H X bs"
proof -
  note D = irq_invD [OF I, simplified]
  have A: "A = []" using D(6) by simp
  note Db = D(1) [unfolded A]
  note ke = same_hand [OF D(1)]
  have c: "c_idx (bs ! b) < chunk_sz s" "c_xfer (bs ! b) = None" using D(6) by simp_all
  have bl: "b < length bs" and ok: "buf_ok (chunk_sz s) (bs ! b)" using data_get_buf [OF D(1), of b] by simp_all
  let ?c = "stamped (smpl_ts s) (bs ! b)"
  from irq_stamp_ok [OF D(1) _ c(1)] obtain t where
    t: "irq_stamp b s = Some t" "buf_step s [] t" "data_inv t R A F (b # H) (Some X) (bs[b := ?c])" by auto
  have ct: "ctl t = ctl s" using t(2) by (simp add: buf_step_def)
  have "chunk_sz s \<le> 320" using D(1) by (simp add: data_inv_def bufs_ok_def MAX_CHUNK_SZ_def)
  with ok c(1) have i: "nat (c_idx (bs ! b)) < length (c_data (bs ! b))" by (simp add: buf_ok_def MAX_CHUNK_SZ_def)
  have "stamped_ok t ?c" using buf_ok_stamped [OF ok] c(1) i ctl_fields(6,10) [OF ct]
    by (simp add: stamped_ok_def filling_def) (simp add: stamped_def)
  then have "irq_ok (Stamped b) t [] (bs[b := ?c])" using bl c(2) by simp
  then have "irq_inv t (Stamped b) R [] F H X (bs[b := ?c])"
    by (intro irq_invI [OF I _ _ t(2)]) (use t(3) A in simp_all)
  moreover have "stream (Stamped b) t R [] (bs[b := ?c]) = stream (Got b) s R A bs"
    using pending_hand [OF Db] A by (simp add: stream_def)
  moreover have "irq_next K (Got b) s = Some (Stamped b, t)" using t(1) by simp
  ultimately show ?thesis using ctl_drop [OF ct] ke
    by (intro irq_stage_okI [of K "Got b" s "Stamped b" t R "[]" F H X "bs[b := ?c]"]) simp_all
qed

lemma stamped_ok_xfer [simp]: "stamped_ok s (c\<lparr>c_xfer := y\<rparr>) = stamped_ok s c"
  by (simp add: stamped_ok_def filling_def buf_ok_def)

lemma taken_xfer [simp]: "taken (c\<lparr>c_xfer := y\<rparr>) = taken c"
  by (simp add: taken_def)

lemma stamped_ok_cong: "ctl t = ctl s \<Longrightarrow> stamped_ok t c = stamped_ok s c"
  using ctl_fields(6,10) [of t s] by (simp add: stamped_ok_def)

lemma stage_Stamped:
  assumes I: "irq_inv s (Stamped b) R A F H X bs"
  shows "irq_stage_ok K (Stamped b) s R A F H X bs"
proof -
  note D = irq_invD [OF I, simplified]
  have A: "A = []" using D(6) by simp
  note Db = D(1) [unfolded A]
  note ke = same_hand [OF D(1)]
  have c: "stamped_ok s (bs ! b)" using D(6) by simp
  have bl: "b < length bs" using data_get_buf [OF D(1), of b] by simp
  obtain x Y where X: "X = x # Y" using D(4) by (cases X) auto
  let ?c = "(bs ! b)\<lparr>c_xfer := Some (Xfer x)\<rparr>"
  from rd_arm_ok [OF Db [unfolded X] _ D(2), of b] obtain t where
    t: "rd_arm b s = Some (Some x, t)" "buf_step s [] t" "loose (elms t) (Xfer x)"
      "data_inv t R [] F (b # H) (Some Y) (bs[b := ?c])" by auto
  have ct: "ctl t = ctl s" and xm: "xmem t = xmem s" using t(2) by (simp_all add: buf_step_def)
  obtain m where "xmem t x = Some m" "xfer_ok m" using D(3) X xm by (auto simp: mem_ok_def)
  note h = loose_in_hand [OF t(4,3) this]
  have "length Y = 7" using I X by (simp add: irq_inv_def XFER_BUF_NUM_def)
  then have "irq_inv t (Armed b x) R [] F H Y (bs[b := ?c])"
    using t(4) h D(3) X xm ctl_fields [OF ct] I bl c stamped_ok_cong [OF ct]
    by (auto simp: irq_inv_def drv_inv_def XFER_BUF_NUM_def mem_ok_def)
  moreover have "stream (Armed b x) t R [] (bs[b := ?c]) = stream (Stamped b) s R A bs"
    using pending_hand [OF Db] A by (simp add: stream_def)
  moreover have "irq_next K (Stamped b) s = Some (Armed b x, t)" using t(1) D(5) by simp
  ultimately show ?thesis using ctl_drop [OF ct] ke
    by (intro irq_stage_okI [of K "Stamped b" s "Armed b x" t R "[]" F H Y "bs[b := ?c]"]) simp_all
qed

lemma stage_Armed:
  assumes I: "irq_inv s (Armed b x) R A F H X bs"
  shows "irq_stage_ok K (Armed b x) s R A F H X bs"
proof -
  note D = irq_invD [OF I, simplified]
  obtain ret rxd d where io: "spi_sync_transfer K (dev s) (replicate 30 0) = (ret, rxd, d)"
    by (cases "spi_sync_transfer K (dev s) (replicate 30 0)")
  from I obtain m where m: "xmem s x = Some m" "xfer_ok m" by (auto simp: irq_inv_def in_hand_def)
  let ?t = "s\<lparr>dev := d, klog := klog s @ [KSpi (replicate 30 0)], xmem := (xmem s)(x \<mapsto> trx_mem rxd m)\<rparr>"
  have "irq_next K (Armed b x) s = Some (Sent b x ret, ?t)" using rd_trx_ok [OF m io] by simp
  moreover have "data_inv ?t R A F (b # H) (Some X) bs" by (rule data_inv_frame [OF D(1)]) simp_all
  then have "irq_inv ?t (Sent b x ret) R A F H X bs"
    using I m trx_mem_ok(1) [OF m(2), of rxd] stamped_ok_cong [of ?t s]
    by (auto simp: irq_inv_def drv_inv_def in_hand_def mem_ok_def)
  moreover have "stream (Sent b x ret) ?t R A bs = stream (Armed b x) s R A bs @ with_fate Stored (sent_smpls K (Armed b x) s)"
    using io trx_mem_ok(3) [OF m(2), of rxd] by (simp add: stream_def clocked_out_def)
  moreover have "ctl ?t = ctl (s\<lparr>drop_cnt := drop_cnt ?t\<rparr>)" by (simp add: ctl_def)
  ultimately show ?thesis by (rule irq_stage_okI) simp_all
qed

lemma filling_idx:
  assumes "data_inv s R A F H X bs" "filling (chunk_sz s) c"
  shows "nat (c_idx c) < length (c_data c)" "0 \<le> c_idx c"
  using assms by (auto simp: data_inv_def bufs_ok_def filling_def buf_ok_def MAX_CHUNK_SZ_def)

text \<open>The transfer buffer goes back to the pool.\<close>

lemma irq_inv_return:
  assumes I: "irq_inv s pc R A F H X bs" "pc \<noteq> Idle" "irq_xfers pc = [x]" and b: "buf_step s [] t"
    and d: "data_inv t R A F (irq_bufs pc' @ H) (Some (X @ [x])) bs'" and x: "irq_xfers pc' = []" and ok: "irq_ok pc' t A bs'"
  shows "irq_inv t pc' R A F H (X @ [x]) bs'"
proof -
  have c: "ctl t = ctl s" and m: "xmem t = xmem s" using b by (simp_all add: buf_step_def)
  from I have "mem_ok (xmem s) (set (X @ [x]))" by (auto simp: irq_inv_def drv_inv_def mem_ok_def in_hand_def)
  with I d x ok m ctl_fields [OF c] show ?thesis by (simp add: irq_inv_def drv_inv_def)
qed

lemma stage_Sent:
  assumes I: "irq_inv s (Sent b x ret) R A F H X bs"
  shows "irq_stage_ok K (Sent b x ret) s R A F H X bs"
proof -
  note D = irq_invD [OF I, simplified]
  have A: "A = []" using D(6) by simp
  note Db = D(1) [unfolded A]
  note ke = same_hand [OF D(1)]
  have c: "stamped_ok s (bs ! b)" "c_xfer (bs ! b) = Some (Xfer x)" using D(6) by simp_all
  have bl: "b < length bs" using data_get_buf [OF D(1), of b] by simp
  have hx: "in_hand s X x" using I by (simp add: irq_inv_def)
  then obtain m where m: "xmem s x = Some m" "xfer_ok m" by (auto simp: in_hand_def)
  note lo = in_hand_loose [OF D(1) hx]
  show ?thesis
  proof (cases "ret < 0")
    case True
    let ?c = "(bs ! b)\<lparr>c_xfer := None\<rparr>"
    from rd_fail_ok [OF D(1) _ D(2) lo] obtain t where
      t: "rd_fail b x s = Some t" "buf_step s [] t" "data_inv t R A F (b # H) (Some (X @ [x])) (bs[b := ?c])" by auto
    have ct: "ctl t = ctl s" using t(2) by (simp add: buf_step_def)
    have "irq_ok (Back b) t A (bs[b := ?c])" using A bl c(1) stamped_ok_cong [OF ct] ctl_fields(6) [OF ct]
      by (simp add: stamped_ok_def filling_def buf_ok_def)
    then have "irq_inv t (Back b) R A F H (X @ [x]) (bs[b := ?c])"
      by (intro irq_inv_return [OF I _ _ t(2)]) (use t(3) in simp_all)
    with t(1) True ctl_drop [OF ct] pending_hand [OF Db] A ke show ?thesis
      by (intro irq_stage_okI [of K "Sent b x ret" s "Back b" t R A F H "X @ [x]" "bs[b := ?c]"])
        (simp_all add: stream_def)
  next
    case False
    let ?ls = "longs_at (x_rx m) 3 8" let ?c = "stored ?ls (bs ! b)"
    have f: "filling (chunk_sz s) (bs ! b)" using c(1) by (simp add: stamped_ok_def)
    have "27 \<le> length (x_rx m)" using m(2) by (simp add: xfer_ok_def MAX_BUF_SZ_def)
    from rd_store_ok [OF D(1) _ D(2) lo m(1) this f c(2)] obtain t where
      t: "rd_store b s = Some (True, t)" "buf_step s [] t" "data_inv t R A F (b # H) (Some (X @ [x])) (bs[b := ?c])" by auto
    have ct: "ctl t = ctl s" using t(2) by (simp add: buf_step_def)
    note i = filling_idx [OF D(1) f]
    have "buf_ok (chunk_sz s) ?c" using data_get_buf(3) [OF t(3), of b] bl ctl_fields(6) [OF ct] by simp
    then have "irq_ok (Filled b) t A (bs[b := ?c])" using A bl f ctl_fields(6) [OF ct] by (simp add: filling_def)
    then have "irq_inv t (Filled b) R A F H (X @ [x]) (bs[b := ?c])"
      by (intro irq_inv_return [OF I _ _ t(2)]) (use t(3) in simp_all)
    moreover have "c_data ?c ! nat (c_idx ?c) = \<lparr>s_ts = smpl_ts s, s_data = ?ls\<rparr>"
      using i c(1) by (simp add: stored_def stamped_ok_def)
    moreover have "taken ?c = taken (bs ! b)" by (simp add: taken_def stored_def)
    ultimately show ?thesis using t(1) False ctl_drop [OF ct] pending_hand [OF Db] A bl m(1) ke
      by (intro irq_stage_okI [of K "Sent b x ret" s "Filled b" t R A F H "X @ [x]" "bs[b := ?c]"])
        (simp_all add: stream_def)
  qed
qed

lemma stage_Filled:
  assumes I: "irq_inv s (Filled b) R A F H X bs"
  shows "irq_stage_ok K (Filled b) s R A F H X bs"
proof -
  note D = irq_invD [OF I, simplified]
  have A: "A = []" using D(6) by simp
  note Db = D(1) [unfolded A]
  note ke = same_hand [OF D(1)]
  have f: "filling (chunk_sz s) (bs ! b)" "c_xfer (bs ! b) = None" using D(6) by simp_all
  have bl: "b < length bs" using data_get_buf [OF D(1), of b] by simp
  define full where "full \<longleftrightarrow> c_idx (bs ! b) + 1 \<ge> chunk_sz s"
  let ?bs = "bs[b := counted (bs ! b)]" let ?pc = "if full then Full b else Back b"
  from rd_count_ok [OF D(1) _ f] obtain t where
    t: "rd_count b s = Some (full, t)" "buf_step s [] t" "data_inv t R A F (b # H) (Some X) ?bs"
      "if full then ready_ok (chunk_sz s) (counted (bs ! b)) else active_ok (chunk_sz s) (counted (bs ! b))"
    unfolding full_def by auto
  have ct: "ctl t = ctl s" using t(2) by (simp add: buf_step_def)
  have ok: "buf_ok (chunk_sz s) (counted (bs ! b))" using data_get_buf(3) [OF t(3), of b] bl ctl_fields(6) [OF ct] by simp
  have "irq_ok ?pc t A ?bs" using t(4) A bl f ctl_fields(6) [OF ct] ok
    by (cases full) (auto simp: active_ok_def filling_def full_def)
  then have "irq_inv t ?pc R A F H X ?bs" by (intro irq_invI [OF I _ _ t(2)]) (use t(3) in \<open>cases full; simp\<close>)+
  moreover have tk: "taken (counted (bs ! b)) = taken (bs ! b) @ [c_data (bs ! b) ! nat (c_idx (bs ! b))]"
    using filling_idx [OF D(1) f(1)] by (simp add: taken_def nat_add_distrib take_Suc_conv_app_nth)
  have "stream ?pc t R A ?bs = stream (Filled b) s R A bs"
    using pending_hand [OF Db] A tk by (cases full) (simp_all add: stream_def)
  moreover have "irq_next K (Filled b) s = Some (?pc, t)" using t(1) by simp
  ultimately show ?thesis using ctl_drop [OF ct] ke
    by (intro irq_stage_okI [of K "Filled b" s ?pc t R A F H X ?bs]) simp_all
qed

text \<open>The chunk is on the ready list before the readers are woken.\<close>

lemma stage_Full:
  assumes I: "irq_inv s (Full b) R A F H X bs"
  shows "irq_stage_ok K (Full b) s R A F H X bs"
proof -
  note D = irq_invD [OF I, simplified]
  have A: "A = []" and r: "ready_ok (chunk_sz s) (bs ! b)" using D(6) by simp_all
  have l: "ready_list s = Some ReadyL" using D(1) by (simp add: data_inv_def)
  from data_append(1) [OF D(1) r] obtain t where t: "list_append (Some ReadyL) (Some (Chunk b)) s = Some t"
    "data_inv t (R @ [b]) A F H (Some X) bs" "buf_step s [] t" by blast
  have ct: "ctl t = ctl s" using t(3) by (simp add: buf_step_def)
  have "irq_inv t (Notify b) (R @ [b]) A F H X bs" by (intro irq_invI [OF I _ _ t(3)]) (use t(2) in simp_all)
  moreover have "irq_next K (Full b) s = Some (Notify b, t)" using t(1) l by (simp add: chunk_buf_ready_stmts_def)
  moreover have "stream (Notify b) t (R @ [b]) A bs = stream (Full b) s R A bs" using A by (simp add: stream_def pending_ready)
  ultimately show ?thesis using ctl_drop [OF ct]
    by (intro irq_stage_okI [of K "Full b" s "Notify b" t "R @ [b]" A F H X bs]) simp_all
qed

lemma stage_Notify:
  assumes I: "irq_inv s (Notify b) R A F H X bs"
  shows "irq_stage_ok K (Notify b) s R A F H X bs"
proof -
  note D = irq_invD [OF I, simplified]
  have "ads131m08_data s" using D(1) by (simp add: data_inv_def)
  then have "irq_next K (Notify b) s = Some (Idle, log_ev KWakeUp s)"
    by (simp add: chunk_buf_ready_stmts_def ads131m08_iface_wakeup_def)
  moreover have "irq_inv (log_ev KWakeUp s) Idle R A F H X bs" using I by (auto simp: irq_inv_def)
  ultimately show ?thesis
    by (rule irq_stage_okI) (simp_all add: stream_def ctl_def log_ev_def woke_def)
qed

lemma stage_Back:
  assumes I: "irq_inv s (Back b) R A F H X bs"
  shows "irq_stage_ok K (Back b) s R A F H X bs"
proof -
  note D = irq_invD [OF I, simplified]
  have A: "A = []" using D(6) by simp
  note Db = D(1) [unfolded A]
  have "active_ok (chunk_sz s) (bs ! b)" using D(6) by (simp add: active_ok_def filling_def)
  from chunk_buf_active_ok [OF Db this] obtain t where
    t: "ads131m08_chunk_buf_active (Some b) s = Some t" "data_inv t R [b] F H (Some X) bs" "buf_step s [] t" by blast
  have ct: "ctl t = ctl s" using t(3) by (simp add: buf_step_def)
  have "irq_inv t Idle R [b] F H X bs" by (rule irq_invI [OF I _ _ t(3)]) (use t(2) in simp_all)
  with t(1) A ctl_drop [OF ct] show ?thesis
    by (intro irq_stage_okI [of K "Back b" s Idle t R "[b]" F H X bs]) (simp_all add: stream_def)
qed

text \<open>So every stage is total, keeps the invariant, and adds to the stream the sample sent for a chunk.\<close>

lemma irq_stage:
  assumes "irq_inv s pc R A F H X bs" "pc \<noteq> Idle"
  shows "irq_stage_ok K pc s R A F H X bs"
  using assms
  by (cases pc) (simp_all add: stage_Woken stage_NoActive stage_NoBuf stage_Got stage_Stamped stage_Armed
    stage_Sent stage_Filled stage_Full stage_Notify stage_Back)

end
