(* ===== verification/Ctl_Stages.thy ===== *)
theory Ctl_Stages
  imports Irq_Stages
begin

text \<open>
  Starting and stopping, stage by stage, while the interrupt thread is at any of its own: what
  each stage relies on and what it leaves behind.
\<close>

section \<open>What holds at each stage\<close>

definition quiet :: "'d drv \<Rightarrow> nat list \<Rightarrow> nat list \<Rightarrow> bool" where
  "quiet s R A \<longleftrightarrow> run_stat s = ADC_STOP \<and> \<not> irq_registered s \<and> R = [] \<and> A = []"

fun ctl_ok :: "ctl_pc \<Rightarrow> 'd drv \<Rightarrow> nat list \<Rightarrow> nat list \<Rightarrow> bool" where
  "ctl_ok NoCall s R A = (run_stat s = ADC_RUN \<or> quiet s R A)"
| "ctl_ok (Done ret) s R A = (run_stat s = ADC_RUN \<or> quiet s R A)"
| "ctl_ok (CleanReady a) s R A = (run_stat s = ADC_STOP \<and> \<not> irq_registered s)"
| "ctl_ok (CleanActive a) s R A = (run_stat s = ADC_STOP \<and> \<not> irq_registered s \<and> R = [])"
| "ctl_ok (WakeReaders a) s R A = quiet s R A"
| "ctl_ok SetRun s R A = quiet s R A"
| "ctl_ok SetIrq s R A = (run_stat s = ADC_RUN \<and> \<not> irq_registered s \<and> R = [] \<and> A = [])"
| "ctl_ok (IrqFailed ret) s R A = (run_stat s = ADC_RUN \<and> \<not> irq_registered s \<and> R = [] \<and> A = [])"
| "ctl_ok SendWakeup s R A = (run_stat s = ADC_RUN)"
| "ctl_ok (AbortIrq ret) s R A = (run_stat s = ADC_RUN)"
| "ctl_ok (AbortStop ret) s R A = (run_stat s = ADC_RUN \<and> \<not> irq_registered s)"
| "ctl_ok SetStop s R A = (run_stat s = ADC_RUN)"
| "ctl_ok ClrIrq s R A = (run_stat s = ADC_STOP)"
| "ctl_ok SendStandby s R A = (run_stat s = ADC_STOP \<and> \<not> irq_registered s)"

text \<open>\<open>free_irq\<close> returns when neither the handler nor its thread runs.\<close>

fun frees_irq :: "ctl_pc \<Rightarrow> bool" where
  "frees_irq (AbortIrq ret) = True" | "frees_irq ClrIrq = True" | "frees_irq pc = False"

text \<open>The samples that a stage discards with the chunks of the list it empties.\<close>

fun dumped :: "ctl_pc \<Rightarrow> 'd drv \<Rightarrow> smpl list" where
  "dumped (CleanReady a) s = on_list ReadyL s" | "dumped (CleanActive a) s = on_list ActiveL s" | "dumped pc s = []"

lemma dumped_cases: "dumped pc s \<noteq> [] \<Longrightarrow> \<exists>a. pc = CleanReady a \<or> pc = CleanActive a"
  by (cases pc) auto

section \<open>Every stage keeps it\<close>

text \<open>The stages that write the run state.\<close>

fun sets_stat :: "ctl_pc \<Rightarrow> bool" where
  "sets_stat SetRun = True" | "sets_stat SetStop = True" | "sets_stat (AbortStop ret) = True"
| "sets_stat (IrqFailed ret) = True" | "sets_stat pc = False"

definition ctl_stage_ok ::
  "'d kenv \<Rightarrow> ctl_pc \<Rightarrow> 'd drv \<Rightarrow> irq_pc \<Rightarrow> nat list \<Rightarrow> nat list \<Rightarrow> nat list \<Rightarrow> nat list \<Rightarrow> nat list \<Rightarrow> chunk_buf list \<Rightarrow> bool" where
  "ctl_stage_ok K pc s ipc R A F H X bs \<longleftrightarrow>
     (\<exists>pc' t R' A' F' X' bs'. ctl_next K pc s = Some (pc', t) \<and> irq_inv t ipc R' A' F' H X' bs' \<and> ctl_ok pc' t R' A' \<and>
        stream ipc s R A bs = dumped pc s @ stream ipc t R' A' bs' \<and>
        (R' = R \<or> R' = []) \<and> (run_stat t = run_stat s \<or> sets_stat pc) \<and> kept False H bs bs')"

lemma ctl_stage_okI:
  assumes "ctl_next K pc s = Some (pc', t)" "irq_inv t ipc R' A' F' H X' bs'" "ctl_ok pc' t R' A'"
    "stream ipc s R A bs = dumped pc s @ stream ipc t R' A' bs'"
    "R' = R \<or> R' = []" "run_stat t = run_stat s \<or> sets_stat pc" "kept False H bs bs'"
  shows "ctl_stage_ok K pc s ipc R A F H X bs"
  using assms unfolding ctl_stage_ok_def by blast

text \<open>Variables the interrupt thread does not look at.\<close>

lemma stamped_ok_upd [simp]:
  "stamped_ok (s\<lparr>run_stat := r\<rparr>) c = stamped_ok s c" "stamped_ok (s\<lparr>open_cnt := n\<rparr>) c = stamped_ok s c"
  "stamped_ok (s\<lparr>dev := d\<rparr>) c = stamped_ok s c" "stamped_ok (log_ev e s) c = stamped_ok s c"
  "stamped_ok (s\<lparr>irq_registered := i\<rparr>) c = stamped_ok s c"
  by (simp_all add: stamped_ok_def)

lemma irq_ok_upd [simp]:
  "irq_ok pc (s\<lparr>run_stat := r\<rparr>) A bs = irq_ok pc s A bs" "irq_ok pc (s\<lparr>open_cnt := n\<rparr>) A bs = irq_ok pc s A bs"
  "irq_ok pc (s\<lparr>dev := d\<rparr>) A bs = irq_ok pc s A bs" "irq_ok pc (log_ev e s) A bs = irq_ok pc s A bs"
  "irq_ok pc (s\<lparr>irq_registered := i\<rparr>) A bs = irq_ok pc s A bs"
  by (cases pc; simp)+

lemma irq_inv_upd [simp]:
  "irq_inv (s\<lparr>run_stat := r\<rparr>) pc R A F H X bs = irq_inv s pc R A F H X bs"
  "irq_inv (s\<lparr>open_cnt := n\<rparr>) pc R A F H X bs = irq_inv s pc R A F H X bs"
  "irq_inv (s\<lparr>dev := d\<rparr>) pc R A F H X bs = irq_inv s pc R A F H X bs"
  "irq_inv (log_ev e s) pc R A F H X bs = irq_inv s pc R A F H X bs"
  by (simp_all add: irq_inv_def in_hand_def)

lemma irq_inv_reg:
  "irq_inv (s\<lparr>irq_registered := True\<rparr>) pc R A F H X bs" "pc = Idle \<Longrightarrow> irq_inv (s\<lparr>irq_registered := i\<rparr>) pc R A F H X bs"
  if "irq_inv s pc R A F H X bs"
  using that by (simp_all add: irq_inv_def in_hand_def)

lemma stream_upd [simp]:
  "stream pc (s\<lparr>run_stat := r\<rparr>) R A bs = stream pc s R A bs" "stream pc (s\<lparr>open_cnt := n\<rparr>) R A bs = stream pc s R A bs"
  "stream pc (s\<lparr>dev := d\<rparr>) R A bs = stream pc s R A bs" "stream pc (log_ev e s) R A bs = stream pc s R A bs"
  "stream pc (s\<lparr>irq_registered := i\<rparr>) R A bs = stream pc s R A bs"
  by (cases pc; simp add: stream_def)+

lemma irq_inv_idle: "irq_inv s pc R A F H X bs \<Longrightarrow> \<not> irq_registered s \<Longrightarrow> pc = Idle"
  by (auto simp: irq_inv_def)

lemma stream_Idle [simp]: "stream Idle s R A bs = pending bs R A"
  by (simp add: stream_def)

text \<open>What others do beside the thread: they have transfer buffers and chunks of their own.\<close>

lemma irq_inv_beside:
  assumes I: "irq_inv s pc R A F H X bs" and t: "drv_inv t R' A F' (irq_bufs pc @ H') X' bs'"
    and st: "drv_step s X evs t X'" and b: "\<And>b. b \<in> set (irq_bufs pc) \<Longrightarrow> bs' ! b = bs ! b"
  shows "irq_inv t pc R' A F' H' X' bs'" "in_flight pc t bs' = in_flight pc s bs"
proof -
  have c: "ctl t = ctl s" and m: "mset X' = mset X" and d: "dom (elms t) = dom (elms s)"
    and x: "\<And>x. x \<notin> set X \<Longrightarrow> xmem t x = xmem s x" using st by (auto simp: drv_step_def)
  note f = ctl_fields [OF c]
  have ih: "in_hand t X' x" if "in_hand s X x" for x
    using that d x [of x] mset_eq_setD [OF m] by (auto simp: in_hand_def)
  have ok: "irq_ok pc t A bs' = irq_ok pc s A bs" using b by (cases pc) (simp_all add: stamped_ok_cong [OF c] f)
  from I t ih ok f mset_eq_length [OF m] show "irq_inv t pc R' A F' H' X' bs'" by (simp add: irq_inv_def)
  show "in_flight pc t bs' = in_flight pc s bs"
  proof (cases pc)
    case (Sent b x' ret)
    then have "x' \<notin> set X" using I by (simp add: irq_inv_def in_hand_def)
    with Sent x f show ?thesis by simp
  qed (use b in simp_all)
qed

text \<open>An exchange on the bus.\<close>

lemma irq_inv_io:
  assumes I: "irq_inv s pc R A F H X bs" and t: "drv_inv t R A F (irq_bufs pc @ H) X' bs" and st: "drv_step s X evs t X'"
  shows "irq_inv t pc R A F H X' bs" "stream pc t R A bs = stream pc s R A bs"
  using irq_inv_beside [OF I t st] by (simp_all add: stream_def)

lemma irq_inv_strobe:
  assumes I: "irq_inv s pc R A F H X bs"
  shows "\<exists>ret t X'. cmd_strobe K cmd [] 0 0 s = Some (ret, t) \<and> irq_inv t pc R A F H X' bs \<and>
    stream pc t R A bs = stream pc s R A bs \<and> ctl t = ctl s"
proof -
  have D: "drv_inv s R A F (irq_bufs pc @ H) X bs" "spi_hdlr s" using I by (simp_all add: irq_inv_def)
  obtain ret rxd d where io: "spi_sync_transfer K (dev s) (trx_frame cmd [] 1) = (ret, rxd, d)"
    by (cases "spi_sync_transfer K (dev s) (trx_frame cmd [] 1)")
  from strobe_drv [OF D io] obtain t X' where t: "cmd_strobe K cmd [] 0 0 s = Some (ret, t)"
    "drv_inv t R A F (irq_bufs pc @ H) X' bs" "drv_step s X [KSpi (trx_frame cmd [] 1)] t X'" by blast
  from t(3) have "ctl t = ctl s" by (simp add: drv_step_def)
  with t(1) irq_inv_io [OF I t(2,3)] show ?thesis by blast
qed

lemma stage_clean:
  assumes I: "irq_inv s ipc R A F H X bs" and ok: "ctl_ok pc s R A"
    and pc: "pc = CleanReady a \<or> pc = CleanActive a \<or> pc = WakeReaders a"
  shows "ctl_stage_ok K pc s ipc R A F H X bs"
proof -
  have e: "ipc = Idle" "run_stat s = ADC_STOP" "\<not> irq_registered s"
    using irq_inv_idle [OF I] ok pc by (auto simp: quiet_def)
  have D: "data_inv s R A F H (Some X) bs" "spi_hdlr s" "length X = XFER_BUF_NUM"
    using I e by (simp_all add: irq_inv_def drv_inv_def)
  have fin: "irq_inv t Idle R' A' F' H X bs' \<and> run_stat t = ADC_STOP \<and> \<not> irq_registered t"
    if "data_inv t R' A' F' H (Some X) bs'" "buf_step s evs t" for t R' A' F' bs' evs
  proof -
    have "ctl t = ctl s" using that(2) by (simp add: buf_step_def)
    from ctl_fields [OF this] that I e show ?thesis by (simp add: irq_inv_def drv_inv_def buf_step_def)
  qed
  note ke = kept_lists [OF D(1)] and ol = on_list_ok [OF D(1)]
  have rp: "pending (reset_bufs R bs) [] A = pending bs [] A"
  proof (rule pending_cong)
    fix b assume "b \<in> set [] \<union> set A"
    moreover have "owned R A F H" using D(1) by (simp add: data_inv_def)
    then have "set R \<inter> set A = {}" using owned_lt(2) [of R A F H] by auto
    ultimately have "b \<notin> set R" by auto
    then show "taken (reset_bufs R bs ! b) = taken (bs ! b)" by (simp add: nth_reset_bufs)
  qed
  have ps: "pending bs R A = pending bs R [] @ pending bs [] A" by (rule pending_split)
  from pc show ?thesis
  proof (elim disjE)
    assume p: "pc = CleanReady a"
    from cleanup_ready_ok [OF D(1)] obtain t where t: "cleanup_loop (Some ReadyL) return_cb s = Some t"
      "data_inv t [] A (F @ R) H (Some X) (reset_bufs R bs)" "buf_step s [] t" by blast
    have "ctl_next K pc s = Some (CleanActive a, t)" using p t(1) D(1)
      by (simp add: list_cleanup_def data_inv_def return_cb_def [abs_def])
    with fin [OF t(2,3)] e(1,2) ke ol(1) rp ps p show ?thesis by (intro ctl_stage_okI [of K pc s "CleanActive a" t ipc "[]" A "F @ R" H X "reset_bufs R bs"]) simp_all
  next
    assume p: "pc = CleanActive a"
    from cleanup_active_ok [OF D(1)] obtain t where t: "cleanup_loop (Some ActiveL) return_cb s = Some t"
      "data_inv t R [] (F @ A) H (Some X) (reset_bufs A bs)" "buf_step s [] t" by blast
    have "ctl_next K pc s = Some (WakeReaders a, t)" using p t(1) D(1)
      by (simp add: list_cleanup_def data_inv_def return_cb_def [abs_def])
    with fin [OF t(2,3)] e(1,2) ok p ke ol(2) show ?thesis
      by (intro ctl_stage_okI [of K pc s "WakeReaders a" t ipc R "[]" "F @ A" H X "reset_bufs A bs"]) (simp_all add: quiet_def)
  next
    assume p: "pc = WakeReaders a"
    with ok I e(1) show ?thesis
      by (intro ctl_stage_okI [of K pc s "after_cleanup a" "log_ev KWakeUp s" ipc R A F H X bs])
        (cases a; simp add: quiet_def)+
  qed
qed

lemma stage_SetIrq:
  assumes I: "irq_inv s ipc R A F H X bs" and ok: "ctl_ok SetIrq s R A"
    and rq: "\<And>d n. fst (request_threaded_irq K d n) \<le> 0"
  shows "ctl_stage_ok K SetIrq s ipc R A F H X bs"
proof -
  obtain rc d where q: "request_threaded_irq K (dev s) (gpio_irq_no s) = (rc, d)"
    by (cases "request_threaded_irq K (dev s) (gpio_irq_no s)")
  have rc: "rc \<le> 0" using rq [of "dev s" "gpio_irq_no s"] q by simp
  have ad: "ads131m08_data s" using irq_invD(1) [OF I] by (simp add: data_inv_def)
  note g = set_irq_cases [OF ad _ q]
  consider "gpio_irq_no s \<le> 0" | "0 < gpio_irq_no s" "rc < 0" | "0 < gpio_irq_no s" "rc = 0" using rc by linarith
  then show ?thesis
  proof cases
    case 1
    with g ok have "ctl_next K SetIrq s = Some (IrqFailed (- EINVAL), s)" by (simp add: EINVAL_def)
    then show ?thesis by (rule ctl_stage_okI [OF _ I]) (use ok in simp_all)
  next
    case 2
    with g ok have "ctl_next K SetIrq s = Some (IrqFailed rc, s\<lparr>dev := d\<rparr>)" by simp
    then show ?thesis by (rule ctl_stage_okI [of _ _ _ _ _ ipc R A F H X bs]) (use I ok in simp_all)
  next
    case 3
    let ?t = "log_ev (KRequestIrq (gpio_irq_no s)) (s\<lparr>dev := d, irq_registered := True\<rparr>)"
    from 3 g ok have "ctl_next K SetIrq s = Some (SendWakeup, ?t)" by simp
    moreover have "irq_inv ?t ipc R A F H X bs" using irq_inv_reg(1) [of "s\<lparr>dev := d\<rparr>"] I by simp
    ultimately show ?thesis by (rule ctl_stage_okI) (use ok in simp_all)
  qed
qed

lemma stage_strobe:
  assumes I: "irq_inv s ipc R A F H X bs" and ok: "ctl_ok pc s R A" and pc: "pc = SendWakeup \<or> pc = SendStandby"
  shows "ctl_stage_ok K pc s ipc R A F H X bs"
proof -
  let ?cmd = "if pc = SendWakeup then CMD_WAKEUP else CMD_STANDBY"
  from irq_inv_strobe [OF I, of K ?cmd] obtain ret t X' where t: "cmd_strobe K ?cmd [] 0 0 s = Some (ret, t)"
    "irq_inv t ipc R A F H X' bs" "stream ipc t R A bs = stream ipc s R A bs" "ctl t = ctl s" by blast
  from pc t(1) have "ctl_next K pc s = Some (if pc = SendWakeup then if ret < 0 then AbortIrq ret else Done SUCCESS
      else CleanReady (Return (if ret < 0 then ret else SUCCESS)), t)"
    by (auto simp: ads131m08_cmd_wakeup_def ads131m08_cmd_standby_def)
  then show ?thesis
    by (rule ctl_stage_okI [OF _ t(2)]) (use t(3) ctl_fields(7,13) [OF t(4)] ok pc in auto)
qed

lemma stage_free_irq:
  assumes I: "irq_inv s ipc R A F H X bs" and ok: "ctl_ok pc s R A" and pc: "frees_irq pc" and idle: "ipc = Idle"
  shows "ctl_stage_ok K pc s ipc R A F H X bs"
proof -
  let ?t = "ads131m08_gpio_clr_irq s"
  have ad: "ads131m08_data s" using irq_invD(1) [OF I] by (simp add: data_inv_def)
  then have t: "irq_inv ?t ipc R A F H X bs" "stream ipc ?t R A bs = stream ipc s R A bs"
    "\<not> irq_registered ?t" "run_stat ?t = run_stat s"
    using I idle irq_inv_reg(2) [OF I, of False] by (auto simp: ads131m08_gpio_clr_irq_def)
  show ?thesis
  proof (cases pc)
    case (AbortIrq ret)
    then have "ctl_next K pc s = Some (AbortStop ret, ?t)" by simp
    then show ?thesis by (rule ctl_stage_okI [OF _ t(1)]) (use t ok AbortIrq in simp_all)
  next
    case ClrIrq
    then have "ctl_next K pc s = Some (SendStandby, ?t)" by simp
    then show ?thesis by (rule ctl_stage_okI [OF _ t(1)]) (use t ok ClrIrq in simp_all)
  qed (use pc in simp_all)
qed

text \<open>So every stage of a start or stop is total and keeps the invariant, whatever stage the
  interrupt thread is at; only freeing the interrupt waits for it.\<close>

lemma ctl_stage:
  assumes I: "irq_inv s ipc R A F H X bs" and ok: "ctl_ok pc s R A" and w: "frees_irq pc \<longrightarrow> ipc = Idle"
    and rq: "\<And>d n. fst (request_threaded_irq K d n) \<le> 0"
  shows "ctl_stage_ok K pc s ipc R A F H X bs"
proof -
  have stat: "ctl_stage_ok K pc s ipc R A F H X bs"
    if "ctl_next K pc s = Some (pc', s\<lparr>run_stat := r\<rparr>)" "ctl_ok pc' (s\<lparr>run_stat := r\<rparr>) R A" "dumped pc s = []"
      "sets_stat pc" for pc' r
    by (rule ctl_stage_okI [OF that(1), of ipc R A F H X bs]) (use I that in simp_all)
  have stay: "ctl_stage_ok K pc s ipc R A F H X bs" if "ctl_next K pc s = Some (pc, s)" "dumped pc s = []"
    by (rule ctl_stage_okI [OF that(1) I]) (use ok that in simp_all)
  show ?thesis
  proof (cases pc)
    case SetRun then show ?thesis using ok by (intro stat) (auto simp: quiet_def)
  next
    case (IrqFailed ret) then show ?thesis using ok by (intro stat) (auto simp: quiet_def)
  next
    case (AbortStop ret) then show ?thesis using ok by (intro stat) auto
  next
    case SetStop then show ?thesis using ok by (intro stat) auto
  next
    case SetIrq then show ?thesis using stage_SetIrq [OF I _ rq] ok by simp
  qed (use I ok w stay stage_clean [OF I] stage_strobe [OF I] stage_free_irq [OF I] in auto)
qed

text \<open>The thread's stages keep what the control stages rely on.\<close>

lemma ctl_ok_irq:
  assumes "ctl_ok pc s R A" "irq_registered s" "ctl t = ctl (s\<lparr>drop_cnt := drop_cnt t\<rparr>)"
  shows "ctl_ok pc t R' A'"
  using assms(1,2) ctl_fields(7,13) [OF assms(3)] by (cases pc) (simp_all add: quiet_def)

end
