(* ===== verification/Interleaving.thy ===== *)
theory Interleaving
  imports Examples Ctl_Stages
begin

text \<open>
  The driver with its handlers interleaved stage by stage: the interrupt thread, one thread that
  issues commands (ioctls, close), and any number of readers. Compared with theory System the
  interrupt thread may be anywhere inside its function, with a chunk and a transfer buffer in its
  hands, while an acquisition is started or stopped and readers come and go.
\<close>

section \<open>Steps\<close>

text \<open>\<open>closing\<close> tells a stop issued by \<open>ads131m08_release\<close>, which ends with \<open>open_cnt\<close> reset;
  \<open>snap\<close> remembers the samples of a chunk when a reader fetched it, \<open>emptied\<close> the chunks in
  readers' hands that a change of the chunk size has emptied since.\<close>

record 'd fworld = "'d world" +
  irq_at :: irq_pc
  ctl_at :: ctl_pc
  closing :: bool
  snap :: "nat \<Rightarrow> smpl list"
  emptied :: "nat set"

text \<open>The stages of a start or stop that empty the lists discard the samples there.\<close>

definition after_stage :: "ctl_pc \<Rightarrow> 'd drv \<Rightarrow> 'd fworld \<Rightarrow> 'd fworld" where
  "after_stage pc t w =
     w\<lparr>drv := t, ctl_at := pc, gone := gone w @ map (Pair Discarded) (dumped (ctl_at w) (drv w))\<rparr>"

text \<open>\<open>IRQF_ONESHOT\<close>: the handler does not run while its thread does. \<open>free_irq\<close> waits for the
  thread. An ioctl that does not start or stop is one step.\<close>

inductive fstep :: "'d kenv \<Rightarrow> 'd fworld \<Rightarrow> 'd fworld \<Rightarrow> bool" for K where
  env: "fstep K w (w\<lparr>drv := (drv w)\<lparr>dev := d\<rparr>\<rparr>)"
| isr: "irq_registered (drv w) \<Longrightarrow> irq_at w = Idle \<Longrightarrow>
    fstep K w (w\<lparr>drv := ads131m08_isr K (drv w), irq_at := Woken\<rparr>)"
| irq: "irq_at w \<noteq> Idle \<Longrightarrow> irq_next K (irq_at w) (drv w) = Some (pc, t) \<Longrightarrow>
    fstep K w (w\<lparr>drv := t, irq_at := pc, sent := sent w @ sent_smpls K (irq_at w) (drv w)\<rparr>)"
| opn: "fstep K w (w\<lparr>drv := snd (ads131m08_open (drv w))\<rparr>)"
| cmd: "ctl_at w = NoCall \<Longrightarrow> ioctl_run_cmd cmd arg (drv w) = Some run \<Longrightarrow>
    fstep K w (w\<lparr>ctl_at := ctl_entry run (drv w), closing := False\<rparr>)"
| rel: "ctl_at w = NoCall \<Longrightarrow> fstep K w (w\<lparr>ctl_at := ctl_entry ADC_STOP (drv w), closing := True\<rparr>)"
| other: "ctl_at w = NoCall \<Longrightarrow> ioctl_run_cmd cmd arg (drv w) = None \<Longrightarrow>
    ads131m08_ioctl K cmd arg (drv w) = Some (ret, t) \<Longrightarrow>
    fstep K w (w\<lparr>drv := t, emptied := (if resizes cmd arg (drv w) then set (held w) else emptied w)\<rparr>)"
| ctl: "ctl_at w \<noteq> NoCall \<Longrightarrow> (frees_irq (ctl_at w) \<longrightarrow> irq_at w = Idle) \<Longrightarrow>
    ctl_next K (ctl_at w) (drv w) = Some (pc, t) \<Longrightarrow> fstep K w (after_stage pc t w)"
| ret: "ctl_at w = Done r \<Longrightarrow>
    fstep K w (w\<lparr>ctl_at := NoCall, drv := (if closing w then (drv w)\<lparr>open_cnt := 0\<rparr> else drv w)\<rparr>)"
| get: "ads131m08_data_get (drv w) = Some (Some (Chunk b), t) \<Longrightarrow> get_buf b t = Some c \<Longrightarrow>
    fstep K w (w\<lparr>drv := t, held := b # held w, gone := gone w @ map (Pair Fetched) (taken c),
      snap := (snap w)(b := taken c), emptied := emptied w - {b}\<rparr>)"
| put: "b \<in> set (held w) \<Longrightarrow> read_copy K cnt (Chunk b) (drv w) = Some (ret, t) \<Longrightarrow>
    fstep K w (w\<lparr>drv := t, held := remove1 b (held w)\<rparr>)"

definition fstarted :: "'d kenv \<Rightarrow> 'd fworld \<Rightarrow> bool" where
  "fstarted K w \<longleftrightarrow> started K (world.truncate w) \<and> irq_at w = Idle \<and> ctl_at w = NoCall"

section \<open>The invariant\<close>

definition intact :: "nat list \<Rightarrow> (nat \<Rightarrow> smpl list) \<Rightarrow> nat set \<Rightarrow> chunk_buf list \<Rightarrow> bool" where
  "intact H f E bs \<longleftrightarrow> (\<forall>b \<in> set H. taken (bs ! b) = (if b \<in> E then [] else f b))"

lemma intact_kept: "intact H f E bs \<Longrightarrow> kept e H bs bs' \<Longrightarrow> intact H f (if e then set H else E) bs'"
  by (simp add: intact_def kept_def)

lemma intact_same: "intact H f E bs \<Longrightarrow> kept False H bs bs' \<Longrightarrow> intact H f E bs'"
  by (simp add: intact_def kept_def)

lemma intact_fetch: "intact H f E bs \<Longrightarrow> intact (b # H) (f(b := taken (bs ! b))) (E - {b}) bs"
  by (auto simp: intact_def)

lemma intact_remove: "intact H f E bs \<Longrightarrow> intact (remove1 b H) f E bs"
  unfolding intact_def by (metis notin_set_remove1)

definition fine_inv :: "'d fworld \<Rightarrow> bool" where
  "fine_inv w \<longleftrightarrow> (\<exists>R A F X bs. irq_inv (drv w) (irq_at w) R A F (held w) X bs \<and> ctl_ok (ctl_at w) (drv w) R A \<and>
     intact (held w) (snap w) (emptied w) bs \<and>
     acquired w = map snd (gone w) @ stream (irq_at w) (drv w) R A bs)"

lemma fine_invI:
  assumes "irq_inv (drv w) (irq_at w) R A F (held w) X bs" "ctl_ok (ctl_at w) (drv w) R A"
    "intact (held w) (snap w) (emptied w) bs"
    "acquired w = map snd (gone w) @ stream (irq_at w) (drv w) R A bs"
  shows "fine_inv w"
  using assms unfolding fine_inv_def by blast

lemma ctl_ok_stat:
  "ctl_ok pc s R A \<Longrightarrow> run_stat t = run_stat s \<Longrightarrow> irq_registered t = irq_registered s \<Longrightarrow> ctl_ok pc t R A"
  by (cases pc) (simp_all add: quiet_def)

lemma ctl_ok_upd [simp]:
  "ctl_ok pc (s\<lparr>dev := d\<rparr>) R A = ctl_ok pc s R A" "ctl_ok pc (s\<lparr>open_cnt := n\<rparr>) R A = ctl_ok pc s R A"
  by (cases pc; simp add: quiet_def)+

lemma ctl_ok_fetch: "ctl_ok pc s (b # R) A \<Longrightarrow> ctl_ok pc s R A"
  by (cases pc) (simp_all add: quiet_def)

lemma data_inv_perm: "mset H' = mset H \<Longrightarrow> data_inv s R A F H X bs \<Longrightarrow> data_inv s R A F H' X bs"
  by (simp add: data_inv_def owned_def)

lemma drv_inv_perm: "mset H' = mset H \<Longrightarrow> drv_inv s R A F H X bs \<Longrightarrow> drv_inv s R A F H' X bs"
  using data_inv_perm [of H' H s R A F "Some X" bs] by (simp add: drv_inv_def)

lemma buf_drv_step: "buf_step s evs t \<Longrightarrow> drv_step s X evs t X"
  by (simp add: buf_step_def drv_step_def)

text \<open>Readers.\<close>

lemma get_fine:
  assumes I: "irq_inv s pc R A F H X bs"
  shows "R = b # R' \<Longrightarrow> \<exists>t. ads131m08_data_get s = Some (Some (Chunk b), t) \<and> irq_inv t pc R' A F (b # H) X bs \<and>
      get_buf b t = Some (bs ! b) \<and> stream pc s R A bs = taken (bs ! b) @ stream pc t R' A bs \<and> ctl t = ctl s"
    and "R = [] \<Longrightarrow> ads131m08_data_get s = Some (None, s)"
proof -
  note D = irq_invD [OF I]
  {
    assume *: "R = b # R'"
    from data_get_ok(1) [OF D(1) *] obtain t where t: "ads131m08_data_get s = Some (Some (Chunk b), t)"
      "data_inv t R' A F (b # irq_bufs pc @ H) (Some X) bs" "buf_step s [] t" by blast
    have d: "data_inv t R' A F (irq_bufs pc @ b # H) (Some X) bs" using t(2) by (rule data_inv_perm [rotated]) simp
    have c: "ctl t = ctl s" using t(3) by (simp add: buf_step_def)
    have "drv_inv t R' A F (irq_bufs pc @ b # H) X bs"
      using d t(3) D(2-4) ctl_fields(5) [OF c] by (simp add: drv_inv_def buf_step_def)
    note B = irq_inv_beside [OF I this buf_drv_step [OF t(3)]]
    have "get_buf b t = Some (bs ! b)" using data_get_buf(1) [OF d, of b] by simp
    with t(1) B c show "\<exists>t. ads131m08_data_get s = Some (Some (Chunk b), t) \<and> irq_inv t pc R' A F (b # H) X bs \<and>
        get_buf b t = Some (bs ! b) \<and> stream pc s R A bs = taken (bs ! b) @ stream pc t R' A bs \<and> ctl t = ctl s"
      by (auto simp: stream_def *)
  next
    assume "R = []"
    with data_get_ok(2) [OF D(1)] show "ads131m08_data_get s = Some (None, s)" by simp
  }
qed

lemma put_fine:
  assumes I: "irq_inv s pc R A F H X bs" and b: "b \<in> set H"
  shows "\<exists>ret t F' bs'. read_copy K cnt (Chunk b) s = Some (ret, t) \<and> irq_inv t pc R A F' (remove1 b H) X bs' \<and>
    stream pc t R A bs' = stream pc s R A bs \<and> ctl t = ctl s \<and> kept False (remove1 b H) bs bs'"
proof -
  have D0: "drv_inv s R A F (irq_bufs pc @ H) X bs" using I by (simp add: irq_inv_def)
  have D: "drv_inv s R A F (b # irq_bufs pc @ remove1 b H) X bs" by (rule drv_inv_perm [OF _ D0]) (use b in simp)
  let ?n = "min (cnt div SMPL_SIZE) (nat (c_idx (bs ! b)))" let ?bs = "bs[b := reset_buf (bs ! b)]"
  obtain ok d where cp: "copy_smpls_to_user K (dev s) (take ?n (taken (bs ! b))) = (ok, d)"
    by (cases "copy_smpls_to_user K (dev s) (take ?n (taken (bs ! b)))")
  from read_copy_ok [OF D cp] obtain t where
    t: "read_copy K cnt (Chunk b) s = Some (if ok then int (?n * SMPL_SIZE) else - EFAULT, t)"
      "drv_inv t R A (F @ [b]) (irq_bufs pc @ remove1 b H) X ?bs" "drv_step s X [] t X" by blast
  have "owned R A F (b # irq_bufs pc @ remove1 b H)" using D by (simp add: drv_inv_def data_inv_def)
  from owned_lt(2) [OF this] have n: "b \<noteq> x" if "x \<in> set R \<union> set A \<union> set (irq_bufs pc)" for x using that by auto
  note B = irq_inv_beside [OF I t(2,3)]
  have "?bs ! x = bs ! x" if "x \<in> set (irq_bufs pc)" for x using n that by simp
  note B' = B [OF this]
  have "pending ?bs R (A @ irq_bufs pc) = pending bs R (A @ irq_bufs pc)"
    by (rule pending_cong) (use n in auto)
  then have "stream pc t R A ?bs = stream pc s R A bs" using B'(2) by (simp add: stream_def)
  moreover have "ctl t = ctl s" using t(3) by (simp add: drv_step_def)
  moreover have "kept False (remove1 b H) bs ?bs"
    using D by (intro kept_upd) (auto simp: drv_inv_def data_inv_def dest: owned_lt(2))
  ultimately show ?thesis using t(1) B'(1) by blast
qed

text \<open>The handler, and an ioctl that neither starts nor stops.\<close>

lemma isr_fine:
  assumes I: "irq_inv s Idle R A F H X bs" and reg: "irq_registered s"
  shows "irq_inv (ads131m08_isr K s) Woken R A F H X bs" "stream Woken (ads131m08_isr K s) R A bs = stream Idle s R A bs"
    "run_stat (ads131m08_isr K s) = run_stat s" "irq_registered (ads131m08_isr K s)"
  using I reg by (auto simp: ads131m08_isr_def kcall_def irq_inv_def stream_def split: prod.splits)

lemma other_fine:
  assumes I: "irq_inv s pc R A F H X bs" and ok: "ctl_ok NoCall s R A"
    and other: "ioctl_run_cmd cmd arg s = None" and run: "ads131m08_ioctl K cmd arg s = Some (ret, t)"
  shows "\<exists>F' X' bs'. irq_inv t pc R A F' H X' bs' \<and> ctl_ok NoCall t R A \<and>
    stream pc t R A bs' = stream pc s R A bs \<and> kept (resizes cmd arg s) H bs bs'"
proof (cases "run_stat s = ADC_RUN")
  case True
  with ioctl_running_stays [OF other, of K] run have "t = s" by auto
  moreover have "\<not> resizes cmd arg s" using True by (simp add: resizes_def)
  ultimately show ?thesis using I ok kept_refl by fastforce
next
  case False
  with ok have q: "quiet s R A" by simp
  with irq_inv_idle [OF I] have p: "pc = Idle" by (simp add: quiet_def)
  have S: "sys_inv s R A F H X bs" using I q p by (simp add: sys_inv_def irq_inv_def quiet_def)
  from ioctl_other_some [OF S other run] obtain X' bs' where
    t: "sys_inv t R A F H X' bs'" "mset X' = mset X" "pending bs' R A = pending bs R A"
      "kept (resizes cmd arg s) H bs bs'" "ctl (t\<lparr>chunk_sz := chunk_sz s\<rparr>) = ctl s" by blast
  have f: "run_stat t = run_stat s" "irq_registered t = irq_registered s" using ctl_fields(7,13) [OF t(5)] by simp_all
  have "irq_inv t pc R A F H X' bs'"
    using t(1) I p mset_eq_length [OF t(2)] by (simp add: irq_inv_def sys_inv_def)
  moreover have "ctl_ok NoCall t R A" by (rule ctl_ok_stat [OF ok f])
  moreover have "stream pc t R A bs' = stream pc s R A bs" using t(3) p by simp
  ultimately show ?thesis using t(4) by blast
qed

lemma other_total:
  assumes I: "irq_inv s pc R A F H X bs" and ok: "ctl_ok NoCall s R A"
    and other: "ioctl_run_cmd cmd arg s = None" and st: "reg_nr cmd \<Longrightarrow> fetch_stable K"
  shows "ads131m08_ioctl K cmd arg s \<noteq> None"
proof (cases "run_stat s = ADC_RUN")
  case True
  from ioctl_running_stays [OF other True, of K] show ?thesis by auto
next
  case False
  with ok have q: "quiet s R A" by simp
  with irq_inv_idle [OF I] have p: "pc = Idle" by (simp add: quiet_def)
  have "sys_inv s R A F H X bs" using I q p by (simp add: sys_inv_def irq_inv_def quiet_def)
  from ioctl_other_keeps [OF st other, unfolded keeps_stat_def, rule_format, OF _ this] show ?thesis by auto
qed

lemma entry_fine:
  assumes ok: "ctl_ok NoCall s R A" and run: "run = ADC_RUN \<or> run = ADC_STOP"
  shows "ctl_ok (ctl_entry run s) s R A"
  using assms by (auto simp: ctl_entry_def ads131m08_run_stat_def ADC_RUN_def ADC_STOP_def quiet_def)

text \<open>A step that leaves the stages and the history as they are.\<close>

lemma fine_inv_same:
  assumes "irq_inv (drv w') (irq_at w) R A F (held w) X bs" "ctl_ok (ctl_at w') (drv w') R A"
    "intact (held w) (snap w) (emptied w) bs"
    "acquired w = map snd (gone w) @ stream (irq_at w) (drv w') R A bs"
    "irq_at w' = irq_at w" "held w' = held w" "snap w' = snap w" "emptied w' = emptied w" "sent w' = sent w" "gone w' = gone w"
  shows "fine_inv w'"
  using assms by (intro fine_invI [of w' R A F X bs]) simp_all

lemma irq_fine:
  assumes W: "fine_inv w" and pc: "irq_at w \<noteq> Idle" and st: "irq_next K (irq_at w) (drv w) = Some (pc', t)"
  shows "fine_inv (w\<lparr>drv := t, irq_at := pc', sent := sent w @ sent_smpls K (irq_at w) (drv w)\<rparr>)"
proof -
  from W obtain R A F X bs where I: "irq_inv (drv w) (irq_at w) R A F (held w) X bs"
    and ok: "ctl_ok (ctl_at w) (drv w) R A" and ic: "intact (held w) (snap w) (emptied w) bs"
    and h: "acquired w = map snd (gone w) @ stream (irq_at w) (drv w) R A bs"
    unfolding fine_inv_def by blast
  from irq_stage [OF I pc, of K] st obtain R' A' F' X' bs' where
    t: "irq_inv t pc' R' A' F' (held w) X' bs'" "ctl t = ctl ((drv w)\<lparr>drop_cnt := drop_cnt t\<rparr>)"
      "stream pc' t R' A' bs' = stream (irq_at w) (drv w) R A bs @ with_fate Stored (sent_smpls K (irq_at w) (drv w))"
    and "\<forall>x \<in> set (held w). bs' ! x = bs ! x" unfolding irq_stage_ok_def by auto
  then have ke: "kept False (held w) bs bs'" by (simp add: keptI)
  have "irq_registered (drv w)" using I pc by (simp add: irq_inv_def)
  from ctl_ok_irq [OF ok this t(2)] t h intact_same [OF ic ke] show ?thesis
    by (intro fine_invI [of _ R' A' F' X' bs']) simp_all
qed

lemma ctl_fine:
  assumes W: "fine_inv w" and w: "frees_irq (ctl_at w) \<longrightarrow> irq_at w = Idle"
    and rq: "\<And>d n. fst (request_threaded_irq K d n) \<le> 0"
    and st: "ctl_next K (ctl_at w) (drv w) = Some (pc', t)"
  shows "fine_inv (after_stage pc' t w)"
proof -
  from W obtain R A F X bs where I: "irq_inv (drv w) (irq_at w) R A F (held w) X bs"
    and ok: "ctl_ok (ctl_at w) (drv w) R A" and ic: "intact (held w) (snap w) (emptied w) bs"
    and h: "acquired w = map snd (gone w) @ stream (irq_at w) (drv w) R A bs"
    unfolding fine_inv_def by blast
  from ctl_stage [OF I ok w rq] st obtain R' A' F' X' bs' where
    t: "irq_inv t (irq_at w) R' A' F' (held w) X' bs'" "ctl_ok pc' t R' A'"
      "stream (irq_at w) (drv w) R A bs = dumped (ctl_at w) (drv w) @ stream (irq_at w) t R' A' bs'"
    and ke: "kept False (held w) bs bs'" unfolding ctl_stage_ok_def by auto
  then show ?thesis using h intact_same [OF ic ke]
    by (intro fine_invI [of _ R' A' F' X' bs']) (auto simp: after_stage_def)
qed

lemma reader_fine:
  assumes W: "fine_inv w"
  shows "ads131m08_data_get (drv w) = Some (Some (Chunk b), t) \<Longrightarrow> get_buf b t = Some c \<Longrightarrow>
      fine_inv (w\<lparr>drv := t, held := b # held w, gone := gone w @ map (Pair Fetched) (taken c),
        snap := (snap w)(b := taken c), emptied := emptied w - {b}\<rparr>)"
    and "b \<in> set (held w) \<Longrightarrow> read_copy K cnt (Chunk b) (drv w) = Some (ret, t) \<Longrightarrow>
      fine_inv (w\<lparr>drv := t, held := remove1 b (held w)\<rparr>)"
proof -
  from W obtain R A F X bs where I: "irq_inv (drv w) (irq_at w) R A F (held w) X bs"
    and ok: "ctl_ok (ctl_at w) (drv w) R A" and ic: "intact (held w) (snap w) (emptied w) bs"
    and h: "acquired w = map snd (gone w) @ stream (irq_at w) (drv w) R A bs"
    unfolding fine_inv_def by blast
  {
    assume g: "ads131m08_data_get (drv w) = Some (Some (Chunk b), t)" "get_buf b t = Some c"
    with get_fine(2) [OF I] obtain r R' where R: "R = r # R'" by (cases R) auto
    from get_fine(1) [OF I R] g have t: "r = b" "irq_inv t (irq_at w) R' A F (b # held w) X bs" "c = bs ! b"
      "stream (irq_at w) (drv w) R A bs = taken (bs ! b) @ stream (irq_at w) t R' A bs" "ctl t = ctl (drv w)" by auto
    have "ctl_ok (ctl_at w) t R' A"
      using ctl_ok_stat [OF ctl_ok_fetch [OF ok [unfolded R]], of t] ctl_fields(7,13) [OF t(5)] by simp
    with t h intact_fetch [OF ic, of b]
    show "fine_inv (w\<lparr>drv := t, held := b # held w, gone := gone w @ map (Pair Fetched) (taken c),
        snap := (snap w)(b := taken c), emptied := emptied w - {b}\<rparr>)"
      by (intro fine_invI [of _ R' A F X bs]) simp_all
  next
    assume g: "b \<in> set (held w)" "read_copy K cnt (Chunk b) (drv w) = Some (ret, t)"
    from put_fine [OF I g(1), of K cnt] g(2) obtain F' bs' where t: "irq_inv t (irq_at w) R A F' (remove1 b (held w)) X bs'"
      "stream (irq_at w) t R A bs' = stream (irq_at w) (drv w) R A bs" "ctl t = ctl (drv w)"
      "kept False (remove1 b (held w)) bs bs'" by auto
    have "ctl_ok (ctl_at w) t R A" using ctl_ok_stat [OF ok, of t] ctl_fields(7,13) [OF t(3)] by simp
    with t h intact_same [OF intact_remove [OF ic] t(4)] show "fine_inv (w\<lparr>drv := t, held := remove1 b (held w)\<rparr>)"
      by (intro fine_invI [of _ R A F' X bs']) simp_all
  }
qed

text \<open>The world outside, an open, and the beginning and end of a command.\<close>

lemma fine_invE:
  assumes "fine_inv w"
  obtains R A F X bs where "irq_inv (drv w) (irq_at w) R A F (held w) X bs" "ctl_ok (ctl_at w) (drv w) R A"
    "intact (held w) (snap w) (emptied w) bs"
    "acquired w = map snd (gone w) @ stream (irq_at w) (drv w) R A bs"
  using assms unfolding fine_inv_def by blast

lemma fine_stream:
  assumes W: "fine_inv w" and D: "heap_rep (drv w) (drv_lists R A F (Some X))" "chunk_buf_list (drv w) = Some bs"
  shows "acquired w = map snd (gone w) @ stream (irq_at w) (drv w) R A bs"
  using W
proof (rule fine_invE)
  fix R' A' F' X' bs'
  assume I: "irq_inv (drv w) (irq_at w) R' A' F' (held w) X' bs'"
    and h: "acquired w = map snd (gone w) @ stream (irq_at w) (drv w) R' A' bs'"
  have E: "heap_rep (drv w) (drv_lists R' A' F' (Some X'))" and b: "bs' = bs"
    using irq_invD(1) [OF I] D(2) by (simp_all add: data_inv_def)
  have "drv_lists R' A' F' (Some X') l = drv_lists R A F (Some X) l" for l using rep_unique [OF E D(1)] by simp
  from this [of ReadyL] this [of ActiveL] have "map Chunk R' = map Chunk R" "map Chunk A' = map Chunk A" by simp_all
  then have "R' = R" "A' = A" by (simp_all add: inj_map_eq_map inj_def)
  with h b show ?thesis by simp
qed

lemma env_fine:
  assumes "fine_inv w"
  shows "fine_inv (w\<lparr>drv := (drv w)\<lparr>dev := d\<rparr>\<rparr>)" "fine_inv (w\<lparr>drv := snd (ads131m08_open (drv w))\<rparr>)"
proof -
  from assms obtain R A F X bs where "irq_inv (drv w) (irq_at w) R A F (held w) X bs" "ctl_ok (ctl_at w) (drv w) R A"
    "intact (held w) (snap w) (emptied w) bs"
    "acquired w = map snd (gone w) @ stream (irq_at w) (drv w) R A bs" by (rule fine_invE)
  then show "fine_inv (w\<lparr>drv := (drv w)\<lparr>dev := d\<rparr>\<rparr>)" "fine_inv (w\<lparr>drv := snd (ads131m08_open (drv w))\<rparr>)"
    by (auto intro!: fine_inv_same [of _ w R A F X bs] simp: ads131m08_open_def)
qed

lemma call_fine:
  assumes "fine_inv w" "ctl_at w = NoCall" "run = ADC_RUN \<or> run = ADC_STOP"
  shows "fine_inv (w\<lparr>ctl_at := ctl_entry run (drv w), closing := c\<rparr>)"
  using assms(1)
proof (rule fine_invE)
  fix R A F X bs
  assume I: "irq_inv (drv w) (irq_at w) R A F (held w) X bs" "ctl_ok (ctl_at w) (drv w) R A" "intact (held w) (snap w) (emptied w) bs"
    "acquired w = map snd (gone w) @ stream (irq_at w) (drv w) R A bs"
  from entry_fine [of "drv w" R A run] I assms(2,3) show ?thesis
    by (intro fine_inv_same [of _ w R A F X bs]) simp_all
qed

lemma ret_fine:
  assumes "fine_inv w" "ctl_at w = Done r"
  shows "fine_inv (w\<lparr>ctl_at := NoCall, drv := (if closing w then (drv w)\<lparr>open_cnt := 0\<rparr> else drv w)\<rparr>)"
  using assms(1)
proof (rule fine_invE)
  fix R A F X bs
  assume "irq_inv (drv w) (irq_at w) R A F (held w) X bs" "ctl_ok (ctl_at w) (drv w) R A" "intact (held w) (snap w) (emptied w) bs"
    "acquired w = map snd (gone w) @ stream (irq_at w) (drv w) R A bs"
  with assms(2) show ?thesis by (intro fine_inv_same [of _ w R A F X bs]) (simp_all add: quiet_def)
qed

lemma fine_step:
  assumes W: "fine_inv w" and K: "kenv_ok K" and st: "fstep K w w'"
  shows "fine_inv w'"
proof -
  have rq: "fst (request_threaded_irq K d n) \<le> 0" for d n using K by (simp add: kenv_ok_def)
  from W obtain R A F X bs where I: "irq_inv (drv w) (irq_at w) R A F (held w) X bs"
    and ok: "ctl_ok (ctl_at w) (drv w) R A" and ic: "intact (held w) (snap w) (emptied w) bs"
    and h: "acquired w = map snd (gone w) @ stream (irq_at w) (drv w) R A bs" by (rule fine_invE)
  show ?thesis using st
  proof (cases rule: fstep.cases)
    case isr
    note t = isr_fine [OF I [unfolded isr(3)] isr(2), of K]
    from ctl_ok_stat [OF ok t(3)] t isr h ic show ?thesis
      by (intro fine_invI [of w' R A F X bs]) simp_all
  next
    case (cmd c arg run)
    from call_fine [OF W cmd(2)] ioctl_run_cmd_eq [OF cmd(3)] cmd(1) show ?thesis by blast
  next
    case (other c arg ret t)
    from other_fine [OF I ok [unfolded other(2)] other(3,4)] obtain F' X' bs' where
      t: "irq_inv t (irq_at w) R A F' (held w) X' bs'" "ctl_ok NoCall t R A"
        "stream (irq_at w) t R A bs' = stream (irq_at w) (drv w) R A bs" "kept (resizes c arg (drv w)) (held w) bs bs'" by blast
    with other(1,2) h intact_kept [OF ic t(4)] show ?thesis by (intro fine_invI [of w' R A F' X' bs']) simp_all
  next
    case (ret r)
    with ret_fine [OF W ret(2)] show ?thesis by metis
  next
    case (ctl pc t)
    with ctl_fine [OF W ctl(3) rq ctl(4)] show ?thesis by simp
  qed (use W env_fine irq_fine call_fine [of w ADC_STOP] reader_fine in simp_all)
qed

lemma fine_started:
  assumes "fstarted K w" and cl: "\<And>d. fst (class_create K d) \<noteq> 0"
  shows "fine_inv w"
proof -
  from assms(1) obtain s where s: "heap_rep s (\<lambda>_. None)" "fresh_xfers s"
    "ads131m08_probe K s = Some (SUCCESS, drv w)" and h: "held w = []" "sent w = []" "gone w = []"
    and e: "irq_at w = Idle" "ctl_at w = NoCall"
    by (auto simp: fstarted_def started_def world.truncate_def)
  from probe_ok [OF s(1,2) cl] s(3) obtain evs where "probe_ready K s (drv w) evs" by auto
  then obtain X where "sys_inv (drv w) [] [] [0..<CHUNK_BUF_CNT] [] X (replicate CHUNK_BUF_CNT fresh_chunk_buf)"
    and m: "mset X = mset [next_xfer s..<next_xfer s + XFER_BUF_NUM]" and r: "run_stat (drv w) = ADC_STOP"
    by (auto simp: probe_ready_def)
  moreover have "length X = XFER_BUF_NUM" using mset_eq_length [OF m] by simp
  ultimately show ?thesis using h e
    by (intro fine_invI [of w "[]" "[]" "[0..<CHUNK_BUF_CNT]" X "replicate CHUNK_BUF_CNT fresh_chunk_buf"])
      (auto simp: sys_inv_def irq_inv_def quiet_def intact_def ADC_RUN_def ADC_STOP_def)
qed

interpretation fine: inv_system "\<lambda>w. kernel K \<and> fstarted K w" "\<lambda>w w'. kernel K \<and> fstep K w w'" fine_inv
  for K :: "'d kenv"
proof unfold_locales
  fix w :: "'d fworld"
  show "kernel K \<and> fstarted K w \<Longrightarrow> fine_inv w" using fine_started [of K w] by (simp add: kernel_def)
next
  fix w w' :: "'d fworld"
  show "fine_inv w \<Longrightarrow> kernel K \<and> fstep K w w' \<Longrightarrow> fine_inv w'" using fine_step [of w K w'] by (simp add: kernel_def)
qed

lemma fine_reach:
  assumes "kernel K" "fstarted K w0" "(fstep K)\<^sup>*\<^sup>* w0 w"
  shows "fine_inv w"
proof -
  have "(\<lambda>w w'. kernel K \<and> fstep K w w') = fstep K" using assms(1) by simp
  with assms show ?thesis using fine.reach_inv [of K w0 w] by simp
qed

end
