(* ===== verification/Char_Device.thy ===== *)
theory Char_Device
  imports Examples
begin

text \<open>
  What the system calls on the device node guarantee: reading, waiting, open and release, poll,
  and the ioctls, with the defects of the register ioctl.
\<close>

section \<open>Read\<close>

text \<open>C21: a read that finds a ready chunk takes the oldest one and copies its first samples, as
  many whole samples as the caller's buffer holds; the byte count says how many. The chunk goes
  back to the free list whole: the next pending sample afterwards is the first of the next
  chunk, so a buffer smaller than a chunk, or a faulting copy, loses the rest of the chunk.\<close>

theorem read_takes_chunk:
  assumes I: "drv_inv s (b # R) A F H X bs" and w: "w z = (sig, y)" "wait_cond y = Some True" "v y = s"
    and cnt: "SMPL_SIZE \<le> cnt"
  defines "n \<equiv> min (cnt div SMPL_SIZE) (nat (chunk_sz s))"
  assumes cp: "copy_smpls_to_user K (dev s) (take n (pending bs (b # R) A)) = (ok, d)"
  shows "\<exists>t. ads131m08_read K ((w, v) # ws) cnt z
      = Some (RReturn (if ok then int (n * SMPL_SIZE) else - EFAULT), t) \<and>
    drv_inv t R A (F @ [b]) H X (bs[b := reset_buf (bs ! b)]) \<and>
    pending (bs[b := reset_buf (bs ! b)]) R A = drop (nat (chunk_sz s)) (pending bs (b # R) A) \<and>
    ctl t = ctl s \<and> klog t = klog s"
  using read_ok [where w = w and v = v and z = z and ws = ws, OF I w cnt cp [unfolded n_def]] by (auto simp: n_def drv_step_def)

theorem read_takes_chunk_witness:
  "\<exists>(s :: unit drv) t. ads131m08_read k0 [(\<lambda>s. (False, s), \<lambda>s. s)] 4000 s = Some (RReturn 40, t)"
proof -
  obtain s :: "unit drv" and X bs where s: "sys_inv s [0] [] [1..<CHUNK_BUF_CNT] [] X bs" "chunk_sz s = 1"
    using k0_ready by blast
  then have D: "drv_inv s [0] [] [1..<CHUNK_BUF_CNT] [] X bs" by (simp add: sys_inv_def)
  have w: "(\<lambda>s. (False, s)) s = (False, s)" "wait_cond s = Some True" "(\<lambda>s. s) s = s"
    using wait_cond_ok [OF D] by simp_all
  have cp: "copy_smpls_to_user k0 (dev s) (take (min (4000 div SMPL_SIZE) (nat (chunk_sz s))) (pending bs [0] []))
      = (True, ())" by (simp add: k0_simps)
  from read_takes_chunk [where w = "\<lambda>s. (False, s)" and v = "\<lambda>s. s" and z = s and ws = "[]", OF D w _ cp] s(2) show ?thesis by (auto simp: SMPL_SIZE_def)
qed

text \<open>C22: when a read sleeps and when it wakes. At an evaluation of its condition in a running
  driver with nothing ready it goes on sleeping, or returns -EINTR if a signal is pending; with
  a ready chunk or a stopped driver it goes on to the fetch; if another reader or a stop emptied
  the ready list before the fetch, it returns 0 in a stopped driver and sleeps again in a
  running one. So the wait ends with 0 in a stopped driver only (the copy after it may still give 0
  while running, from a chunk that a late resize has emptied); and a stopped driver with nothing
  ready never blocks a reader, where the README says that \<open>read()\<close> blocks until a chunk is complete,
  and forever if WAKEUP is missing.\<close>

theorem read_sleeps:
  assumes I: "drv_inv s R A F H X bs" and w: "w z = (sig, s)" and J: "drv_inv (v s) R' A' F' H' X' bs'"
  shows "if R = [] \<and> run_stat s \<noteq> ADC_STOP
    then read_loop ((w, v) # ws) z = (if sig then Some (RReturn (- EINTR), s) else read_loop ws s)
    else case R' of
        [] \<Rightarrow> read_loop ((w, v) # ws) z
          = (if run_stat (v s) = ADC_STOP then Some (RReturn 0, v s) else read_loop ws (v s))
      | b # _ \<Rightarrow> \<exists>t. read_loop ((w, v) # ws) z = Some (RGot (Chunk b), t)"
proof (cases "R = [] \<and> run_stat s \<noteq> ADC_STOP")
  case True
  then have "drv_inv s [] A F H X bs" "run_stat s \<noteq> ADC_STOP" using I by simp_all
  from read_asleep [where w = w and v = v and z = z and ws = ws, OF this w] True show ?thesis by simp
next
  case False
  then have c: "wait_cond s = Some True" using wait_cond_ok [OF I] by auto
  show ?thesis
  proof (cases R')
    case Nil
    show ?thesis unfolding if_not_P [OF False] Nil list.case
      by (rule read_awake(2) [where w = w and v = v and z = z and ws = ws, OF c w J Nil])
  next
    case (Cons b R2)
    show ?thesis unfolding if_not_P [OF False] Cons list.case
      using read_awake(1) [where w = w and v = v and z = z and ws = ws, OF c w J Cons] by blast
  qed
qed

theorem read_sleeps_witness:
  "\<exists>s :: unit drv. run_stat s = ADC_RUN \<and>
     read_loop [(\<lambda>s. (True, s), \<lambda>s. s)] s = Some (RReturn (- EINTR), s) \<and>
     read_loop [(\<lambda>s. (False, s), \<lambda>s. s)] s = Some (RBlocked, s)"
proof -
  obtain s :: "unit drv" and X where
    s: "sys_inv s [] [] [0..<CHUNK_BUF_CNT] [] X (replicate CHUNK_BUF_CNT fresh_chunk_buf)" "run_stat s = ADC_RUN"
    using k0_running by blast
  then have D: "drv_inv s [] [] [0..<CHUNK_BUF_CNT] [] X (replicate CHUNK_BUF_CNT fresh_chunk_buf)"
    by (simp add: sys_inv_def)
  have w: "(\<lambda>s. (sig, s)) s = (sig, s)" for sig :: bool by simp
  have r: "run_stat s \<noteq> ADC_STOP" using s(2) by (simp add: ADC_RUN_def ADC_STOP_def)
  have D': "drv_inv ((\<lambda>s. s) s) [] [] [0..<CHUNK_BUF_CNT] [] X (replicate CHUNK_BUF_CNT fresh_chunk_buf)"
    using D by simp
  from read_sleeps [where w = "\<lambda>s. (True, s)" and v = "\<lambda>s. s" and z = s and ws = "[]", OF D w [of True] D']
    read_sleeps [where w = "\<lambda>s. (False, s)" and v = "\<lambda>s. s" and z = s and ws = "[]", OF D w [of False] D'] r s(2)
  show ?thesis by (intro exI [of _ s]) simp
qed

text \<open>A read is never left asleep with something to return: with a ready chunk, or in a
  stopped driver, the first evaluation of its condition makes it return (when nothing happens
  between that and the fetch), with a byte count, with 0 if it is stopped and empty, or with
  -EFAULT.\<close>

theorem read_returns:
  assumes I: "drv_inv s R A F H X bs" and w: "w z = (sig, s)"
    and data: "R \<noteq> [] \<or> run_stat s = ADC_STOP" and cnt: "SMPL_SIZE \<le> cnt"
  shows "\<exists>ret t. ads131m08_read K ((w, \<lambda>s. s) # ws) cnt z = Some (RReturn ret, t) \<and>
    (if R = [] then ret = 0 else ret = - EFAULT \<or> 0 < ret \<and> ret \<le> int cnt)"
proof -
  have c: "wait_cond s = Some True" using wait_cond_ok [OF I] data by auto
  show ?thesis
  proof (cases R)
    case Nil
    from read_awake(2) [where w = w and v = "\<lambda>s. s" and z = z and ws = ws, OF c w I Nil] data cnt Nil show ?thesis
      by (simp add: ads131m08_read_def)
  next
    case (Cons b R')
    let ?n = "min (cnt div SMPL_SIZE) (nat (chunk_sz s))"
    obtain ok d where cp: "copy_smpls_to_user K (dev s) (take ?n (pending bs (b # R') A)) = (ok, d)"
      by (cases "copy_smpls_to_user K (dev s) (take ?n (pending bs (b # R') A))")
    have J: "drv_inv s (b # R') A F H X bs" using I Cons by simp
    have sz: "1 \<le> chunk_sz s" using J by (simp add: drv_inv_def data_inv_def bufs_ok_def)
    have "0 < cnt div SMPL_SIZE" using cnt by (simp add: SMPL_SIZE_def)
    then have pos: "0 < ?n" using sz by simp
    have "?n * SMPL_SIZE \<le> cnt div SMPL_SIZE * SMPL_SIZE" by (rule mult_le_mono1) simp
    also have "\<dots> \<le> cnt" by simp
    finally have le: "?n * SMPL_SIZE \<le> cnt" .
    from read_ok [where w = w and v = "\<lambda>s. s" and z = z and ws = ws, OF J w c refl cnt cp] pos le Cons show ?thesis
      by (auto simp: SMPL_SIZE_def)
  qed
qed

theorem read_returns_witness:
  "\<exists>(s :: unit drv) t. run_stat s = ADC_STOP \<and>
     ads131m08_read k0 [(\<lambda>s. (True, s), \<lambda>s. s)] 4000 s = Some (RReturn 0, t)"
proof -
  obtain s :: "unit drv" and X where
    s: "sys_inv s [] [] [0..<CHUNK_BUF_CNT] [] X (replicate CHUNK_BUF_CNT fresh_chunk_buf)" "run_stat s = ADC_STOP"
    using k0_up by blast
  then have D: "drv_inv s [] [] [0..<CHUNK_BUF_CNT] [] X (replicate CHUNK_BUF_CNT fresh_chunk_buf)"
    by (simp add: sys_inv_def)
  have w: "(\<lambda>s. (True, s)) s = (True, s)" by simp
  have "SMPL_SIZE \<le> 4000" by (simp add: SMPL_SIZE_def)
  from read_returns [where w = "\<lambda>s. (True, s)" and z = s and ws = "[]", OF D w _ this, of k0] s(2) show ?thesis by auto
qed

section \<open>Open, release, poll, the proc file\<close>

text \<open>The device is open once at a time. After a successful open every further open gets
  -EBUSY and changes nothing, until release; release succeeds in every state of a driver that is
  up, stops the acquisition, and makes the device free to open again.\<close>

theorem open_exclusive:
  assumes I: "sys_inv s R A F H X bs" and K: "kenv_ok K" and o: "ads131m08_open s = (0, t)"
  shows "ads131m08_open t = (- EBUSY, t) \<and> open_cnt s = 0 \<and> sys_inv t R A F H X bs \<and>
    (\<exists>u R' A' F' X' bs'. ads131m08_release K t = Some (0, u) \<and> sys_inv u R' A' F' H X' bs' \<and>
       run_stat u = ADC_STOP \<and> fst (ads131m08_open u) = 0)"
proof -
  have t: "open_cnt s = 0" "t = s\<lparr>open_cnt := 1\<rparr>" using o by (auto simp: ads131m08_open_def EBUSY_def split: if_splits)
  then have J: "sys_inv t R A F H X bs" using I by simp
  from release_sys [OF J K] obtain u R' A' F' X' bs' where
    "ads131m08_release K t = Some (0, u)" "sys_inv u R' A' F' H X' bs'" "run_stat u = ADC_STOP" "open_cnt u = 0"
    by blast
  then have "ads131m08_release K t = Some (0, u) \<and> sys_inv u R' A' F' H X' bs' \<and>
       run_stat u = ADC_STOP \<and> fst (ads131m08_open u) = 0" by (simp add: ads131m08_open_def)
  moreover have "ads131m08_open t = (- EBUSY, t)" using t by (simp add: ads131m08_open_def)
  ultimately show ?thesis using J t(1) by blast
qed

theorem open_exclusive_witness:
  "\<exists>(s :: unit drv) t u. ads131m08_open s = (0, t) \<and> ads131m08_open t = (- EBUSY, t) \<and>
     ads131m08_release k0 t = Some (0, u) \<and> fst (ads131m08_open u) = 0"
proof -
  obtain s :: "unit drv" and X where
    s: "sys_inv s [] [] [0..<CHUNK_BUF_CNT] [] X (replicate CHUNK_BUF_CNT fresh_chunk_buf)" "open_cnt s = 0"
    using k0_up by blast
  have o: "ads131m08_open s = (0, s\<lparr>open_cnt := 1\<rparr>)" using s(2) by (simp add: ads131m08_open_def)
  have K: "kenv_ok k0" using k0_kernel by (simp add: kernel_def)
  from open_exclusive [OF s(1) K o] o show ?thesis by blast
qed

lemma poll_ok:
  assumes I: "drv_inv s R A F H X bs"
  shows "ads131m08_poll s = Some (if R = [] then 0 else 0x41)"
proof -
  have "data_inv s R A F H (Some X) bs" using I by (simp add: drv_inv_def)
  from data_smpl_cnt_ok [OF this, of False False] show ?thesis
    by (simp add: ads131m08_poll_def POLLIN_def POLLRDNORM_def)
qed

text \<open>Poll reports readable exactly when a chunk is ready, which is when a read returns data
  without sleeping.\<close>

theorem poll_ready:
  assumes I: "drv_inv s R A F H X bs"
  shows "ads131m08_poll s = Some (if R = [] then 0 else 0x41)"
  by (rule poll_ok [OF assms])

theorem poll_ready_witness: "\<exists>s :: unit drv. ads131m08_poll s = Some 0x41"
proof -
  obtain s :: "unit drv" and X bs where "sys_inv s [0] [] [1..<CHUNK_BUF_CNT] [] X bs" using k0_ready by blast
  then have "drv_inv s [0] [] [1..<CHUNK_BUF_CNT] [] X bs" by (simp add: sys_inv_def)
  from poll_ready [OF this] show ?thesis by auto
qed

lemma proc_show_ok:
  assumes I: "drv_inv s R A F H X bs"
  shows "\<exists>ls. proc_show s = Some (0, [SeqVersion ads131m08_driver_version,
      SeqSummary (run_stat s) (open_cnt s) (int (length F)) (int (length R)) (int (length A)) (sint (drop_cnt s))] @ ls) \<and>
    ls = map (\<lambda>i. SeqBuf (int i + 1) (c_stat (bs ! i)) (c_idx (bs ! i)) (c_chunk_sz (bs ! i))) [0..<8] \<and>
    length F + length R + length A + length H = 8"
proof -
  have D: "data_inv s R A F H (Some X) bs" using I by (simp add: drv_inv_def)
  have "ads131m08_data_smpl_cnt True True s = Some (int (length R), Some (int (length F)), Some (int (length A)))"
    using data_smpl_cnt_ok [OF D, of True True] by simp
  then have cnt: "list_get_cnt (free_list s) s = Some (int (length F))" "list_get_cnt (active_list s) s = Some (int (length A))"
    "list_get_cnt (ready_list s) s = Some (int (length R))"
    by (auto simp: ads131m08_data_smpl_cnt_def Option.bind_eq_Some_conv)
  have bufs: "seq_show_bufs is s = Some (map (\<lambda>i. SeqBuf (int i + 1) (c_stat (bs ! i)) (c_idx (bs ! i)) (c_chunk_sz (bs ! i))) is)"
    if "set is \<subseteq> {0..<CHUNK_BUF_CNT}" for "is"
    using that
  proof (induction "is")
    case (Cons i "is")
    have "get_buf i s = Some (bs ! i)" using data_get_buf(1) [OF D, of i] owned_lt(1) [of R A F H] Cons.prems D
      by (auto simp: data_inv_def bufs_ok_def get_buf_def nth_opt_def)
    with Cons show ?case by simp
  qed simp
  have "R @ A @ F @ H \<noteq> [] \<longrightarrow> length F + length R + length A + length H = 8"
    using owned_lengths [of R A F H] D by (simp add: data_inv_def CHUNK_BUF_CNT_def)
  moreover have "R @ A @ F @ H \<noteq> []" using owned_lengths [of R A F H] D by (auto simp: data_inv_def CHUNK_BUF_CNT_def)
  ultimately show ?thesis
    using cnt bufs [of "[0..<CHUNK_BUF_CNT]"]
    by (simp add: proc_show_def ads131m08_data_buf_seq_show_def ads131m08_run_stat_def CHUNK_BUF_CNT_def)
qed

text \<open>The report of \<open>/proc/ads131m08\<close>: after the version line one line with the run state, the
  open count, the lengths of the free, ready and active lists, and the drop counter; then one
  line per chunk buffer. The three lengths and the chunks in readers' hands make eight.\<close>

theorem proc_report:
  assumes I: "drv_inv s R A F H X bs"
  shows "\<exists>ls. proc_show s = Some (0, [SeqVersion ads131m08_driver_version,
      SeqSummary (run_stat s) (open_cnt s) (int (length F)) (int (length R)) (int (length A)) (sint (drop_cnt s))] @ ls) \<and>
    ls = map (\<lambda>i. SeqBuf (int i + 1) (c_stat (bs ! i)) (c_idx (bs ! i)) (c_chunk_sz (bs ! i))) [0..<8] \<and>
    length F + length R + length A + length H = 8"
  by (rule proc_show_ok [OF assms])

theorem proc_report_witness:
  "\<exists>(s :: unit drv) ls. proc_show s = Some (0, SeqVersion ''2.0'' # SeqSummary ADC_RUN (open_cnt s) 7 1 0 (sint (drop_cnt s)) # ls) \<and>
     length ls = 8"
proof -
  obtain s :: "unit drv" and X bs where s: "sys_inv s [0] [] [1..<CHUNK_BUF_CNT] [] X bs" "run_stat s = ADC_RUN"
    using k0_ready by blast
  then have "drv_inv s [0] [] [1..<CHUNK_BUF_CNT] [] X bs" by (simp add: sys_inv_def)
  from proc_report [OF this] s(2) show ?thesis
    by (intro exI [of _ s]) (auto simp: ads131m08_driver_version_def CHUNK_BUF_CNT_def)
qed

section \<open>Ioctls\<close>

text \<open>The exact state after the chunk-size ioctl.\<close>

lemma ioctl_chunk_sz_eq:
  assumes "chunk_buf_list s = Some bs" "CHUNK_BUF_CNT = length bs" "run_stat s = ADC_STOP" "ioctl_chunk_sz arg s = Some (r, t)"
  shows "t = (if 0 < c_int_of_ulong arg
    then s\<lparr>chunk_buf_list := Some (map (\<lambda>c. c\<lparr>c_chunk_sz := chunk_sz t, c_idx := 0\<rparr>) bs), chunk_sz := chunk_sz t\<rparr> else s)"
proof (cases "0 < c_int_of_ulong arg")
  case True
  then have "0 < arg" by (cases "arg = 0") (simp_all add: c_int_of_ulong_def word_gt_0)
  with assms(3,4) resize_eq [OF assms(1,2) True] True show ?thesis
    by (auto simp: ioctl_chunk_sz_def ads131m08_run_stat_def ADC_RUN_def ADC_STOP_def)
next
  case False
  with assms(3,4) show ?thesis
    by (auto simp: ioctl_chunk_sz_def ads131m08_run_stat_def ADC_RUN_def ADC_STOP_def ads131m08_data_resize_chunk_buf_def
        split: if_splits)
qed

text \<open>C27: the chunk-size ioctl of a stopped driver. The argument itself is the size, an \<open>unsigned long\<close>
  that is cut to \<open>int\<close>: a positive result is clamped to 320 and becomes the size of all eight
  buffers, which are emptied; anything else leaves the whole state as it is; nothing else changes
  in either case, and the size in force, between 1 and 320, is returned. So 2 to the power of 32 plus
  5 sets five, and 2 to the power of 31 is ignored. The README passes the address of the size
  instead (\<open>ioctl(fd, ADS_IOCTL_CMD_CHUNK_SZ, &chunk_sz)\<close>): such a call sets whatever the low half
  of the address is, 320 or nothing in practice.\<close>

theorem ioctl_chunk_size:
  assumes I: "sys_inv s R A F H X bs" and stop: "run_stat s = ADC_STOP"
  shows "\<exists>t bs'. ads131m08_ioctl K CMD_CHUNK_SZ_nr arg s = Some (chunk_sz t, t) \<and> sys_inv t [] [] F H X bs' \<and>
    chunk_sz t = (if 0 < c_int_of_ulong arg then min 320 (c_int_of_ulong arg) else chunk_sz s) \<and>
    1 \<le> chunk_sz t \<and> chunk_sz t \<le> 320 \<and> (\<forall>c \<in> set bs'. c_chunk_sz c = chunk_sz t) \<and>
    bs' = (if 0 < c_int_of_ulong arg then map (\<lambda>c. c\<lparr>c_chunk_sz := chunk_sz t, c_idx := 0\<rparr>) bs else bs) \<and>
    t = (if 0 < c_int_of_ulong arg then s\<lparr>chunk_buf_list := Some bs', chunk_sz := chunk_sz t\<rparr> else s)"
proof -
  have "run_stat s \<noteq> ADC_RUN" using stop by (simp add: ADC_RUN_def ADC_STOP_def)
  from ioctl_chunk_sz_sys [OF I this, of arg] obtain t bs' where
    t: "ioctl_chunk_sz arg s = Some (chunk_sz t, t)" "sys_inv t [] [] F H X bs'"
      "chunk_sz t = (if 0 < c_int_of_ulong arg then clamp_chunk_sz (c_int_of_ulong arg) else chunk_sz s)"
      "\<forall>c \<in> set bs'. c_chunk_sz c = chunk_sz t" by blast
  have c: "chunk_buf_list s = Some bs" "CHUNK_BUF_CNT = length bs" "chunk_buf_list t = Some bs'"
    using I t(2) by (simp_all add: sys_inv_def drv_inv_def data_inv_def bufs_ok_def)
  note e = ioctl_chunk_sz_eq [OF c(1,2) stop t(1)]
  have bs': "bs' = (if 0 < c_int_of_ulong arg then map (\<lambda>c. c\<lparr>c_chunk_sz := chunk_sz t, c_idx := 0\<rparr>) bs else bs)"
    using arg_cong [OF e, of chunk_buf_list] c by (auto split: if_splits)
  have "1 \<le> chunk_sz t" "chunk_sz t \<le> 320"
    using t(2) by (simp_all add: sys_inv_def drv_inv_def data_inv_def bufs_ok_def MAX_CHUNK_SZ_def)
  moreover have "ads131m08_ioctl K CMD_CHUNK_SZ_nr arg s = Some (chunk_sz t, t)"
    using t(1) stop by (simp add: ads131m08_ioctl_def ads131m08_run_stat_def ADC_RUN_def ADC_STOP_def)
  moreover have "clamp_chunk_sz n = min 320 n" for n by (simp add: clamp_chunk_sz_def MAX_CHUNK_SZ_def)
  moreover have "t = (if 0 < c_int_of_ulong arg then s\<lparr>chunk_buf_list := Some bs', chunk_sz := chunk_sz t\<rparr> else s)"
    using e bs' by (cases "0 < c_int_of_ulong arg") simp_all
  ultimately show ?thesis using t bs' by (intro exI [of _ t] exI [of _ bs']) simp
qed

theorem ioctl_chunk_size_witness:
  "\<exists>(s :: unit drv) t1 t2 t3. ads131m08_ioctl k0 CMD_CHUNK_SZ_nr 0x100000005 s = Some (5, t1) \<and>
     ads131m08_ioctl k0 CMD_CHUNK_SZ_nr 0x80000000 s = Some (40, t2) \<and>
     ads131m08_ioctl k0 CMD_CHUNK_SZ_nr 321 s = Some (320, t3)"
proof -
  obtain s :: "unit drv" and X where
    s: "sys_inv s [] [] [0..<CHUNK_BUF_CNT] [] X (replicate CHUNK_BUF_CNT fresh_chunk_buf)" "run_stat s = ADC_STOP"
    "chunk_sz s = 40" using k0_up by blast
  have c: "c_int_of_ulong 0x100000005 = 5" "c_int_of_ulong 0x80000000 < 0" "c_int_of_ulong 321 = 321"
    by (simp_all add: c_int_of_ulong_def)
  have "\<exists>t. ads131m08_ioctl k0 CMD_CHUNK_SZ_nr 0x100000005 s = Some (5, t)"
    "\<exists>t. ads131m08_ioctl k0 CMD_CHUNK_SZ_nr 0x80000000 s = Some (40, t)"
    "\<exists>t. ads131m08_ioctl k0 CMD_CHUNK_SZ_nr 321 s = Some (320, t)"
    using ioctl_chunk_size [OF s(1,2), of k0 "0x100000005"] ioctl_chunk_size [OF s(1,2), of k0 "0x80000000"]
      ioctl_chunk_size [OF s(1,2), of k0 321] c s(3) by auto
  then show ?thesis by blast
qed

text \<open>C26: while the driver is running every ioctl but STANDBY and STAT is refused with -EBUSY and
  changes nothing; STANDBY and STAT 0 stop the driver, and any other STAT changes nothing: 0 is
  returned for the argument 1, else the run state 1.\<close>

theorem ioctl_running:
  assumes run: "run_stat s = ADC_RUN"
  shows "ads131m08_ioctl K cmd arg s =
    (case cmd of
       CMD_STANDBY_nr \<Rightarrow> ads131m08_run_cmd K ADC_STOP s
     | CMD_STAT_nr \<Rightarrow> (if c_int_of_ulong arg = 0 then ads131m08_run_cmd K ADC_STOP s
                     else if c_int_of_ulong arg = 1 then Some (0, s) else Some (1, s))
     | _ \<Rightarrow> Some (- EBUSY, s))"
  using run
  by (cases cmd) (auto simp: ads131m08_ioctl_def ads131m08_run_stat_def cmd_stat_def Let_def
      ads131m08_run_cmd_def ADC_RUN_def ADC_STOP_def SUCCESS_def)

theorem ioctl_running_witness:
  "\<exists>s :: unit drv. run_stat s = ADC_RUN \<and> ads131m08_ioctl k0 CMD_WREG_nr 4096 s = Some (- EBUSY, s) \<and>
     ads131m08_ioctl k0 CMD_STAT_nr 7 s = Some (1, s)"
proof -
  obtain s :: "unit drv" where s: "run_stat s = ADC_RUN" using k0_running by blast
  have "c_int_of_ulong 7 = 7" by (simp add: c_int_of_ulong_def)
  with s ioctl_running [OF s, of k0 CMD_WREG_nr 4096] ioctl_running [OF s, of k0 CMD_STAT_nr 7] show ?thesis by auto
qed

section \<open>The ADC lock\<close>

text \<open>\<open>ads131m08_adc_lock_cnt\<close> ends after at most \<open>cnt\<close> attempts: a free lock is taken at once,
  without a delay; a lock that stays taken costs one microsecond per attempt and gives FAIL, as
  does a count that is not positive. Either way of releasing makes it free.\<close>

theorem adc_lock_bounded:
  "ads131m08_adc_lock_cnt cnt s =
     (if cnt \<le> 0 then (FAIL, s)
      else if adc_lock s = 0 then (SUCCESS, s\<lparr>adc_lock := 1\<rparr>)
      else (FAIL, s\<lparr>klog := klog s @ replicate (nat cnt) (KUdelay 1)\<rparr>)) \<and>
   (0 < cnt \<longrightarrow> fst (ads131m08_adc_lock_cnt cnt (ads131m08_adc_unlock s)) = SUCCESS) \<and>
   ads131m08_adc_lock_release s = ads131m08_adc_unlock s"
proof -
  have busy: "adc_lock_loop n t = (FAIL, t\<lparr>klog := klog t @ replicate n (KUdelay 1)\<rparr>)" if "adc_lock t \<noteq> 0" for n and t :: "'a drv"
    using that
  proof (induction n arbitrary: t)
    case (Suc n)
    from Suc.IH [of "log_ev (KUdelay 1) t"] Suc.prems show ?case
      by (simp add: ads131m08_adc_try_lock_def)
  qed simp
  have free: "adc_lock_loop (Suc n) t = (SUCCESS, t\<lparr>adc_lock := 1\<rparr>)" if "adc_lock t = 0" for n and t :: "'a drv"
    using that by (simp add: ads131m08_adc_try_lock_def)
  have n: "\<exists>n. nat cnt = Suc n" if "0 < cnt" using that by (intro exI [of _ "nat cnt - 1"]) simp
  show ?thesis
    using n busy [of s "nat cnt"] free [of s] free [of "ads131m08_adc_unlock s"]
    by (auto simp: ads131m08_adc_lock_cnt_def ads131m08_adc_unlock_def ads131m08_adc_lock_release_def)
qed

theorem adc_lock_bounded_witness:
  "ads131m08_adc_lock_cnt 3 drv0 = (SUCCESS, drv0\<lparr>adc_lock := 1\<rparr>)"
  using adc_lock_bounded [of 3 drv0] by (simp add: drv0_def drv_off_def)

end
