(* ===== verification/Concurrent.thy ===== *)
theory Concurrent
  imports Interleaving Char_Device
begin

text \<open>
  What holds of the driver whatever the interleaving of the interrupt thread, a start or stop,
  and the readers.
\<close>

section \<open>Runs\<close>

lemma ctl_next_call: "ctl_next K pc s = Some (pc', t) \<Longrightarrow> pc \<noteq> NoCall \<Longrightarrow> pc' \<noteq> NoCall"
  by (cases pc) (auto simp: Option.bind_eq_Some_conv split: if_splits prod.splits elim: after_cleanup.elims)

lemma ctl_path:
  assumes "ctl_run K n pc s = Some (pc', t)" "irq_at w = Idle" "ctl_at w = pc" "pc \<noteq> NoCall" "drv w = s"
  shows "\<exists>w'. (fstep K)\<^sup>*\<^sup>* w w' \<and> drv w' = t \<and> ctl_at w' = pc' \<and> irq_at w' = Idle \<and> held w' = held w \<and>
    closing w' = closing w \<and> fetched w' = fetched w \<and> sent w' = sent w"
  using assms
proof (induction n arbitrary: pc s w)
  case 0
  then show ?case by auto
next
  case (Suc n)
  then obtain p u where u: "ctl_next K pc s = Some (p, u)" "ctl_run K n p u = Some (pc', t)"
    by (auto simp: Option.bind_eq_Some_conv)
  let ?w = "after_stage p u w"
  have w: "irq_at ?w = Idle" "ctl_at ?w = p" "drv ?w = u" "held ?w = held w" "closing ?w = closing w"
    "fetched ?w = fetched w" "sent ?w = sent w" using Suc.prems by (simp_all add: after_stage_def)
  have "fstep K w ?w" using Suc.prems u by (intro fstep.ctl) simp_all
  with Suc.IH [OF u(2) w(1,2) ctl_next_call [OF u(1) Suc.prems(4)] w(3)] w(4-7) show ?case
    by (metis converse_rtranclp_into_rtranclp)
qed

lemma irq_path:
  assumes "irq_run K n pc s = Some (pc', t)" "irq_at w = pc" "drv w = s"
  shows "\<exists>w'. (fstep K)\<^sup>*\<^sup>* w w' \<and> drv w' = t \<and> irq_at w' = pc' \<and> ctl_at w' = ctl_at w \<and> held w' = held w \<and>
    gone w' = gone w"
  using assms
proof (induction n arbitrary: pc s w)
  case 0
  then show ?case by auto
next
  case (Suc n)
  then obtain p u where u: "irq_next K pc s = Some (p, u)" "irq_run K n p u = Some (pc', t)"
    by (auto simp: Option.bind_eq_Some_conv)
  show ?case
  proof (cases "pc = Idle")
    case True
    with u Suc.IH [OF u(2)] Suc.prems show ?thesis by auto
  next
    case False
    let ?w = "w\<lparr>drv := u, irq_at := p, sent := sent w @ sent_smpls K (irq_at w) (drv w)\<rparr>"
    have "fstep K w ?w" using Suc.prems u False by (intro fstep.irq) simp_all
    with Suc.IH [OF u(2), of ?w] show ?thesis by (simp, metis converse_rtranclp_into_rtranclp)
  qed
qed

definition fworld0 :: "'d drv \<Rightarrow> 'd fworld" where
  "fworld0 t = \<lparr>drv = t, held = [], sent = [], gone = [], irq_at = Idle, ctl_at = NoCall, closing = False,
     snap = (\<lambda>_. []), emptied = {}\<rparr>"

lemma fworld0_started: "ads131m08_probe k0 drv0 = Some (SUCCESS, t) \<Longrightarrow> fstarted k0 (fworld0 t)"
  using k0_started [of t] by (simp add: fstarted_def fworld0_def world0_def world.truncate_def)

lemma fworld0_simps [simp]:
  "drv (fworld0 t) = t" "held (fworld0 t) = []" "gone (fworld0 t) = []" "emptied (fworld0 t) = {}" "irq_at (fworld0 t) = Idle"
  "ctl_at (fworld0 t) = NoCall"
  by (simp_all add: fworld0_def)

text \<open>A WAKEUP and one interrupt, stage by stage, from any stopped state.\<close>

lemma k0_fine_sample:
  fixes w0 :: "unit fworld"
  assumes I: "sys_inv (drv w0) [] [] [0..<CHUNK_BUF_CNT] [] X bs" and f: "run_stat (drv w0) = ADC_STOP" "gpio_irq_no (drv w0) = 9"
    and e: "irq_at w0 = Idle" "ctl_at w0 = NoCall" "held w0 = []" "fetched w0 = []"
  shows "\<exists>w X bs. (fstep k0)\<^sup>*\<^sup>* w0 w \<and> irq_at w = Idle \<and> held w = [] \<and> fetched w = [] \<and> ctl_at w = NoCall \<and>
     sys_inv (drv w) (if chunk_sz (drv w0) \<le> 1 then [0] else []) (if chunk_sz (drv w0) \<le> 1 then [] else [0])
       [1..<CHUNK_BUF_CNT] [] X bs \<and> run_stat (drv w) = ADC_RUN \<and>
     pending bs [0] [] = [\<lparr>s_ts = 77, s_data = frame_smpl (\<lambda>i. of_nat (3 * i))\<rparr>] \<and>
     (\<exists>w'. (fstep k0)\<^sup>*\<^sup>* w0 w' \<and> irq_at w' = Woken)"
proof -
  have up: "[0..<CHUNK_BUF_CNT] = 0 # [1..<CHUNK_BUF_CNT]" by (simp add: CHUNK_BUF_CNT_def upt_rec)
  from k0_start [OF I f] obtain t1 X1 where t1: "ads131m08_run_cmd k0 ADC_RUN (drv w0) = Some (SUCCESS, t1)"
    "sys_inv t1 [] [] (0 # [1..<CHUNK_BUF_CNT]) [] X1 bs" "run_stat t1 = ADC_RUN" "irq_registered t1"
    "chunk_sz t1 = chunk_sz (drv w0)" unfolding up by blast
  let ?u = "ads131m08_isr k0 t1"
  from k0_irq [OF t1(2-4)] t1(5) obtain v X' bs' where v: "ads131m08_irq_thread k0 ?u = Some v"
    "sys_inv v (if chunk_sz (drv w0) \<le> 1 then [0] else []) (if chunk_sz (drv w0) \<le> 1 then [] else [0]) [1..<CHUNK_BUF_CNT] [] X' bs'"
    "pending bs' [0] [] = [\<lparr>s_ts = 77, s_data = frame_smpl (\<lambda>i. of_nat (3 * i))\<rparr>]" "run_stat v = ADC_RUN" by auto
  let ?w1 = "w0\<lparr>ctl_at := ctl_entry ADC_RUN (drv w0), closing := False\<rparr>"
  have "ioctl_run_cmd CMD_WAKEUP_nr 0 (drv w0) = Some ADC_RUN" using f(1) by (simp add: ioctl_run_cmd_def ADC_RUN_def ADC_STOP_def)
  then have s1: "fstep k0 w0 ?w1" using fstep.cmd [of w0 CMD_WAKEUP_nr 0 ADC_RUN k0] e by simp
  have "ctl_run k0 11 (ctl_entry ADC_RUN (drv w0)) (drv w0) = Some (Done SUCCESS, t1)" using t1(1) by (simp add: ctl_run_cmd)
  moreover have "ctl_entry ADC_RUN (drv w0) \<noteq> NoCall" by (simp add: ctl_entry_def)
  ultimately obtain w2 where w2: "(fstep k0)\<^sup>*\<^sup>* ?w1 w2" "drv w2 = t1" "ctl_at w2 = Done SUCCESS" "irq_at w2 = Idle"
    "held w2 = []" "closing w2 = False" "fetched w2 = []"
    using ctl_path [of k0 11 "ctl_entry ADC_RUN (drv w0)" "drv w0" "Done SUCCESS" t1 ?w1] e by auto
  have s3: "fstep k0 w2 (w2\<lparr>ctl_at := NoCall, drv := t1\<rparr>)" using fstep.ret [OF w2(3), of k0] w2 by simp
  let ?w4 = "w2\<lparr>ctl_at := NoCall, drv := ?u, irq_at := Woken\<rparr>"
  have s4: "fstep k0 (w2\<lparr>ctl_at := NoCall, drv := t1\<rparr>) ?w4"
    using fstep.isr [of "w2\<lparr>ctl_at := NoCall, drv := t1\<rparr>" k0] t1(4) w2(4) by simp
  have "irq_run k0 9 Woken ?u = Some (Idle, v)" using v(1) by (simp add: irq_run_thread)
  then obtain w where w: "(fstep k0)\<^sup>*\<^sup>* ?w4 w" "drv w = v" "irq_at w = Idle" "ctl_at w = NoCall" "held w = []" "fetched w = []"
    using irq_path [of k0 9 Woken ?u Idle v ?w4] w2 by auto
  from s1 w2(1) s3 s4 have woken: "(fstep k0)\<^sup>*\<^sup>* w0 ?w4" by (meson converse_rtranclp_into_rtranclp rtranclp.rtrancl_into_rtrancl rtranclp_trans)
  with w(1) have "(fstep k0)\<^sup>*\<^sup>* w0 w" by (meson rtranclp_trans)
  moreover have "\<exists>w'. (fstep k0)\<^sup>*\<^sup>* w0 w' \<and> irq_at w' = Woken" by (rule exI [of _ ?w4]) (use woken in simp)
  ultimately show ?thesis using v(2-4) w unfolding w(2) [symmetric] by blast
qed

text \<open>After probe: one sample in the active chunk.\<close>

lemma k0_fine_run:
  "\<exists>t w F X bs. fstarted k0 (fworld0 t) \<and> run_stat t = ADC_STOP \<and> (fstep k0)\<^sup>*\<^sup>* (fworld0 t) w \<and> irq_at w = Idle \<and>
     held w = [] \<and> fetched w = [] \<and> ctl_at w = NoCall \<and> sys_inv (drv w) [] [0] F [] X bs \<and>
     taken (bs ! 0) = [\<lparr>s_ts = 77, s_data = frame_smpl (\<lambda>i. of_nat (3 * i))\<rparr>] \<and>
     (\<exists>w'. (fstep k0)\<^sup>*\<^sup>* (fworld0 t) w' \<and> irq_at w' = Woken)"
proof -
  obtain t X where t: "ads131m08_probe k0 drv0 = Some (SUCCESS, t)"
    and I: "sys_inv t [] [] [0..<CHUNK_BUF_CNT] [] X (replicate CHUNK_BUF_CNT fresh_chunk_buf)"
    and f: "run_stat t = ADC_STOP" "gpio_irq_no t = 9" "chunk_sz t = 40" using k0_up by blast
  from k0_fine_sample [of "fworld0 t", simplified, OF I f(1,2)] f(3) fworld0_started [OF t] f(1) show ?thesis
    by (auto simp: pending_def simp del: pending_simps) metis
qed

text \<open>With chunks of one sample: the chunk is ready; a reader has fetched it.\<close>

lemma k0_fine_ready:
  "\<exists>t w X bs. fstarted k0 (fworld0 t) \<and> (fstep k0)\<^sup>*\<^sup>* (fworld0 t) w \<and> held w = [] \<and> fetched w = [] \<and>
     ctl_at w = NoCall \<and> sys_inv (drv w) [0] [] [1..<CHUNK_BUF_CNT] [] X bs \<and> run_stat (drv w) = ADC_RUN \<and>
     taken (bs ! 0) = [\<lparr>s_ts = 77, s_data = frame_smpl (\<lambda>i. of_nat (3 * i))\<rparr>]"
proof -
  obtain t X where t: "ads131m08_probe k0 drv0 = Some (SUCCESS, t)"
    and I: "sys_inv t [] [] [0..<CHUNK_BUF_CNT] [] X (replicate CHUNK_BUF_CNT fresh_chunk_buf)"
    and f: "run_stat t = ADC_STOP" "gpio_irq_no t = 9" "chunk_sz t = 40" using k0_up by blast
  have one: "c_int_of_ulong 1 = 1" by (simp add: c_int_of_ulong_def)
  have nr: "run_stat t \<noteq> ADC_RUN" using f(1) by (simp add: ADC_RUN_def ADC_STOP_def)
  from ioctl_chunk_sz_sys [OF I nr, of 1] one obtain t' bs where t': "ioctl_chunk_sz 1 t = Some (1, t')"
    "sys_inv t' [] [] [0..<CHUNK_BUF_CNT] [] X bs" "chunk_sz t' = 1" "ctl (t'\<lparr>chunk_sz := chunk_sz t\<rparr>) = ctl t"
    by (auto simp: clamp_chunk_sz_def MAX_CHUNK_SZ_def)
  let ?w1 = "(fworld0 t)\<lparr>drv := t', emptied := {}\<rparr>"
  have "ads131m08_ioctl k0 CMD_CHUNK_SZ_nr 1 t = Some (1, t')" "ioctl_run_cmd CMD_CHUNK_SZ_nr 1 t = None"
    using t'(1) nr by (simp_all add: ads131m08_ioctl_def ads131m08_run_stat_def ioctl_run_cmd_def)
  then have s1: "fstep k0 (fworld0 t) ?w1" using fstep.other [of "fworld0 t" CMD_CHUNK_SZ_nr 1 k0] by (simp cong: if_cong)
  from k0_fine_sample [of ?w1, simplified, OF t'(2)] t'(3) f ctl_fields(7,14) [OF t'(4)] obtain w X2 bs2 where
    w: "(fstep k0)\<^sup>*\<^sup>* ?w1 w" "held w = []" "fetched w = []" "ctl_at w = NoCall"
      "sys_inv (drv w) [0] [] [1..<CHUNK_BUF_CNT] [] X2 bs2" "run_stat (drv w) = ADC_RUN"
      "taken (bs2 ! 0) = [\<lparr>s_ts = 77, s_data = frame_smpl (\<lambda>i. of_nat (3 * i))\<rparr>]" by auto
  from s1 w(1) have "(fstep k0)\<^sup>*\<^sup>* (fworld0 t) w" by (rule converse_rtranclp_into_rtranclp)
  with w(2-7) fworld0_started [OF t] show ?thesis by blast
qed

lemma k0_fine_held:
  "\<exists>t w. fstarted k0 (fworld0 t) \<and> (fstep k0)\<^sup>*\<^sup>* (fworld0 t) w \<and> held w = [0] \<and>
     ctl_at w = NoCall \<and> snap w 0 = [\<lparr>s_ts = 77, s_data = frame_smpl (\<lambda>i. of_nat (3 * i))\<rparr>] \<and>
     fetched w = snap w 0 \<and> 0 \<notin> emptied w"
proof -
  from k0_fine_ready obtain t w X bs where w: "fstarted k0 (fworld0 t)" "(fstep k0)\<^sup>*\<^sup>* (fworld0 t) w" "held w = []"
    "fetched w = []" "ctl_at w = NoCall" "sys_inv (drv w) [0] [] [1..<CHUNK_BUF_CNT] [] X bs"
    "taken (bs ! 0) = [\<lparr>s_ts = 77, s_data = frame_smpl (\<lambda>i. of_nat (3 * i))\<rparr>]" by blast
  from data_get_sys(1) [OF w(6)] obtain u where u: "ads131m08_data_get (drv w) = Some (Some (Chunk 0), u)"
    "get_buf 0 u = Some (bs ! 0)" by blast
  let ?w = "w\<lparr>drv := u, held := 0 # held w, gone := gone w @ map (Pair Fetched) (taken (bs ! 0)),
    snap := (snap w)(0 := taken (bs ! 0)), emptied := emptied w - {0}\<rparr>"
  have "(fstep k0)\<^sup>*\<^sup>* (fworld0 t) ?w" using w(2) fstep.get [OF u] by (rule rtranclp.rtrancl_into_rtrancl)
  moreover have "snap ?w 0 = [\<lparr>s_ts = 77, s_data = frame_smpl (\<lambda>i. of_nat (3 * i))\<rparr>]" using w(7) by simp
  ultimately show ?thesis using w(1,3-5) by (intro exI [of _ t] exI [of _ ?w]) simp
qed

text \<open>One sample acquired, then a close: the sample is discarded.\<close>

lemma k0_fine_stopped:
  "\<exists>t w. fstarted k0 (fworld0 t) \<and> (fstep k0)\<^sup>*\<^sup>* (fworld0 t) w \<and> ctl_at w = NoCall \<and> run_stat (drv w) = ADC_STOP \<and>
     fetched w = [] \<and> \<lparr>s_ts = 77, s_data = frame_smpl (\<lambda>i. of_nat (3 * i))\<rparr> \<in> set (acquired w)"
proof -
  from k0_fine_run obtain t w F X bs where w: "fstarted k0 (fworld0 t)" "(fstep k0)\<^sup>*\<^sup>* (fworld0 t) w" "irq_at w = Idle"
    "fetched w = []" "ctl_at w = NoCall" "sys_inv (drv w) [] [0] F [] X bs"
    and m: "taken (bs ! 0) = [\<lparr>s_ts = 77, s_data = frame_smpl (\<lambda>i. of_nat (3 * i))\<rparr>]" by blast
  have "heap_rep (drv w) (drv_lists [] [0] F (Some X))" "chunk_buf_list (drv w) = Some bs"
    using w(6) by (simp_all add: sys_inv_def drv_inv_def data_inv_def)
  from fine_stream [OF fine_reach [OF k0_kernel w(1,2)] this] m w(3)
  have a: "\<lparr>s_ts = 77, s_data = frame_smpl (\<lambda>i. of_nat (3 * i))\<rparr> \<in> set (acquired w)" by simp
  have rq: "fst (request_threaded_irq k0 d n) \<le> 0" for d n using k0_kernel by (simp add: kernel_def kenv_ok_def)
  from run_cmd_sys [OF w(6) rq, of ADC_STOP] obtain ret u where
    u: "ads131m08_run_cmd k0 ADC_STOP (drv w) = Some (ret, u)" "run_stat u = ADC_STOP" by auto
  let ?w1 = "w\<lparr>ctl_at := ctl_entry ADC_STOP (drv w), closing := True\<rparr>"
  have "ctl_run k0 11 (ctl_entry ADC_STOP (drv w)) (drv w) = Some (Done ret, u)" using u(1) by (simp add: ctl_run_cmd)
  moreover have "ctl_entry ADC_STOP (drv w) \<noteq> NoCall" by (simp add: ctl_entry_def)
  ultimately obtain w2 where w2: "(fstep k0)\<^sup>*\<^sup>* ?w1 w2" "drv w2 = u" "ctl_at w2 = Done ret" "fetched w2 = []" "sent w2 = sent w"
    using ctl_path [of k0 11 "ctl_entry ADC_STOP (drv w)" "drv w" "Done ret" u ?w1] w(3,4) by auto
  let ?w3 = "w2\<lparr>ctl_at := NoCall, drv := (if closing w2 then (drv w2)\<lparr>open_cnt := 0\<rparr> else drv w2)\<rparr>"
  have "(fstep k0)\<^sup>*\<^sup>* w ?w3"
    using fstep.rel [OF w(5), of k0] w2(1) fstep.ret [OF w2(3), of k0]
    by (meson converse_rtranclp_into_rtranclp rtranclp.rtrancl_into_rtrancl)
  with w(2) have "(fstep k0)\<^sup>*\<^sup>* (fworld0 t) ?w3" by (rule rtranclp_trans)
  moreover have "run_stat (drv ?w3) = ADC_STOP" "fetched ?w3 = []" "acquired ?w3 = acquired w" using w2 u(2) by simp_all
  ultimately show ?thesis using w(1) a by (intro exI [of _ t] exI [of _ ?w3]) simp
qed

section \<open>The thread returns\<close>

fun irq_left :: "irq_pc \<Rightarrow> nat" where
  "irq_left Idle = 0" | "irq_left Woken = 9" | "irq_left NoActive = 8" | "irq_left NoBuf = 1"
| "irq_left (Got b) = 7" | "irq_left (Stamped b) = 6" | "irq_left (Armed b x) = 5"
| "irq_left (Sent b x ret) = 4" | "irq_left (Filled b) = 3" | "irq_left (Full b) = 2"
| "irq_left (Notify b) = 1" | "irq_left (Back b) = 1"

lemma irq_left_next: "irq_next K pc s = Some (pc', t) \<Longrightarrow> pc \<noteq> Idle \<Longrightarrow> irq_left pc' < irq_left pc"
  by (cases pc) (auto simp: Option.bind_eq_Some_conv split: if_splits option.splits prod.splits)

lemma irq_left_step:
  assumes "irq_at w \<noteq> Idle" "fstep K w w'"
  shows "irq_at w' = irq_at w \<or> irq_left (irq_at w') < irq_left (irq_at w)"
  using assms(2,1) by (cases rule: fstep.cases) (auto simp: after_stage_def dest: irq_left_next)

lemma irq_run_left:
  assumes "irq_inv s pc R A F H X bs" "irq_left pc \<le> n"
  shows "\<exists>t. irq_run K n pc s = Some (Idle, t)"
  using assms
proof (induction n arbitrary: pc s R A F X bs)
  case 0
  then show ?case by (cases pc) auto
next
  case (Suc n)
  show ?case
  proof (cases "pc = Idle")
    case False
    from irq_stage [OF Suc.prems(1) False, of K] obtain pc' t R' A' F' X' bs' where
      t: "irq_next K pc s = Some (pc', t)" "irq_inv t pc' R' A' F' H X' bs'" unfolding irq_stage_ok_def by blast
    from irq_left_next [OF t(1) False] Suc.prems(2) have "irq_left pc' \<le> n" by simp
    from Suc.IH [OF t(2) this] t(1) show ?thesis by simp
  qed simp
qed

lemma irq_ok_hands: "irq_ok pc s A bs \<Longrightarrow> irq_bufs pc \<noteq> [] \<Longrightarrow> A = []"
  by (cases pc) simp_all

lemma irq_bufs_le: "length (irq_bufs pc) \<le> 1"
  by (cases pc) simp_all

section \<open>Properties\<close>

text \<open>C6: cut into stages the code is the same: nine stages of the interrupt thread, run one after
  the other from the wake-up, are \<open>ads131m08_irq_thread\<close>; eleven stages of a start or stop are
  \<open>ads131m08_run_cmd\<close>, its return value in \<open>Done\<close>. One is a fault exactly when the other is.\<close>

theorem stages_compose:
  "irq_run K 9 Woken s = map_option (\<lambda>t. (Idle, t)) (ads131m08_irq_thread K s) \<and>
   ctl_run K 11 (ctl_entry run s) s = map_option (\<lambda>(ret, t). (Done ret, t)) (ads131m08_run_cmd K run s)"
  by (simp add: irq_run_thread ctl_run_cmd)

text \<open>C1: no sample is lost or reordered between the bus and the readers, also while handlers overlap.
  Of all samples that the device has clocked out to the interrupt thread since probe, each in a
  good transfer (\<open>sent\<close>), those for which there was no chunk are marked \<open>Dropped\<close> and are nowhere; the
  others, in the order sent, are: the samples that have left the driver (\<open>gone\<close>: each \<open>Fetched\<close> by a reader or \<open>Discarded\<close> when
  a start or stop emptied the list it was on), then those in the ready chunks, the active chunk or
  the thread's chunk, then the one in the thread's transfer buffer or not yet counted. So it is at
  every stage of the interrupt thread, of a start or stop, and of any number of readers; there
  each of the eight chunk buffers is on exactly one list or in the hands of the thread or one
  reader, each of the eight transfer buffers in the pool or in the thread's hands, and the lists
  in memory are well-formed.\<close>

theorem fine_samples_in_order:
  assumes K: "kernel K" and st: "fstarted K w0" and run: "(fstep K)\<^sup>*\<^sup>* w0 w"
  shows "\<exists>R A F X bs. heap_rep (drv w) (drv_lists R A F (Some X)) \<and> chunk_buf_list (drv w) = Some bs \<and>
    mset (R @ A @ F @ irq_bufs (irq_at w) @ held w) = mset [0..<8] \<and> length (A @ irq_bufs (irq_at w)) \<le> 1 \<and>
    length X + length (irq_xfers (irq_at w)) = 8 \<and>
    with_fate Stored (sent w) = map snd (gone w) @
      concat (map (\<lambda>b. taken (bs ! b)) (R @ A @ irq_bufs (irq_at w))) @ in_flight (irq_at w) (drv w) bs"
proof -
  from fine_reach [OF assms] obtain R A F X bs where I: "irq_inv (drv w) (irq_at w) R A F (held w) X bs"
    and h: "acquired w = map snd (gone w) @ stream (irq_at w) (drv w) R A bs"
    unfolding fine_inv_def by blast
  note D = irq_invD [OF I]
  have "length (A @ irq_bufs (irq_at w)) \<le> 1"
    using irq_ok_hands [OF D(6)] irq_bufs_le [of "irq_at w"] D(1)
    by (cases "irq_bufs (irq_at w) = []") (simp_all add: data_inv_def owned_def)
  moreover have "heap_rep (drv w) (drv_lists R A F (Some X))" "chunk_buf_list (drv w) = Some bs"
    "mset (R @ A @ F @ irq_bufs (irq_at w) @ held w) = mset [0..<8]"
    using D(1) by (simp_all add: data_inv_def owned_def CHUNK_BUF_CNT_def)
  moreover have "length X + length (irq_xfers (irq_at w)) = 8" using I by (simp add: irq_inv_def XFER_BUF_NUM_def)
  moreover have "acquired w = map snd (gone w) @
      concat (map (\<lambda>b. taken (bs ! b)) (R @ A @ irq_bufs (irq_at w))) @ in_flight (irq_at w) (drv w) bs"
    using h by (simp add: stream_def pending_def)
  ultimately show ?thesis by blast
qed

theorem fine_samples_in_order_witness:
  "\<exists>w0 w R A bs. fstarted k0 w0 \<and> (fstep k0)\<^sup>*\<^sup>* w0 w \<and> run_stat (drv w) = ADC_RUN \<and> irq_at w = Idle \<and>
     with_fate Stored (sent w) = map snd (gone w) @ concat (map (\<lambda>b. taken (bs ! b)) (R @ A)) \<and> A = [0]"
proof -
  from k0_fine_run obtain t w F X bs where w: "fstarted k0 (fworld0 t)" "(fstep k0)\<^sup>*\<^sup>* (fworld0 t) w" "irq_at w = Idle"
    "ctl_at w = NoCall" "sys_inv (drv w) [] [0] F [] X bs" by blast
  from fine_samples_in_order [OF k0_kernel w(1,2)] w(3,4) obtain R A F' X' bs' where
    r: "heap_rep (drv w) (drv_lists R A F' (Some X'))"
      "acquired w = map snd (gone w) @ concat (map (\<lambda>b. taken (bs' ! b)) (R @ A))" by auto
  have "heap_rep (drv w) (drv_lists [] [0] F (Some X))" using w(5) by (simp add: sys_inv_def drv_inv_def data_inv_def)
  from rep_unique [OF r(1) this] have "drv_lists R A F' (Some X') ActiveL = drv_lists [] [0] F (Some X) ActiveL" by simp
  then have "A = [0]" by (cases A) auto
  moreover have "run_stat (drv w) = ADC_RUN" using w(5) by (simp add: sys_inv_def)
  ultimately show ?thesis using w r(2) by blast
qed



text \<open>C11: the interrupt thread always comes to its end: from whatever stage it is at, in every state
  the interleavings reach, at most nine stages of its own take it back to where it sleeps; and
  whatever step is taken in between, by whom ever, either leaves its place alone or brings it
  nearer to the end. So \<open>free_irq\<close>, and with it a stop or a release, does not wait forever.\<close>

theorem fine_irq_completes:
  assumes K: "kernel K" and st: "fstarted K w0" and run: "(fstep K)\<^sup>*\<^sup>* w0 w"
  shows "(\<exists>t. irq_run K 9 (irq_at w) (drv w) = Some (Idle, t)) \<and> irq_left (irq_at w) \<le> 9 \<and>
    (irq_at w \<noteq> Idle \<longrightarrow> (\<forall>w'. fstep K w w' \<longrightarrow> irq_at w' = irq_at w \<or> irq_left (irq_at w') < irq_left (irq_at w)))"
proof -
  from fine_reach [OF assms] obtain R A F X bs where I: "irq_inv (drv w) (irq_at w) R A F (held w) X bs"
    unfolding fine_inv_def by blast
  have le: "irq_left (irq_at w) \<le> 9" by (cases "irq_at w") simp_all
  with irq_run_left [OF I le] irq_left_step show ?thesis by blast
qed

theorem fine_irq_completes_witness:
  "\<exists>w0 w t. fstarted k0 w0 \<and> (fstep k0)\<^sup>*\<^sup>* w0 w \<and> irq_at w = Woken \<and> irq_run k0 9 Woken (drv w) = Some (Idle, t)"
proof -
  from k0_fine_run obtain t w where w: "fstarted k0 (fworld0 t)" "(fstep k0)\<^sup>*\<^sup>* (fworld0 t) w" "irq_at w = Woken" by blast
  with fine_irq_completes [OF k0_kernel w(1,2)] show ?thesis by auto
qed

text \<open>C10: a stopped driver is quiet, also when the stop came while the interrupt thread was at work:
  whenever no start or stop is in progress and the run state is not RUN, the interrupt thread
  sleeps with nothing in its hands, the interrupt is not registered, no chunk is ready or active,
  a reader gets 0, and nothing is left behind: the samples stored since probe are, in order,
  those that readers have fetched and those that a start or stop has discarded.\<close>

theorem fine_stopped_quiet:
  assumes K: "kernel K" and st: "fstarted K w0" and run: "(fstep K)\<^sup>*\<^sup>* w0 w"
    and stop: "ctl_at w = NoCall" "run_stat (drv w) \<noteq> ADC_RUN"
  shows "irq_at w = Idle \<and> \<not> irq_registered (drv w) \<and> run_stat (drv w) = ADC_STOP \<and>
    ads131m08_data_get (drv w) = Some (None, drv w) \<and> list_get_cnt (active_list (drv w)) (drv w) = Some 0 \<and>
    with_fate Stored (sent w) = map snd (gone w)"
proof -
  from fine_reach [OF K st run] obtain R A F X bs where I: "irq_inv (drv w) (irq_at w) R A F (held w) X bs"
    and ok: "ctl_ok (ctl_at w) (drv w) R A"
    and h: "acquired w = map snd (gone w) @ stream (irq_at w) (drv w) R A bs"
    unfolding fine_inv_def by blast
  have q: "quiet (drv w) R A" using ok stop by simp
  then have e: "R = []" "A = []" "\<not> irq_registered (drv w)" "run_stat (drv w) = ADC_STOP" by (simp_all add: quiet_def)
  have p: "irq_at w = Idle" by (rule irq_inv_idle [OF I e(3)])
  have D: "data_inv (drv w) R A F (held w) (Some X) bs" using irq_invD(1) [OF I] p by simp
  have "list_get_cnt (active_list (drv w)) (drv w) = Some 0"
    using data_smpl_cnt_ok [OF D, of False True] e by (auto simp: ads131m08_data_smpl_cnt_def Option.bind_eq_Some_conv)
  with e p h stop(1) get_fine(2) [OF I] show ?thesis by simp
qed

theorem fine_stopped_quiet_witness:
  "\<exists>w0 w :: unit fworld. fstarted k0 w0 \<and> (fstep k0)\<^sup>*\<^sup>* w0 w \<and> run_stat (drv w) = ADC_STOP \<and>
     ads131m08_data_get (drv w) = Some (None, drv w) \<and> with_fate Fetched (gone w) = [] \<and>
     \<lparr>s_ts = 77, s_data = frame_smpl (\<lambda>i. of_nat (3 * i))\<rparr> \<in> set (map snd (gone w))"
proof -
  from k0_fine_stopped obtain t w where w: "fstarted k0 (fworld0 t)" "(fstep k0)\<^sup>*\<^sup>* (fworld0 t) w" "ctl_at w = NoCall"
    "run_stat (drv w) = ADC_STOP" "fetched w = []"
    "\<lparr>s_ts = 77, s_data = frame_smpl (\<lambda>i. of_nat (3 * i))\<rparr> \<in> set (acquired w)" by blast
  then have "run_stat (drv w) \<noteq> ADC_RUN" by (simp add: ADC_RUN_def ADC_STOP_def)
  from fine_stopped_quiet [OF k0_kernel w(1-3) this] w show ?thesis by (metis (no_types, lifting))
qed

text \<open>C13: the data stays well-formed. At every stage of every handler: the counts kept in the three
  list headers and the chunks in the hands of the interrupt thread and of readers add up to the
  eight chunks; each chunk has room for 320 samples of eight channels, its size is the global
  chunk size, between 1 and 320, and its index lies between 0 and that size; and the index of the
  chunk the thread is working on is below the size until the sample that fills it is counted
  (\<open>Full\<close>, when nothing more is written), so that it never writes behind the array.\<close>

theorem fine_data_well_formed:
  assumes K: "kernel K" and st: "fstarted K w0" and run: "(fstep K)\<^sup>*\<^sup>* w0 w"
  shows "\<exists>r f a bs. ads131m08_data_smpl_cnt True True (drv w) = Some (r, Some f, Some a) \<and>
    r + f + a + int (length (irq_bufs (irq_at w)) + length (held w)) = 8 \<and> 0 \<le> r \<and> 0 \<le> f \<and> 0 \<le> a \<and> a \<le> 1 \<and>
    chunk_buf_list (drv w) = Some bs \<and> length bs = 8 \<and> 1 \<le> chunk_sz (drv w) \<and> chunk_sz (drv w) \<le> 320 \<and>
    list_all (\<lambda>c. length (c_data c) = 320 \<and> list_all (\<lambda>m. length (s_data m) = 8) (c_data c) \<and>
      c_chunk_sz c = chunk_sz (drv w) \<and> 0 \<le> c_idx c \<and> c_idx c \<le> chunk_sz (drv w)) bs \<and>
    list_all (\<lambda>b. b < 8 \<and> (c_idx (bs ! b) < chunk_sz (drv w) \<or> irq_at w = Full b)) (irq_bufs (irq_at w))"
proof -
  from fine_reach [OF assms] obtain R A F X bs where I: "irq_inv (drv w) (irq_at w) R A F (held w) X bs"
    unfolding fine_inv_def by blast
  note D = irq_invD [OF I]
  have O: "owned R A F (irq_bufs (irq_at w) @ held w)" and B: "bufs_ok (chunk_sz (drv w)) bs R A F"
    and c: "chunk_buf_list (drv w) = Some bs" using D(1) by (simp_all add: data_inv_def)
  have n: "length R + length A + length F + (length (irq_bufs (irq_at w)) + length (held w)) = 8" "length A \<le> 1"
    using owned_lengths [OF O] O by (simp_all add: owned_def CHUNK_BUF_CNT_def)
  have bufs: "list_all (\<lambda>c. length (c_data c) = 320 \<and> list_all (\<lambda>m. length (s_data m) = 8) (c_data c) \<and>
      c_chunk_sz c = chunk_sz (drv w) \<and> 0 \<le> c_idx c \<and> c_idx c \<le> chunk_sz (drv w)) bs"
    and sz: "length bs = 8" "1 \<le> chunk_sz (drv w)" "chunk_sz (drv w) \<le> 320"
    using B by (auto simp: bufs_ok_def buf_ok_def smpl_ok_def list_all_iff MAX_CHUNK_SZ_def ADC_CH_NUM_def CHUNK_BUF_CNT_def)
  have "c_idx (bs ! b) < chunk_sz (drv w) \<or> irq_at w = Full b" if "b \<in> set (irq_bufs (irq_at w))" for b
    using D(6) that by (cases "irq_at w") (simp_all add: stamped_ok_def filling_def)
  moreover have "b < 8" if "b \<in> set (irq_bufs (irq_at w))" for b
    using owned_lt(1) [OF O] that by (auto simp: CHUNK_BUF_CNT_def)
  ultimately have "list_all (\<lambda>b. b < 8 \<and> (c_idx (bs ! b) < chunk_sz (drv w) \<or> irq_at w = Full b)) (irq_bufs (irq_at w))"
    by (simp add: list_all_iff)
  with data_smpl_cnt_ok [OF D(1), of True True] n c sz bufs show ?thesis
    by (intro exI [of _ "int (length R)"] exI [of _ "int (length F)"] exI [of _ "int (length A)"] exI [of _ bs]) simp
qed

theorem fine_data_well_formed_witness:
  "\<exists>w0 w r f a. fstarted k0 w0 \<and> (fstep k0)\<^sup>*\<^sup>* w0 w \<and> run_stat (drv w) = ADC_RUN \<and>
     ads131m08_data_smpl_cnt True True (drv w) = Some (r, Some f, Some a) \<and> r + f + a + int (length (held w)) = 8"
proof -
  from k0_fine_run obtain t w F X bs where w: "fstarted k0 (fworld0 t)" "(fstep k0)\<^sup>*\<^sup>* (fworld0 t) w" "irq_at w = Idle"
    "sys_inv (drv w) [] [0] F [] X bs" by blast
  have "run_stat (drv w) = ADC_RUN" using w(4) by (simp add: sys_inv_def)
  with w(1-3) fine_data_well_formed [OF k0_kernel w(1,2)] show ?thesis by fastforce
qed

text \<open>C3: what a reader copies to its user is what it fetched. While a reader holds a chunk, nobody
  else writes to it: whenever it copies, with a buffer of whatever size, the samples handed to
  \<open>copy_to_user\<close> are the oldest of those that were in the chunk when it was taken off the ready
  list (\<open>snap\<close>), as many as fit; and none exactly if the chunk size was set meanwhile (\<open>emptied\<close>: an
  ioctl CHUNK_SZ with a positive size on a stopped driver, since the fetch). The result is their
  size in bytes, or \<open>-EFAULT\<close> when the copy faults.\<close>

theorem reader_copies_fetched:
  fixes cnt :: nat
  assumes K: "kernel K" and st: "fstarted K w0" and run: "(fstep K)\<^sup>*\<^sup>* w0 w" and b: "b \<in> set (held w)"
  defines "xs \<equiv> if b \<in> emptied w then [] else take (cnt div SMPL_SIZE) (snap w b)"
  shows "\<exists>t. read_copy K cnt (Chunk b) (drv w) =
      Some (if fst (copy_smpls_to_user K (dev (drv w)) xs) then int (length xs * SMPL_SIZE) else - EFAULT, t)"
proof -
  from fine_reach [OF K st run] obtain R A F X bs where I: "irq_inv (drv w) (irq_at w) R A F (held w) X bs"
    and ic: "intact (held w) (snap w) (emptied w) bs" unfolding fine_inv_def by blast
  have D0: "drv_inv (drv w) R A F (irq_bufs (irq_at w) @ held w) X bs" using I by (simp add: irq_inv_def)
  have D: "drv_inv (drv w) R A F (b # irq_bufs (irq_at w) @ remove1 b (held w)) X bs"
    by (rule drv_inv_perm [OF _ D0]) (use b in simp)
  then have "data_inv (drv w) R A F (b # irq_bufs (irq_at w) @ remove1 b (held w)) (Some X) bs" by (simp add: drv_inv_def)
  from data_get_buf(3) [OF this, of b] this have l: "length (taken (bs ! b)) = nat (c_idx (bs ! b))"
    by (auto simp: taken_def buf_ok_def data_inv_def bufs_ok_def MAX_CHUNK_SZ_def)
  let ?n = "min (cnt div SMPL_SIZE) (nat (c_idx (bs ! b)))" let ?xs = "take (cnt div SMPL_SIZE) (taken (bs ! b))"
  have xs: "take ?n (taken (bs ! b)) = ?xs" "length ?xs = ?n" using l by (simp_all add: min_def)
  obtain ok d where cp: "copy_smpls_to_user K (dev (drv w)) ?xs = (ok, d)" by (cases "copy_smpls_to_user K (dev (drv w)) ?xs")
  from read_copy_ok [OF D cp [folded xs(1)]] obtain t where
    "read_copy K cnt (Chunk b) (drv w) = Some (if ok then int (?n * SMPL_SIZE) else - EFAULT, t)" by blast
  moreover have "?xs = xs" using ic b by (simp add: intact_def xs_def)
  ultimately show ?thesis using cp xs(2) by (intro exI [of _ t]) simp
qed

theorem reader_copies_fetched_witness:
  "\<exists>w0 w b t. fstarted k0 w0 \<and> (fstep k0)\<^sup>*\<^sup>* w0 w \<and> b \<in> set (held w) \<and> length (snap w b) = 1 \<and>
     b \<notin> emptied w \<and> read_copy k0 SMPL_SIZE (Chunk b) (drv w) = Some (int SMPL_SIZE, t)"
proof -
  from k0_fine_held obtain t w where w: "fstarted k0 (fworld0 t)" "(fstep k0)\<^sup>*\<^sup>* (fworld0 t) w" "held w = [0]"
    "length (snap w 0) = 1" "0 \<notin> emptied w" by auto
  have b: "0 \<in> set (held w)" using w(3) by simp
  have "SMPL_SIZE div SMPL_SIZE = 1" "fst (copy_smpls_to_user k0 d xs)" for d xs by (simp_all add: SMPL_SIZE_def k0_simps)
  with reader_copies_fetched [OF k0_kernel w(1,2) b, of SMPL_SIZE] w(4,5) obtain u where
    "read_copy k0 SMPL_SIZE (Chunk 0) (drv w) = Some (int SMPL_SIZE, u)" by auto
  with w b show ?thesis by blast
qed

end
