(* ===== verification/Wakeups.thy ===== *)
theory Wakeups
  imports Concurrent
begin

text \<open>
  The wait queue of the driver: \<open>read\<close> sleeps while no chunk is ready and the state is RUN, and
  \<open>poll\<close> likewise. Whatever makes the condition true is followed by a wake-up.
\<close>

section \<open>Asleep\<close>

text \<open>What may happen while a reader is asleep: steps that wake nobody. The error path of a start
  whose interrupt request fails is left out: it stops without a wake-up.\<close>

definition irq_failed :: "ctl_pc \<Rightarrow> bool" where
  "irq_failed pc \<longleftrightarrow> (\<exists>ret. pc = IrqFailed ret)"

definition unwoken :: "'d kenv \<Rightarrow> 'd fworld \<Rightarrow> 'd fworld \<Rightarrow> bool" where
  "unwoken K w w' \<longleftrightarrow> fstep K w w' \<and> \<not> woke (drv w) (drv w') \<and> \<not> irq_failed (ctl_at w')"

text \<open>The stages of a stop left until its wake-up.\<close>

fun wake_left :: "ctl_pc \<Rightarrow> nat" where
  "wake_left ClrIrq = 5" | "wake_left SendStandby = 4" | "wake_left (CleanReady a) = 3"
| "wake_left (CleanActive a) = 2" | "wake_left (WakeReaders a) = 1" | "wake_left pc = 0"

lemma wake_left_next:
  assumes st: "ctl_next K pc s = Some (pc', t)" and pc: "0 < wake_left pc" and ad: "ads131m08_data s"
  shows "0 < wake_left pc' \<and> wake_left pc' < wake_left pc \<or> woke s t"
  using assms by (cases pc) (auto simp: Option.bind_eq_Some_conv woke_def split: prod.splits)

section \<open>The condition stays false, or a wake-up is due\<close>

definition wake_due :: "'d fworld \<Rightarrow> bool" where
  "wake_due w \<longleftrightarrow> fine_inv w \<and> \<not> irq_failed (ctl_at w) \<and>
     (wait_cond (drv w) = Some False \<or> 0 < wake_left (ctl_at w) \<or> notifying (irq_at w))"

lemma cond_iff:
  assumes "irq_inv s pc R A F H X bs"
  shows "wait_cond s = Some False \<longleftrightarrow> R = [] \<and> run_stat s \<noteq> ADC_STOP"
  using wait_cond_ok [of s R A F "irq_bufs pc @ H" X bs] assms by (simp add: irq_inv_def)

lemma cond_same:
  "ready_list t = ready_list s \<Longrightarrow> hdrs t = hdrs s \<Longrightarrow> run_stat t = run_stat s \<Longrightarrow> wait_cond t = wait_cond s"
  by (simp add: wait_cond_def ads131m08_data_smpl_cnt_def ads131m08_run_stat_def list_get_cnt_def cong: option.case_cong)

lemma due_ctl:
  assumes I: "irq_inv s ipc R A F H X bs" and ok: "ctl_ok pc s R A" and w: "frees_irq pc \<longrightarrow> ipc = Idle"
    and rq: "\<And>d n. fst (request_threaded_irq K d n) \<le> 0" and st: "ctl_next K pc s = Some (pc', t)"
    and f: "\<not> irq_failed pc" "wait_cond s = Some False" "wake_left pc = 0"
  shows "wait_cond t = Some False \<or> 0 < wake_left pc'"
proof -
  have e: "R = []" "run_stat s \<noteq> ADC_STOP" using f(2) cond_iff [OF I] by simp_all
  from ctl_stage [OF I ok w rq] obtain p u R' A' F' X' bs' where u: "ctl_next K pc s = Some (p, u)"
    "irq_inv u ipc R' A' F' H X' bs'" "R' = R \<or> R' = []" "run_stat u = run_stat s \<or> sets_stat pc"
    unfolding ctl_stage_ok_def by blast
  with st e(1) have t: "irq_inv t ipc [] A' F' H X' bs'" "run_stat t = run_stat s \<or> sets_stat pc" by auto
  show ?thesis
  proof (cases "sets_stat pc")
    case True
    then show ?thesis using st ok f(1) e(2) by (cases pc) (auto simp: quiet_def irq_failed_def)
  next
    case False
    with t e(2) cond_iff [OF t(1)] show ?thesis by simp
  qed
qed

text \<open>The handler and its thread: only a chunk that becomes ready makes the condition true, and then
  its wake-up is the next stage.\<close>

lemma due_isr:
  assumes "irq_inv s Idle R A F H X bs" "irq_registered s"
  shows "wait_cond (ads131m08_isr K s) = wait_cond s"
proof (rule cond_same)
  show "run_stat (ads131m08_isr K s) = run_stat s" by (rule isr_fine(3) [OF assms])
qed (simp_all add: ads131m08_isr_def kcall_def split: prod.splits)

lemma due_irq:
  assumes I: "irq_inv s pc R A F H X bs" and pc: "pc \<noteq> Idle" and st: "irq_next K pc s = Some (pc', t)"
    and nw: "\<not> woke s t"
  shows "\<not> notifying pc" "notifying pc' \<or> (wait_cond t = Some False \<longleftrightarrow> wait_cond s = Some False)"
proof -
  from irq_stage [OF I pc, of K] st nw obtain R' A' F' X' bs' where t: "irq_inv t pc' R' A' F' H X' bs'"
    "ctl t = ctl (s\<lparr>drop_cnt := drop_cnt t\<rparr>)" "R' = R \<or> notifying pc'" "\<not> notifying pc"
    unfolding irq_stage_ok_def by auto
  show "\<not> notifying pc" by (rule t(4))
  show "notifying pc' \<or> (wait_cond t = Some False \<longleftrightarrow> wait_cond s = Some False)"
    using t(3) ctl_fields(7) [OF t(2)] cond_iff [OF I] cond_iff [OF t(1)] by auto
qed

lemma notify_wakes:
  assumes I: "irq_inv s pc R A F H X bs" and n: "notifying pc"
  shows "\<exists>t. irq_next K pc s = Some (Idle, t) \<and> woke s t"
proof (cases pc)
  case (Notify b)
  with irq_stage [OF I, of K] show ?thesis unfolding irq_stage_ok_def
    by (auto simp: Option.bind_eq_Some_conv)
qed (use n in simp_all)

text \<open>Readers: a fetch needs a ready chunk; a copy returns a chunk to the free list.\<close>

lemma due_reader:
  assumes I: "irq_inv s pc R A F H X bs"
  shows "ads131m08_data_get s = Some (Some (Chunk b), t) \<Longrightarrow> wait_cond s \<noteq> Some False"
    and "b \<in> set H \<Longrightarrow> read_copy K cnt (Chunk b) s = Some (ret, t) \<Longrightarrow>
      wait_cond t = Some False \<longleftrightarrow> wait_cond s = Some False"
proof -
  show "ads131m08_data_get s = Some (Some (Chunk b), t) \<Longrightarrow> wait_cond s \<noteq> Some False"
    using get_fine(2) [OF I] cond_iff [OF I] by auto
next
  assume b: "b \<in> set H" "read_copy K cnt (Chunk b) s = Some (ret, t)"
  from put_fine [OF I b(1), of K cnt] b(2) obtain F' bs' where
    t: "irq_inv t pc R A F' (remove1 b H) X bs'" "ctl t = ctl s" by auto
  show "wait_cond t = Some False \<longleftrightarrow> wait_cond s = Some False"
    using ctl_fields(7) [OF t(2)] cond_iff [OF I] cond_iff [OF t(1)] by simp
qed

lemma due_step:
  assumes W: "wake_due w" and K: "kenv_ok K" and st: "unwoken K w w'"
  shows "wake_due w'"
proof -
  have rq: "fst (request_threaded_irq K d n) \<le> 0" for d n using K by (simp add: kenv_ok_def)
  from W have V: "fine_inv w" and nf: "\<not> irq_failed (ctl_at w)"
    and due: "wait_cond (drv w) = Some False \<or> 0 < wake_left (ctl_at w) \<or> notifying (irq_at w)" by (simp_all add: wake_due_def)
  from V obtain R A F X bs where I: "irq_inv (drv w) (irq_at w) R A F (held w) X bs"
    and ok: "ctl_ok (ctl_at w) (drv w) R A" unfolding fine_inv_def by blast
  have ad: "ads131m08_data (drv w)" using irq_invD(1) [OF I] by (simp add: data_inv_def)
  have fs: "fstep K w w'" and nw: "\<not> woke (drv w) (drv w')" and nf': "\<not> irq_failed (ctl_at w')"
    using st by (simp_all add: unwoken_def)
  from fs have "wait_cond (drv w') = Some False \<or> 0 < wake_left (ctl_at w') \<or> notifying (irq_at w')"
  proof (cases rule: fstep.cases)
    case isr
    with due due_isr [OF I [unfolded isr(3)] isr(2), of K] show ?thesis by simp
  next
    case (irq pc t)
    have "\<not> woke (drv w) t" using nw irq(1) by simp
    note d = due_irq [OF I irq(2,3) this]
    with due irq(1) show ?thesis by auto
  next
    case (other c arg ret t)
    have "irq_registered (drv w)" if "notifying (irq_at w)" using that I by (cases "irq_at w") (simp_all add: irq_inv_def)
    with other(2) due cond_iff [OF I] ok have "run_stat (drv w) = ADC_RUN" by (auto simp: quiet_def)
    from ioctl_running_stays [OF other(3) this, of K] other(4) have "t = drv w" by auto
    with other(1) due show ?thesis by simp
  next
    case (ctl pc t)
    have "drv w' = t" "ctl_at w' = pc" "irq_at w' = irq_at w" using ctl(1) by (simp_all add: after_stage_def)
    then show ?thesis using due nw wake_left_next [OF ctl(4) _ ad] due_ctl [OF I ok ctl(3) rq ctl(4) nf]
      by (cases "0 < wake_left (ctl_at w)") auto
  next
    case (get b t c)
    with due due_reader(1) [OF I get(2)] show ?thesis by simp
  next
    case (put b cnt ret t)
    with due due_reader(2) [OF I put(2,3)] show ?thesis by simp
  qed (use due cond_same [of "drv w'" "drv w"] in \<open>auto simp: ads131m08_open_def\<close>)
  with fine_step [OF V K fs] nf' show ?thesis by (simp add: wake_due_def)
qed

interpretation sleeping: inv_system wake_due "\<lambda>w w'. kenv_ok K \<and> unwoken K w w'" wake_due for K :: "'d kenv"
  by unfold_locales (use due_step in blast)+

section \<open>Properties\<close>

text \<open>C12: no wake-up is lost. Let a reader go to sleep because no chunk is ready and the driver is
  running, and let anything happen, stage by stage, that wakes nobody (and no start fail to
  register the interrupt). If then the condition it sleeps on is true, its wake-up is due: the
  interrupt thread has put a chunk on the ready list and its next stage, which cannot fault, is the
  wake-up; or a stop is in progress, with at most five stages left until it wakes the readers, each of
  which comes nearer to the wake-up or is the wake-up. In particular a reader never sleeps on
  while a chunk is ready and the interrupt thread is asleep, nor after a stop has returned. The
  order of the two statements of \<open>ads131m08_chunk_buf_ready\<close> matters: woken before the chunk is on
  the list, a reader would go back to sleep.\<close>

theorem no_lost_wakeup:
  assumes K: "kernel K" and st: "fstarted K w0" and run: "(fstep K)\<^sup>*\<^sup>* w0 w1"
    and sleep: "wait_cond (drv w1) = Some False" "\<not> irq_failed (ctl_at w1)" and asleep: "(unwoken K)\<^sup>*\<^sup>* w1 w"
  shows "(wait_cond (drv w) = Some True \<longrightarrow> 0 < wake_left (ctl_at w) \<or> notifying (irq_at w)) \<and>
    (notifying (irq_at w) \<longrightarrow>
      (\<exists>t. irq_next K (irq_at w) (drv w) = Some (Idle, t) \<and> KWakeUp \<in> set (drop (length (klog (drv w))) (klog t)))) \<and>
    wake_left (ctl_at w) \<le> 5 \<and>
    (\<forall>pc t. 0 < wake_left (ctl_at w) \<longrightarrow> ctl_next K (ctl_at w) (drv w) = Some (pc, t) \<longrightarrow>
      0 < wake_left pc \<and> wake_left pc < wake_left (ctl_at w) \<or>
      KWakeUp \<in> set (drop (length (klog (drv w))) (klog t)))"
proof -
  have k: "kenv_ok K" using K by (simp add: kernel_def)
  have "wake_due w1" using fine_reach [OF K st run] sleep by (simp add: wake_due_def)
  moreover have "(\<lambda>w w'. kenv_ok K \<and> unwoken K w w') = unwoken K" using k by simp
  ultimately have D: "wake_due w" using sleeping.reach_inv [of w1 K w] asleep by simp
  then obtain R A F X bs where I: "irq_inv (drv w) (irq_at w) R A F (held w) X bs"
    by (auto simp: wake_due_def fine_inv_def)
  have ad: "ads131m08_data (drv w)" using irq_invD(1) [OF I] by (simp add: data_inv_def)
  have "wake_left (ctl_at w) \<le> 5" by (cases "ctl_at w") simp_all
  moreover have "wait_cond (drv w) = Some True \<longrightarrow> 0 < wake_left (ctl_at w) \<or> notifying (irq_at w)"
    using D by (auto simp: wake_due_def)
  ultimately show ?thesis using wake_left_next [OF _ _ ad] notify_wakes [OF I, of K] unfolding woke_def by blast
qed

theorem no_lost_wakeup_witness:
  "\<exists>w0 w1 w :: unit fworld. fstarted k0 w0 \<and> (fstep k0)\<^sup>*\<^sup>* w0 w1 \<and> wait_cond (drv w1) = Some False \<and>
     (unwoken k0)\<^sup>*\<^sup>* w1 w \<and> wait_cond (drv w) = Some True \<and> 0 < wake_left (ctl_at w)"
proof -
  from k0_fine_run obtain t w F X bs where w: "fstarted k0 (fworld0 t)" "(fstep k0)\<^sup>*\<^sup>* (fworld0 t) w" "irq_at w = Idle"
    "ctl_at w = NoCall" "sys_inv (drv w) [] [0] F [] X bs" by blast
  have D: "drv_inv (drv w) [] [0] F [] X bs" and r: "run_stat (drv w) = ADC_RUN" using w(5) by (simp_all add: sys_inv_def)
  have f: "wait_cond (drv w) = Some False" using wait_cond_ok [OF D] r by (simp add: ADC_RUN_def ADC_STOP_def)
  let ?w1 = "w\<lparr>ctl_at := SetStop, closing := True\<rparr>"
  have e: "ctl_entry ADC_STOP (drv w) = SetStop" using r by (simp add: ctl_entry_def ads131m08_run_stat_def ADC_RUN_def ADC_STOP_def)
  have s1: "unwoken k0 w ?w1" using fstep.rel [OF w(4), of k0] e by (simp add: unwoken_def woke_def irq_failed_def)
  let ?t = "(drv w)\<lparr>run_stat := ADC_STOP\<rparr>" let ?w2 = "?w1\<lparr>drv := ?t, ctl_at := ClrIrq\<rparr>"
  have "fstep k0 ?w1 (after_stage ClrIrq ?t ?w1)" by (rule fstep.ctl) simp_all
  then have s2: "unwoken k0 ?w1 ?w2" by (simp add: unwoken_def woke_def irq_failed_def after_stage_def)
  from s1 s2 have run: "(unwoken k0)\<^sup>*\<^sup>* w ?w2" by (meson converse_rtranclp_into_rtranclp r_into_rtranclp)
  have "drv_inv ?t [] [0] F [] X bs" using D by simp
  then have c: "wait_cond (drv ?w2) = Some True" using wait_cond_ok [of ?t] by simp
  have "\<not> irq_failed (ctl_at w)" using w(4) by (simp add: irq_failed_def)
  from no_lost_wakeup [OF k0_kernel w(1,2) f this run] c have "0 < wake_left (ctl_at ?w2) \<or> notifying (irq_at ?w2)" by blast
  moreover have "\<not> notifying (irq_at ?w2)" using w(3) by simp
  ultimately have "0 < wake_left (ctl_at ?w2)" by blast
  with w(1,2) f run c show ?thesis by blast
qed

end
