(* ===== verification/Races.thy ===== *)
theory Races
  imports Ctl_Stages Char_Device
begin

text \<open>
  Two threads in commands at the same time. The driver has no lock around a command
  (\<open>unlocked_ioctl\<close>), and one open file can be shared; theory Interleaving assumes a single
  command thread, and these are the schedules that need it.
\<close>

section \<open>A stop overtaken by a start\<close>

text \<open>\<open>s\<close> is running; a stop gets as far as its first stage, then a start runs to its end.\<close>

lemma start_into_stop:
  assumes I: "sys_inv s R A F H X bs" and run: "run_stat s = ADC_RUN" "irq_registered s"
    and io: "\<And>d tx. 0 \<le> fst (spi_sync_transfer K d tx)"
  shows "\<exists>t F' X' bs'. ads131m08_run_cmd K ADC_RUN (s\<lparr>run_stat := ADC_STOP\<rparr>) = Some (SUCCESS, t) \<and>
    drv_inv t [] [] F' H X' bs' \<and> ctl t = ctl s \<and> spi_hdlr t"
proof -
  let ?s = "s\<lparr>run_stat := ADC_STOP\<rparr>"
  have D: "drv_inv ?s R A F H X bs" and up: "spi_hdlr s" using I by (simp_all add: sys_inv_def)
  then have d0: "data_inv ?s R A F H (Some X) bs" by (simp add: drv_inv_def)
  from data_cleanup_ok [OF d0] obtain u where u: "ads131m08_data_cleanup ?s = Some u"
    "data_inv u [] [] (F @ R @ A) H (Some X) (reset_bufs (R @ A) bs)" "buf_step ?s [KWakeUp] u" by blast
  have c: "ctl u = ctl ?s" using u(3) by (simp add: buf_step_def)
  let ?u = "u\<lparr>run_stat := ADC_RUN\<rparr>" let ?F = "F @ R @ A" let ?bs = "reset_bufs (R @ A) bs"
  have "drv_inv u [] [] ?F H X ?bs" "spi_hdlr u"
    using u(2,3) D up ctl_fields [OF c] by (simp_all add: drv_inv_def buf_step_def)
  then have U: "drv_inv ?u [] [] ?F H X ?bs" "spi_hdlr ?u" by simp_all
  have cu: "ctl ?u = ctl s" using c run(1) by (simp add: ctl_def)
  obtain ret rxd d where q: "spi_sync_transfer K (dev ?u) (trx_frame CMD_WAKEUP [] 1) = (ret, rxd, d)"
    by (cases "spi_sync_transfer K (dev ?u) (trx_frame CMD_WAKEUP [] 1)")
  from strobe_drv [OF U q] obtain t X' where t: "cmd_strobe K CMD_WAKEUP [] 0 0 ?u = Some (ret, t)"
    "drv_inv t [] [] ?F H X' ?bs" "drv_step ?u X [KSpi (trx_frame CMD_WAKEUP [] 1)] t X'" by blast
  have ct: "ctl t = ctl s" using t(3) cu by (simp add: drv_step_def)
  have "0 \<le> ret" using io [of "dev ?u" "trx_frame CMD_WAKEUP [] 1"] q by simp
  moreover have "ads131m08_gpio_set_irq K ?u = (0, ?u)"
    using u(2) run(2) ctl_fields(13) [OF cu] by (simp add: ads131m08_gpio_set_irq_def data_inv_def)
  ultimately have "ads131m08_run_cmd K ADC_RUN ?s = Some (SUCCESS, t)"
    using u(1) t(1) by (simp add: ads131m08_run_cmd_def ads131m08_run_stat_def ads131m08_cmd_wakeup_def ADC_RUN_def ADC_STOP_def)
  with t(2) ct ctl_fields(11) [OF ct] up show ?thesis by blast
qed

text \<open>The stop goes on from there.\<close>

lemma stop_goes_on:
  assumes I: "drv_inv s R A F H X bs" "spi_hdlr s" and run: "irq_registered s"
    and io: "\<And>d tx. 0 \<le> fst (spi_sync_transfer K d tx)"
  shows "\<exists>t F' X' bs'. ctl_run K 5 ClrIrq s = Some (Done SUCCESS, t) \<and> drv_inv t [] [] F' H X' bs' \<and>
    ctl t = ctl (s\<lparr>irq_registered := False\<rparr>)"
proof -
  let ?u = "ads131m08_gpio_clr_irq s"
  have ad: "ads131m08_data s" using I(1) by (simp add: drv_inv_def data_inv_def)
  then have U: "drv_inv ?u R A F H X bs" "spi_hdlr ?u" "ctl ?u = ctl (s\<lparr>irq_registered := False\<rparr>)"
    using I run by (simp_all add: ads131m08_gpio_clr_irq_def ctl_def)
  obtain ret rxd d where q: "spi_sync_transfer K (dev ?u) (trx_frame CMD_STANDBY [] 1) = (ret, rxd, d)"
    by (cases "spi_sync_transfer K (dev ?u) (trx_frame CMD_STANDBY [] 1)")
  from strobe_drv [OF U(1,2) q] obtain v X' where v: "cmd_strobe K CMD_STANDBY [] 0 0 ?u = Some (ret, v)"
    "drv_inv v R A F H X' bs" "drv_step ?u X [KSpi (trx_frame CMD_STANDBY [] 1)] v X'" by blast
  have r: "0 \<le> ret" using io [of "dev ?u" "trx_frame CMD_STANDBY [] 1"] q by simp
  have "data_inv v R A F H (Some X') bs" using v(2) by (simp add: drv_inv_def)
  from data_cleanup_ok [OF this] obtain t where t: "ads131m08_data_cleanup v = Some t"
    "data_inv t [] [] (F @ R @ A) H (Some X') (reset_bufs (R @ A) bs)" "buf_step v [KWakeUp] t" by blast
  have c: "ctl t = ctl v" using t(3) by (simp add: buf_step_def)
  have "drv_inv t [] [] (F @ R @ A) H X' (reset_bufs (R @ A) bs)"
    using t(2,3) v(2) ctl_fields [OF c] by (simp add: drv_inv_def buf_step_def)
  moreover have "ctl t = ctl (s\<lparr>irq_registered := False\<rparr>)" using c v(3) U(3) by (simp add: drv_step_def)
  moreover have "ctl_run K 5 ClrIrq s = Some (Done SUCCESS, t)"
  proof -
    have "ctl_run K (Suc (Suc (Suc (Suc (Suc 0))))) ClrIrq s
        = ctl_run K (Suc (Suc (Suc 0))) (CleanReady (Return SUCCESS)) v"
      using v(1) r by (simp add: ads131m08_cmd_standby_def)
    moreover have five: "(5 :: nat) = Suc (Suc (Suc (Suc (Suc 0))))" by simp
    ultimately show ?thesis unfolding five using ctl_run_clean_ret [of K 0 SUCCESS v] t(1) by (simp del: ctl_run.simps)
  qed
  ultimately show ?thesis by blast
qed

text \<open>C14: a stop overtaken by a start leaves the driver deaf. Let the acquisition run and one thread
  stop it; right after its first stage (the run state is STOP, the interrupt still registered)
  another thread starts it. The start finds the interrupt registered, wakes the device up and
  succeeds; then the stop frees the interrupt, puts the device into standby, empties the lists and
  succeeds too. What is left says RUN, but there is no interrupt: a reader sleeps forever, a
  further start does nothing.\<close>

theorem stop_start_race:
  assumes I: "sys_inv s R A F H X bs" and run: "run_stat s = ADC_RUN" "irq_registered s"
    and io: "\<And>d tx. 0 \<le> fst (spi_sync_transfer K d tx)"
  shows "\<exists>s1 s2 t. ctl_next K (ctl_entry ADC_STOP s) s = Some (ClrIrq, s1) \<and>
    ads131m08_run_cmd K ADC_RUN s1 = Some (SUCCESS, s2) \<and> ctl_run K 5 ClrIrq s2 = Some (Done SUCCESS, t) \<and>
    run_stat t = ADC_RUN \<and> \<not> irq_registered t \<and> wait_cond t = Some False \<and>
    ads131m08_data_get t = Some (None, t) \<and> ads131m08_run_cmd K ADC_RUN t = Some (SUCCESS, t)"
proof -
  let ?s1 = "s\<lparr>run_stat := ADC_STOP\<rparr>"
  have e: "ctl_next K (ctl_entry ADC_STOP s) s = Some (ClrIrq, ?s1)"
    using run(1) by (simp add: ctl_entry_def ads131m08_run_stat_def ADC_RUN_def ADC_STOP_def)
  from start_into_stop [OF assms] obtain s2 F' X' bs' where
    s2: "ads131m08_run_cmd K ADC_RUN ?s1 = Some (SUCCESS, s2)" "drv_inv s2 [] [] F' H X' bs'" "ctl s2 = ctl s" "spi_hdlr s2" by blast
  have "irq_registered s2" using ctl_fields(13) [OF s2(3)] run(2) by simp
  from stop_goes_on [OF s2(2,4) this io] obtain t F'' X'' bs'' where
    t: "ctl_run K 5 ClrIrq s2 = Some (Done SUCCESS, t)" "drv_inv t [] [] F'' H X'' bs''"
      "ctl t = ctl (s2\<lparr>irq_registered := False\<rparr>)" by blast
  have f: "run_stat t = ADC_RUN" "\<not> irq_registered t"
    using ctl_fields(7,13) [OF t(3)] ctl_fields(7) [OF s2(3)] run(1) by simp_all
  have "wait_cond t = Some False" using wait_cond_ok [OF t(2)] f(1) by (simp add: ADC_RUN_def ADC_STOP_def)
  moreover have "ads131m08_data_get t = Some (None, t)" using data_get_ok(2) [OF _ refl] t(2) unfolding drv_inv_def by blast
  moreover have "ads131m08_run_cmd K ADC_RUN t = Some (SUCCESS, t)"
    using f(1) by (simp add: ads131m08_run_cmd_def ads131m08_run_stat_def)
  ultimately show ?thesis using e s2(1) t(1) f by blast
qed

theorem stop_start_race_witness:
  "\<exists>(s :: unit drv) s1 s2 t. run_stat s = ADC_RUN \<and> irq_registered s \<and>
     ads131m08_run_cmd k0 ADC_RUN s1 = Some (SUCCESS, s2) \<and> ctl_run k0 5 ClrIrq s2 = Some (Done SUCCESS, t) \<and>
     run_stat t = ADC_RUN \<and> \<not> irq_registered t"
proof -
  obtain s :: "unit drv" and X where
    I: "sys_inv s [] [] [0..<CHUNK_BUF_CNT] [] X (replicate CHUNK_BUF_CNT fresh_chunk_buf)"
    and f: "run_stat s = ADC_RUN" "irq_registered s" using k0_running by blast
  have "0 \<le> fst (spi_sync_transfer k0 d tx)" for d tx by (simp add: k0_simps)
  from stop_start_race [OF I f this] f show ?thesis by blast
qed

section \<open>A resize overtaken by a start\<close>

text \<open>C28: a change of the chunk size empties every chunk. The ioctl checks the run state once, then
  sets the index of all eight chunks to zero. If the acquisition starts in between, what is in the
  active chunk and in the ready ones is gone, and the ready chunks are still on their list, so a
  read returns 0, the end of the data, while running; and whether it starts or not, so is what is in
  the chunks \<open>H\<close> that readers have fetched and not copied yet.\<close>

theorem late_resize_loses:
  fixes s :: "'d drv"
  assumes I: "sys_inv s R A F H X bs" and n: "0 < c_int_of_ulong n"
  shows "(\<forall>s0 :: 'd drv. run_stat s0 = ADC_STOP \<longrightarrow> ioctl_chunk_sz n s0 =
      do { t \<leftarrow> ads131m08_data_resize_chunk_buf (c_int_of_ulong n) s0; Some (chunk_sz t, t) }) \<and>
    (\<exists>t bs'. ads131m08_data_resize_chunk_buf (c_int_of_ulong n) s = Some t \<and>
      run_stat t = run_stat s \<and> heap_rep t (drv_lists R A F (Some X)) \<and> chunk_buf_list t = Some bs' \<and>
      concat (map (\<lambda>b. taken (bs' ! b)) (R @ A @ H)) = [] \<and> wait_cond t = Some (R \<noteq> [] \<or> run_stat s = ADC_STOP))"
proof (intro conjI allI impI)
  fix s0 :: "'d drv"
  assume "run_stat s0 = ADC_STOP"
  moreover have "0 < n" using n by (cases "n = 0") (simp_all add: c_int_of_ulong_def word_gt_0)
  ultimately show "ioctl_chunk_sz n s0 = do { t \<leftarrow> ads131m08_data_resize_chunk_buf (c_int_of_ulong n) s0; Some (chunk_sz t, t) }"
    by (simp add: ioctl_chunk_sz_def ads131m08_run_stat_def ads131m08_data_get_chunk_sz_def ADC_RUN_def ADC_STOP_def)
next
  let ?m = "clamp_chunk_sz (c_int_of_ulong n)"
  let ?bs = "map (\<lambda>c. c\<lparr>c_chunk_sz := ?m, c_idx := 0\<rparr>) bs"
  let ?t = "s\<lparr>chunk_buf_list := Some ?bs, chunk_sz := ?m\<rparr>"
  have D: "drv_inv s R A F H X bs" using I by (simp add: sys_inv_def)
  then have d: "data_inv s R A F H (Some X) bs" by (simp add: drv_inv_def)
  then have c: "chunk_buf_list s = Some bs" and l: "CHUNK_BUF_CNT = length bs" and O: "owned R A F H"
    and h: "heap_rep s (drv_lists R A F (Some X))" by (simp_all add: data_inv_def bufs_ok_def)
  note op = resize_eq [OF c l n]
  have "taken (?bs ! b) = []" if "b \<in> set (R @ A @ H)" for b
  proof -
    have "b < length bs" using owned_lt(1) [OF O] that l by auto
    then show ?thesis by (simp add: taken_def)
  qed
  then have e: "concat (map (\<lambda>b. taken (?bs ! b)) (R @ A @ H)) = []" by auto
  have "wait_cond ?t = wait_cond s" by (simp add: wait_cond_def ads131m08_data_smpl_cnt_def ads131m08_run_stat_def list_get_cnt_def cong: option.case_cong)
  with wait_cond_ok [OF D] have "wait_cond ?t = Some (R \<noteq> [] \<or> run_stat s = ADC_STOP)" by simp
  with op h e show "\<exists>t bs'. ads131m08_data_resize_chunk_buf (c_int_of_ulong n) s = Some t \<and>
      run_stat t = run_stat s \<and> heap_rep t (drv_lists R A F (Some X)) \<and> chunk_buf_list t = Some bs' \<and>
      concat (map (\<lambda>b. taken (bs' ! b)) (R @ A @ H)) = [] \<and> wait_cond t = Some (R \<noteq> [] \<or> run_stat s = ADC_STOP)"
    by (intro exI [of _ ?t] exI [of _ ?bs]) simp
qed

theorem late_resize_loses_witness:
  "\<exists>(s :: unit drv) t X F bs bs'. run_stat s = ADC_RUN \<and> sys_inv s [0] [] F [] X bs \<and> taken (bs ! 0) \<noteq> [] \<and>
     ads131m08_data_resize_chunk_buf 5 s = Some t \<and> chunk_buf_list t = Some bs' \<and> taken (bs' ! 0) = []"
proof -
  obtain s :: "unit drv" and F X bs where s: "sys_inv s [0] [] F [] X bs" "run_stat s = ADC_RUN" "taken (bs ! 0) \<noteq> []"
  proof -
    from k0_ready obtain s :: "unit drv" and X bs where "sys_inv s [0] [] [1..<CHUNK_BUF_CNT] [] X bs" "run_stat s = ADC_RUN"
      "pending bs [0] [] = [\<lparr>s_ts = 77, s_data = frame_smpl (\<lambda>i. of_nat (3 * i))\<rparr>]" by blast
    with that show ?thesis by (simp add: pending_def)
  qed
  have "c_int_of_ulong 5 = 5" by (simp add: c_int_of_ulong_def)
  with late_resize_loses [OF s(1), of 5] obtain t bs' where "ads131m08_data_resize_chunk_buf 5 s = Some t"
    "chunk_buf_list t = Some bs'" "concat (map (\<lambda>b. taken (bs' ! b)) ([0] @ [] @ [])) = []" by auto
  moreover from this(3) have "taken (bs' ! 0) = []" by simp
  ultimately show ?thesis using s by blast
qed

end
