(* ===== verification/End_To_End.thy ===== *)
theory End_To_End
  imports Concurrent Shell
begin

text \<open>
  From the SPI bus to the screen: the test program's printing loop reading from the driver while
  the interrupt thread fills chunks. A session is the sequence of reads of one process, each cut
  where \<open>ads131m08_read\<close> can be preempted: asleep (no step of its own), the fetch, the copy; the steps
  of everybody else lie between these.
\<close>

section \<open>One reader of a running acquisition\<close>

text \<open>What the others do meanwhile: anything but start, stop, or read from the device themselves.\<close>

definition calm :: "'d kenv \<Rightarrow> 'd fworld \<Rightarrow> 'd fworld \<Rightarrow> bool" where
  "calm K w w' \<longleftrightarrow> fstep K w w' \<and> ctl_at w' = NoCall \<and> run_stat (drv w') = ADC_RUN \<and> held w' = held w"

text \<open>The world after a fetch and after a copy, as in the steps of Interleaving.\<close>

definition got_chunk :: "nat \<Rightarrow> chunk_buf \<Rightarrow> 'd drv \<Rightarrow> 'd fworld \<Rightarrow> 'd fworld" where
  "got_chunk b c t w =
     w\<lparr>drv := t, held := b # held w, gone := gone w @ map (Pair Fetched) (taken c),
       snap := (snap w)(b := taken c), emptied := emptied w - {b}\<rparr>"

text \<open>The reads of the process, \<open>cnt\<close> bytes each: for each its result and the samples that
  \<open>copy_to_user\<close> has stored. A signal can interrupt a read that waits.\<close>

inductive session :: "'d kenv \<Rightarrow> nat \<Rightarrow> 'd fworld \<Rightarrow> (int \<times> smpl list) list \<Rightarrow> 'd fworld \<Rightarrow> bool" for K cnt where
  still: "(calm K)\<^sup>*\<^sup>* w w' \<Longrightarrow> session K cnt w [] w'"
| interrupted: "session K cnt w rs w' \<Longrightarrow> session K cnt w ((- EINTR, []) # rs) w'"
| read: "(calm K)\<^sup>*\<^sup>* w w1 \<Longrightarrow> ads131m08_data_get (drv w1) = Some (Some (Chunk b), t1) \<Longrightarrow> get_buf b t1 = Some c1 \<Longrightarrow>
    (calm K)\<^sup>*\<^sup>* (got_chunk b c1 t1 w1) w2 \<Longrightarrow> get_buf b (drv w2) = Some c2 \<Longrightarrow>
    read_copy K cnt (Chunk b) (drv w2) = Some (ret, t2) \<Longrightarrow>
    session K cnt (w2\<lparr>drv := t2, held := remove1 b (held w2)\<rparr>) rs w' \<Longrightarrow>
    session K cnt w ((ret, take (nat ret div SMPL_SIZE) (c_data c2)) # rs) w'"

section \<open>Nobody writes to a reader's chunk\<close>

text \<open>Between the reads: the process holds nothing; inside one: the chunk is as it was fetched.\<close>

definition exact :: "'d fworld \<Rightarrow> bool" where
  "exact w \<longleftrightarrow> (\<forall>b \<in> set (held w). map_option taken (get_buf b (drv w)) = Some (snap w b))"

lemma calm_stage:
  assumes W: "fine_inv w" and e: "exact w" and pc: "irq_at w \<noteq> Idle" "irq_next K (irq_at w) (drv w) = Some (pc', t)"
    and s: "snap w' = snap w" "held w' = held w" "drv w' = t"
  shows "exact w'"
proof -
  from W obtain R A F X bs where I: "irq_inv (drv w) (irq_at w) R A F (held w) X bs" by (rule fine_invE)
  from irq_stage [OF I pc(1), of K] pc(2) obtain R' A' F' X' bs' where
    t: "irq_inv t pc' R' A' F' (held w) X' bs'" and ke: "\<forall>x \<in> set (held w). bs' ! x = bs ! x"
    unfolding irq_stage_ok_def by auto
  have "get_buf b (drv w') = get_buf b (drv w)" if "b \<in> set (held w)" for b
    using data_get_buf(1) [OF irq_invD(1) [OF t], of b] data_get_buf(1) [OF irq_invD(1) [OF I], of b] that ke s(3) by simp
  with e s show ?thesis by (simp add: exact_def)
qed

lemma exact_same:
  "exact w \<Longrightarrow> chunk_buf_list (drv w') = chunk_buf_list (drv w) \<Longrightarrow> snap w' = snap w \<Longrightarrow> held w' = held w \<Longrightarrow> exact w'"
  by (simp add: exact_def get_buf_def)

lemma isr_bufs [simp]: "chunk_buf_list (ads131m08_isr K s) = chunk_buf_list s"
  by (simp add: ads131m08_isr_def kcall_def split: prod.splits)

lemma open_bufs [simp]: "chunk_buf_list (snd (ads131m08_open s)) = chunk_buf_list s"
  by (simp add: ads131m08_open_def)

lemma calm_step:
  assumes W: "fine_inv w" and run: "run_stat (drv w) = ADC_RUN" "ctl_at w = NoCall" and e: "exact w" and st: "calm K w w'"
  shows "exact w' \<and> gone w' = gone w \<and> snap w' = snap w"
proof -
  have f: "fstep K w w'" "ctl_at w' = NoCall" "held w' = held w" using st by (simp_all add: calm_def)
  from f(1) show ?thesis
  proof (cases rule: fstep.cases)
    case (irq pc t)
    with calm_stage [OF W e irq(2,3), of w'] show ?thesis by simp
  next
    case (other c arg ret t)
    with ioctl_running_stays [OF other(3) run(1), of K] have "t = drv w" by auto
    with other(1) e show ?thesis by (simp add: exact_def)
  next
    case (put b n ret t)
    then have "length (remove1 b (held w)) = length (held w)" using f(3) by simp
    moreover have "0 < length (held w)" using put(2) by (cases "held w") simp_all
    ultimately show ?thesis using put(2) by (simp add: length_remove1 del: length_greater_0_conv)
  qed (use run f e in \<open>auto simp: ctl_entry_def exact_def get_buf_def split: if_splits\<close>)
qed

definition running :: "'d fworld \<Rightarrow> bool" where
  "running w \<longleftrightarrow> fine_inv w \<and> run_stat (drv w) = ADC_RUN \<and> ctl_at w = NoCall \<and> exact w"

lemma calm_run:
  assumes K: "kenv_ok K" and st: "(calm K)\<^sup>*\<^sup>* w w'" and r: "running w"
  shows "running w' \<and> held w' = held w \<and> gone w' = gone w \<and> snap w' = snap w"
  using st r
proof (induction rule: rtranclp_induct)
  case (step y z)
  then have y: "fine_inv y" "run_stat (drv y) = ADC_RUN" "ctl_at y = NoCall" "exact y" by (simp_all add: running_def)
  have z: "fstep K y z" "ctl_at z = NoCall" "run_stat (drv z) = ADC_RUN" "held z = held y"
    using step.hyps(2) by (simp_all add: calm_def)
  from calm_step [OF y step.hyps(2)] fine_step [OF y(1) K z(1)] z step show ?case by (simp add: running_def)
qed simp

section \<open>A read\<close>

lemma get_running:
  assumes K: "kenv_ok K" and r: "running w" and g: "ads131m08_data_get (drv w) = Some (Some (Chunk b), t)" "get_buf b t = Some c"
  shows "running (got_chunk b c t w)"
proof -
  from r have W: "fine_inv w" and e: "exact w" by (simp_all add: running_def)
  from W obtain R A F X bs where I: "irq_inv (drv w) (irq_at w) R A F (held w) X bs" by (rule fine_invE)
  from get_fine(2) [OF I] g(1) obtain b' R' where R: "R = b' # R'" by (cases R) auto
  from get_fine(1) [OF I R] g(1) have t: "irq_inv t (irq_at w) R' A F (b # held w) X bs" "ctl t = ctl (drv w)" by auto
  have "get_buf x t = get_buf x (drv w)" if "x \<in> set (held w)" for x
    using data_get_buf(1) [OF irq_invD(1) [OF t(1)], of x] data_get_buf(1) [OF irq_invD(1) [OF I], of x] that by simp
  moreover have "fine_inv (got_chunk b c t w)" using reader_fine(1) [OF W g] by (simp add: got_chunk_def)
  ultimately show ?thesis using r g(2) ctl_fields(7) [OF t(2)] by (auto simp: running_def exact_def got_chunk_def)
qed

lemma put_running:
  assumes K: "kenv_ok K" and r: "running w" and h: "held w = [b]" and c: "get_buf b (drv w) = Some c"
    and p: "read_copy K (SMPL_SIZE * TEST_CHUNK_SZ) (Chunk b) (drv w) = Some (ret, t)" and ok: "ret \<noteq> - EFAULT"
  shows "running (w\<lparr>drv := t, held := remove1 b (held w)\<rparr>) \<and> 0 \<le> ret \<and>
    take (nat ret div SMPL_SIZE) (c_data c) = snap w b \<and> length (snap w b) \<le> TEST_CHUNK_SZ \<and>
    nat ret div SMPL_SIZE = length (snap w b)"
proof -
  from r have W: "fine_inv w" and e: "exact w" by (simp_all add: running_def)
  from W obtain R A F X bs where I: "irq_inv (drv w) (irq_at w) R A F (held w) X bs" by (rule fine_invE)
  have b: "b \<in> set (held w)" using h by simp
  have D: "drv_inv (drv w) R A F (b # irq_bufs (irq_at w)) X bs"
    by (rule drv_inv_perm [of _ "irq_bufs (irq_at w) @ held w"]) (use I h in \<open>simp_all add: irq_inv_def\<close>)
  then have "data_inv (drv w) R A F (b # irq_bufs (irq_at w)) (Some X) bs" by (simp add: drv_inv_def)
  from data_get_buf [OF this, of b] this c have cb: "c = bs ! b" and ck: "buf_ok (chunk_sz (drv w)) c" "chunk_sz (drv w) \<le> 320"
    by (simp_all add: data_inv_def bufs_ok_def MAX_CHUNK_SZ_def)
  then have i: "0 \<le> c_idx c" "nat (c_idx c) \<le> 320" "length (c_data c) = 320" by (auto simp: buf_ok_def MAX_CHUNK_SZ_def)
  have tk: "taken c = snap w b" using e b c unfolding exact_def by (metis option.inject option.map(2))
  have l: "length (snap w b) = nat (c_idx c)" unfolding tk [symmetric] using i by (simp add: taken_def)
  have n: "min (SMPL_SIZE * TEST_CHUNK_SZ div SMPL_SIZE) (nat (c_idx c)) = nat (c_idx c)" "0 < SMPL_SIZE"
    using i by (simp_all add: SMPL_SIZE_def TEST_CHUNK_SZ_def)
  obtain ok d where cp: "copy_smpls_to_user K (dev (drv w)) (take (nat (c_idx c)) (taken c)) = (ok, d)"
    by (cases "copy_smpls_to_user K (dev (drv w)) (take (nat (c_idx c)) (taken c))")
  from read_copy_ok [OF D, of K "SMPL_SIZE * TEST_CHUNK_SZ" ok d, folded cb, unfolded n(1), OF cp] p ok
  have ret: "ret = int (nat (c_idx c) * SMPL_SIZE)" by (auto split: if_splits)
  have "fine_inv (w\<lparr>drv := t, held := remove1 b (held w)\<rparr>)" by (rule reader_fine(2) [OF W b p])
  moreover have c: "ctl t = ctl (drv w)" using put_fine [OF I b, of K "SMPL_SIZE * TEST_CHUNK_SZ"] p by auto
  have "run_stat t = ADC_RUN" using r ctl_fields(7) [OF c] by (simp add: running_def)
  ultimately show ?thesis using ret n(2) tk l i r h by (simp add: running_def exact_def taken_def TEST_CHUNK_SZ_def nat_mult_distrib)
qed

text \<open>The reads of a session return what was fetched, all of it, in order.\<close>

lemma session_ok:
  assumes K: "kenv_ok K" and s: "session K (SMPL_SIZE * TEST_CHUNK_SZ) w rs w'" and r: "running w" "held w = []"
    and ok: "- EFAULT \<notin> fst ` set rs"
  shows "running w' \<and> held w' = [] \<and> gone w' = gone w @ map (Pair Fetched) (concat (map read_smpls rs)) \<and> (\<forall>r \<in> set rs. read_fits r)"
  using s r ok
proof (induction rule: session.induct)
  case (still w w')
  with calm_run [OF K still.hyps] show ?case by simp
next
  case (interrupted w rs w')
  then show ?case by (simp add: read_smpls_def read_fits_def EINTR_def)
next
  case (read w w1 b t1 c1 w2 c2 ret t2 rs w')
  from calm_run [OF K read.hyps(1) read.prems(1)] read.prems(2) have
    w1: "running w1" "held w1 = []" "gone w1 = gone w" by simp_all
  from calm_run [OF K read.hyps(4) get_running [OF K w1(1) read.hyps(2,3)]] w1 have
    w2: "running w2" "held w2 = [b]" "gone w2 = gone w @ map (Pair Fetched) (taken c1)" "snap w2 b = taken c1"
    by (simp_all add: got_chunk_def)
  from put_running [OF K w2(1,2) read.hyps(5,6)] read.prems(3) have
    p: "running (w2\<lparr>drv := t2, held := remove1 b (held w2)\<rparr>)" "0 \<le> ret"
      "take (nat ret div SMPL_SIZE) (c_data c2) = taken c1" "nat ret div SMPL_SIZE = length (taken c1)"
      "length (taken c1) \<le> TEST_CHUNK_SZ" unfolding w2(4) by auto
  have "read_smpls (ret, taken c1) = taken c1" "read_fits (ret, taken c1)"
    using p by (simp_all add: read_smpls_def read_fits_def)
  with read.IH [OF p(1)] read.prems(3) w2 p(3) show ?case by simp
qed

section \<open>What is left in the driver\<close>

lemma concat_bound: "\<forall>x \<in> set xs. length (f x) \<le> n \<Longrightarrow> length (concat (map f xs)) \<le> length xs * n"
  by (induction xs) auto

lemma stream_bound:
  assumes I: "irq_inv s pc R A F H X bs"
  shows "length (stream pc s R A bs) \<le> 8 * nat (chunk_sz s) + 1"
proof -
  note D = irq_invD [OF I]
  have O: "owned R A F (irq_bufs pc @ H)" using D(1) by (simp add: data_inv_def)
  have t: "length (taken (bs ! b)) \<le> nat (chunk_sz s)" if "b \<in> set (R @ A @ irq_bufs pc)" for b
    using data_get_buf(3) [OF D(1), of b] that by (auto simp: buf_ok_def taken_def)
  have "length (pending bs R (A @ irq_bufs pc)) \<le> length (R @ A @ irq_bufs pc) * nat (chunk_sz s)"
    unfolding pending_def by (rule concat_bound) (use t in simp)
  moreover have "length (R @ A @ irq_bufs pc) * nat (chunk_sz s) \<le> 8 * nat (chunk_sz s)"
    using owned_lengths [OF O] by (intro mult_right_mono) (simp_all add: CHUNK_BUF_CNT_def)
  moreover have "length (in_flight pc s bs) \<le> 1" by (cases pc) simp_all
  ultimately show ?thesis unfolding stream_def length_append by linarith
qed

section \<open>The property\<close>

text \<open>C4: from the bus to the screen. While an acquisition runs and nobody else reads, the printing
  loop of the test program, reading through the driver with the interrupt thread at work between
  and inside its reads, prints one line per sample that the driver has stored, in the order in
  which the device sent them: after any number of reads none of which met a faulting
  \<open>copy_to_user\<close>, the samples that the device has sent since probe in good transfers and that found a chunk (those that
  found none are marked \<open>Dropped\<close> in \<open>sent\<close>; a reader that is too slow never sees them) are those
  that had left the driver before the loop, then exactly the samples printed, then at most eight
  chunks and one sample still in the driver; and nothing has left the driver but what was printed.\<close>

theorem bus_to_screen:
  assumes K: "kernel K" and st: "fstarted K w0" and pre: "(fstep K)\<^sup>*\<^sup>* w0 w"
    and w: "run_stat (drv w) = ADC_RUN" "ctl_at w = NoCall" "held w = []"
    and s: "session K (SMPL_SIZE * TEST_CHUNK_SZ) w (reads E fd n (sys p)) w'"
    and ok: "- EFAULT \<notin> fst ` set (reads E fd n (sys p))" and buf: "length buf = TEST_CHUNK_SZ"
  shows "\<exists>q rest. test_loop E fd n buf p = Some q \<and> out q = out p @ show_reads (reads E fd n (sys p)) (prev_ts p) \<and>
    pkt_times (show_reads (reads E fd n (sys p)) (prev_ts p)) = map s_ts (concat (map read_smpls (reads E fd n (sys p)))) \<and>
    with_fate Stored (sent w') = map snd (gone w) @ concat (map read_smpls (reads E fd n (sys p))) @ rest \<and>
    gone w' = gone w @ map (Pair Fetched) (concat (map read_smpls (reads E fd n (sys p)))) \<and>
    length rest \<le> 8 * nat (chunk_sz (drv w')) + 1"
proof -
  have k: "kenv_ok K" using K by (simp add: kernel_def)
  have "running w" using fine_reach [OF K st pre] w by (simp add: running_def exact_def)
  from session_ok [OF k s this w(3) ok] have e: "running w'" "\<forall>r \<in> set (reads E fd n (sys p)). read_fits r"
    "gone w' = gone w @ map (Pair Fetched) (concat (map read_smpls (reads E fd n (sys p))))" by simp_all
  from e(1) obtain R A F X bs where I: "irq_inv (drv w') (irq_at w') R A F (held w') X bs"
    and h: "acquired w' = map snd (gone w') @ stream (irq_at w') (drv w') R A bs"
    unfolding running_def fine_inv_def by auto
  from test_loop_ok [OF buf e(2)] obtain q where "test_loop E fd n buf p = Some q"
    "out q = out p @ show_reads (reads E fd n (sys p)) (prev_ts p)" by blast
  with stream_bound [OF I] h e(3) pkt_times_reads [of "reads E fd n (sys p)" "prev_ts p"] show ?thesis by simp
qed

text \<open>One read of the chunk with the one sample that \<open>k0\<close> sends.\<close>

lemma k0_session:
  "\<exists>t w w'. fstarted k0 (fworld0 t) \<and> (fstep k0)\<^sup>*\<^sup>* (fworld0 t) w \<and> run_stat (drv w) = ADC_RUN \<and> ctl_at w = NoCall \<and>
     held w = [] \<and> fetched w = [] \<and> session k0 (SMPL_SIZE * TEST_CHUNK_SZ) w
       [(int SMPL_SIZE, [\<lparr>s_ts = 77, s_data = frame_smpl (\<lambda>i. of_nat (3 * i))\<rparr>])] w'"
proof -
  from k0_fine_ready obtain t w X bs where w: "fstarted k0 (fworld0 t)" "(fstep k0)\<^sup>*\<^sup>* (fworld0 t) w" "held w = []"
    "fetched w = []" "ctl_at w = NoCall" "run_stat (drv w) = ADC_RUN" "sys_inv (drv w) [0] [] [1..<CHUNK_BUF_CNT] [] X bs"
    "taken (bs ! 0) = [\<lparr>s_ts = 77, s_data = frame_smpl (\<lambda>i. of_nat (3 * i))\<rparr>]" by blast
  from data_get_sys(1) [OF w(7)] obtain u where u: "ads131m08_data_get (drv w) = Some (Some (Chunk 0), u)"
    "get_buf 0 u = Some (bs ! 0)" "sys_inv u [] [] [1..<CHUNK_BUF_CNT] [0] X bs" by blast
  let ?v = "got_chunk 0 (bs ! 0) u w"
  have D: "drv_inv u [] [] [1..<CHUNK_BUF_CNT] [0] X bs" using u(3) by (simp add: sys_inv_def)
  then have "data_inv u [] [] [1..<CHUNK_BUF_CNT] [0] (Some X) bs" by (simp add: drv_inv_def)
  from data_get_buf(3) [OF this, of 0] this have "length (taken (bs ! 0)) = nat (c_idx (bs ! 0))"
    by (auto simp: buf_ok_def taken_def data_inv_def bufs_ok_def MAX_CHUNK_SZ_def)
  then have i: "nat (c_idx (bs ! 0)) = 1" using w(8) by simp
  from read_copy_ok [OF D, of k0 "SMPL_SIZE * TEST_CHUNK_SZ" True "()"] i obtain v where
    v: "read_copy k0 (SMPL_SIZE * TEST_CHUNK_SZ) (Chunk 0) u = Some (int SMPL_SIZE, v)"
    by (auto simp: k0_simps SMPL_SIZE_def TEST_CHUNK_SZ_def)
  have "session k0 (SMPL_SIZE * TEST_CHUNK_SZ) w
      ((int SMPL_SIZE, take (nat (int SMPL_SIZE) div SMPL_SIZE) (c_data (bs ! 0))) # []) (?v\<lparr>drv := v, held := remove1 0 (held ?v)\<rparr>)"
    by (rule session.read [OF rtranclp.rtrancl_refl u(1,2) rtranclp.rtrancl_refl _ _ session.still [OF rtranclp.rtrancl_refl]])
      (use u v in \<open>simp_all add: got_chunk_def\<close>)
  moreover have "take (nat (int SMPL_SIZE) div SMPL_SIZE) (c_data (bs ! 0)) = taken (bs ! 0)"
    using i by (simp add: taken_def SMPL_SIZE_def)
  ultimately show ?thesis using w by auto
qed

theorem bus_to_screen_witness:
  "\<exists>w0 w w' E q rest. fstarted k0 w0 \<and> (fstep k0)\<^sup>*\<^sup>* w0 w \<and> run_stat (drv w) = ADC_RUN \<and>
     session k0 (SMPL_SIZE * TEST_CHUNK_SZ) w (reads E 3 1 (sys (p0 ()))) w' \<and>
     test_loop E 3 1 (replicate 320 zero_smpl) (p0 ()) = Some q \<and> out q = [OPkt 77 77] \<and>
     with_fate Stored (sent w') = map snd (gone w) @ \<lparr>s_ts = 77, s_data = frame_smpl (\<lambda>i. of_nat (3 * i))\<rparr> # rest"
proof -
  let ?m = "\<lparr>s_ts = 77, s_data = frame_smpl (\<lambda>i. of_nat (3 * i))\<rparr> :: smpl"
  let ?E = "e_ok\<lparr>sys_read := \<lambda>s fd n. (int SMPL_SIZE, [?m], s)\<rparr>"
  from k0_session obtain t w w' where w: "fstarted k0 (fworld0 t)" "(fstep k0)\<^sup>*\<^sup>* (fworld0 t) w" "run_stat (drv w) = ADC_RUN"
    "ctl_at w = NoCall" "held w = []" "fetched w = []" "session k0 (SMPL_SIZE * TEST_CHUNK_SZ) w [(int SMPL_SIZE, [?m])] w'" by blast
  have r: "reads ?E 3 1 (sys (p0 ())) = [(int SMPL_SIZE, [?m])]" by simp
  have "- EFAULT \<notin> fst ` set (reads ?E 3 1 (sys (p0 ())))" unfolding r by (simp add: EFAULT_def SMPL_SIZE_def)
  moreover have "length (replicate 320 zero_smpl) = TEST_CHUNK_SZ" by (simp add: TEST_CHUNK_SZ_def)
  ultimately have "\<exists>q rest. test_loop ?E 3 1 (replicate 320 zero_smpl) (p0 ()) = Some q \<and> out q = [OPkt 77 77] \<and>
      acquired w' = map snd (gone w) @ ?m # rest"
    using bus_to_screen [OF k0_kernel w(1-5), of ?E 3 1 "p0 ()" w' "replicate 320 zero_smpl"] w(6,7) unfolding r
    by (auto simp: p0_def read_smpls_def SMPL_SIZE_def int32_id)
  with w(1-3,7) r show ?thesis by metis
qed

end
