(* ===== verification/Sample_Times.thy ===== *)
theory Sample_Times
  imports Concurrent "HOL-Library.Sublist"
begin

text \<open>
  The time stamps of the samples. The interrupt handler stores the time in one variable, the
  thread copies it into the sample much later, while a start, a stop and readers go on; a run is
  recorded together with the times at which the handler ran.
\<close>

section \<open>Runs with the times of their interrupts\<close>

inductive timed :: "'d kenv \<Rightarrow> 'd fworld \<Rightarrow> int list \<Rightarrow> 'd fworld \<Rightarrow> bool" for K w0 where
  init: "timed K w0 [] w0"
| interrupt: "timed K w0 ts w \<Longrightarrow> irq_registered (drv w) \<Longrightarrow> irq_at w = Idle \<Longrightarrow>
    timed K w0 (ts @ [fst (ktime_get_real K (dev (drv w)))]) (w\<lparr>drv := ads131m08_isr K (drv w), irq_at := Woken\<rparr>)"
| quiet_step: "timed K w0 ts w \<Longrightarrow> fstep K w w' \<Longrightarrow> irq_at w \<noteq> Idle \<or> irq_at w' = Idle \<Longrightarrow> timed K w0 ts w'"

text \<open>It is a record only: these are the runs of Interleaving.\<close>

lemma timed_run: "timed K w0 ts w \<Longrightarrow> (fstep K)\<^sup>*\<^sup>* w0 w"
  by (induction rule: timed.induct) (auto intro: rtranclp.rtrancl_into_rtrancl fstep.isr)

lemma run_timed:
  assumes "(fstep K)\<^sup>*\<^sup>* w0 w"
  shows "\<exists>ts. timed K w0 ts w"
  using assms
proof (induction rule: rtranclp_induct)
  case base
  then show ?case using timed.init by blast
next
  case (step w w')
  then obtain ts where t: "timed K w0 ts w" by blast
  show ?case
  proof (cases "irq_at w \<noteq> Idle \<or> irq_at w' = Idle")
    case True
    with timed.quiet_step [OF t step.hyps(2)] show ?thesis by blast
  next
    case False
    from step.hyps(2) False show ?thesis
    proof (cases rule: fstep.cases)
      case isr
      with timed.interrupt [OF t] show ?thesis by blast
    qed (auto simp: after_stage_def split: if_splits)
  qed
qed

section \<open>The stamp of the sample in progress\<close>

text \<open>Until the exchange is over the thread's interrupt has not yielded its sample.\<close>

fun unsampled :: "irq_pc \<Rightarrow> bool" where
  "unsampled Woken = True" | "unsampled NoActive = True" | "unsampled NoBuf = True" | "unsampled (Got b) = True"
| "unsampled (Stamped b) = True" | "unsampled (Armed b x) = True" | "unsampled pc = False"

definition stamps :: "('f \<times> smpl) list \<Rightarrow> int list" where
  "stamps h = map (\<lambda>e. s_ts (snd e)) h"

lemma stamps_simps [simp]:
  "stamps [] = []" "stamps (h @ h') = stamps h @ stamps h'" "stamps ((f, m) # h) = s_ts m # stamps h"
  by (simp_all add: stamps_def)

lemma subseq_map_filter: "subseq (map f (filter P xs)) (map f xs)"
  by (simp add: subseq_map)

lemma subseq_fate: "subseq (map s_ts (with_fate f h)) (stamps h)"
proof -
  have "map s_ts (with_fate f h) = map (\<lambda>e. s_ts (snd e)) (filter (\<lambda>e. fst e = f) h)" by (simp add: with_fate_def)
  then show ?thesis unfolding stamps_def using subseq_map_filter by metis
qed

definition stamps_ok :: "int list \<Rightarrow> 'd fworld \<Rightarrow> bool" where
  "stamps_ok ts w \<longleftrightarrow>
     (if unsampled (irq_at w) then \<exists>us. ts = us @ [smpl_ts (drv w)] \<and> subseq (stamps (sent w)) us
      else subseq (stamps (sent w)) ts)"

lemma unsampled_busy: "unsampled pc \<Longrightarrow> pc \<noteq> Idle"
  by (cases pc) simp_all

lemma stamps_weaken: "stamps_ok ts w \<Longrightarrow> subseq (stamps (sent w)) ts"
  by (auto simp: stamps_ok_def split: if_splits)

lemma stamps_same:
  assumes "stamps_ok ts w" "irq_at w' = irq_at w" "sent w' = sent w"
    "unsampled (irq_at w) \<Longrightarrow> smpl_ts (drv w') = smpl_ts (drv w)"
  shows "stamps_ok ts w'"
  using assms by (auto simp: stamps_ok_def)

text \<open>A stage of the thread either keeps waiting for the sample or yields it, with that stamp.\<close>

lemma irq_next_stamp:
  assumes "irq_next K pc s = Some (pc', t)" "pc \<noteq> Idle"
  shows "unsampled pc' \<Longrightarrow> unsampled pc \<and> sent_smpls K pc s = []"
    and "stamps (sent_smpls K pc s) = [] \<or> unsampled pc \<and> stamps (sent_smpls K pc s) = [smpl_ts s]"
  using assms by (cases pc; auto simp: Option.bind_eq_Some_conv clocked_out_def split: if_splits option.splits prod.splits)+

lemma stamps_irq:
  assumes W: "fine_inv w" and T: "stamps_ok ts w" and pc: "irq_at w \<noteq> Idle" "irq_next K (irq_at w) (drv w) = Some (pc', t)"
  shows "stamps_ok ts (w\<lparr>drv := t, irq_at := pc', sent := sent w @ sent_smpls K (irq_at w) (drv w)\<rparr>)"
proof -
  from W obtain R A F X bs where I: "irq_inv (drv w) (irq_at w) R A F (held w) X bs" by (rule fine_invE)
  from irq_stage [OF I pc(1), of K] pc(2) have c: "ctl t = ctl ((drv w)\<lparr>drop_cnt := drop_cnt t\<rparr>)"
    unfolding irq_stage_ok_def by auto
  have ts: "smpl_ts t = smpl_ts (drv w)" using ctl_fields(10) [OF c] by simp
  note n = irq_next_stamp [OF pc(2,1)]
  show ?thesis
  proof (cases "unsampled pc'")
    case True
    with n(1) T ts show ?thesis by (simp add: stamps_ok_def)
  next
    case False
    with n(2) T stamps_weaken [OF T] show ?thesis
      by (auto simp: stamps_ok_def split: if_splits)
  qed
qed

text \<open>Nobody else touches the stamp while the thread works.\<close>

lemma ctl_next_stamp:
  assumes I: "irq_inv s ipc R A F H X bs" and ok: "ctl_ok pc s R A" and busy: "ipc \<noteq> Idle" and w: "\<not> frees_irq pc"
    and st: "ctl_next K pc s = Some (pc', t)"
  shows "smpl_ts t = smpl_ts s"
proof -
  have r: "irq_registered s" using I busy by (simp add: irq_inv_def)
  have strobe: "smpl_ts u = smpl_ts s" if "cmd_strobe K cmd [] 0 0 s = Some (ret, u)" for cmd ret u
    using irq_inv_strobe [OF I, of K cmd] that ctl_fields(10) [of u s] by auto
  from st ok r w show ?thesis
    by (cases pc) (auto simp: quiet_def ads131m08_gpio_set_irq_def kcall_def ads131m08_cmd_wakeup_def
        ads131m08_cmd_standby_def Option.bind_eq_Some_conv dest: strobe split: if_splits prod.splits)
qed

lemma stamps_step:
  assumes W: "fine_inv w" and T: "stamps_ok ts w" and st: "fstep K w w'"
    and q: "irq_at w \<noteq> Idle \<or> irq_at w' = Idle"
  shows "stamps_ok ts w'"
proof -
  from W obtain R A F X bs where I: "irq_inv (drv w) (irq_at w) R A F (held w) X bs"
    and ok: "ctl_ok (ctl_at w) (drv w) R A" by (rule fine_invE)
  show ?thesis using st
  proof (cases rule: fstep.cases)
    case isr
    with q show ?thesis by simp
  next
    case (irq pc t)
    with stamps_irq [OF W T] show ?thesis by simp
  next
    case (other c arg ret t)
    have "t = drv w" if "unsampled (irq_at w)"
    proof -
      have "irq_registered (drv w)" using I unsampled_busy [OF that] by (simp add: irq_inv_def)
      then have "run_stat (drv w) = ADC_RUN" using ok other(2) by (simp add: quiet_def)
      from ioctl_running_stays [OF other(3) this, of K] other(4) show ?thesis by auto
    qed
    with T other(1) show ?thesis by (intro stamps_same [of ts w w']) simp_all
  next
    case (ctl pc t)
    have "smpl_ts t = smpl_ts (drv w)" if "unsampled (irq_at w)"
      using ctl_next_stamp [OF I ok unsampled_busy [OF that] _ ctl(4)] ctl(3) unsampled_busy [OF that] by blast
    with T ctl show ?thesis by (intro stamps_same [of ts w w']) (auto simp: after_stage_def)
  next
    case (get b t c)
    with get_fine [OF I] have "ctl t = ctl (drv w)" by (cases R) auto
    with get T ctl_fields(10) [of t "drv w"] show ?thesis by (intro stamps_same [of ts w w']) simp_all
  next
    case (put b cnt ret t)
    with put_fine [OF I put(2), of K cnt] have "ctl t = ctl (drv w)" by auto
    with put T ctl_fields(10) [of t "drv w"] show ?thesis by (intro stamps_same [of ts w w']) simp_all
  qed (use T in \<open>auto simp: ads131m08_open_def stamps_ok_def\<close>)
qed

lemma stamps_run:
  assumes K: "kernel K" and st: "fstarted K w0" and run: "timed K w0 ts w"
  shows "stamps_ok ts w"
  using run
proof (induction rule: timed.induct)
  case init
  with st show ?case by (simp add: stamps_ok_def fstarted_def started_def world.truncate_def)
next
  case (interrupt ts w)
  then show ?case using stamps_weaken [OF interrupt.IH]
    by (auto simp: stamps_ok_def ads131m08_isr_def kcall_def split: prod.splits)
next
  case (quiet_step ts w w')
  with stamps_step [OF fine_reach [OF K st timed_run [OF quiet_step.hyps(1)]]] show ?case by blast
qed

lemma sorted_wrt_subseq: "subseq xs ys \<Longrightarrow> sorted_wrt P ys \<Longrightarrow> sorted_wrt P xs"
  by (induction rule: list_emb.induct) (auto dest: list_emb_set)

section \<open>The property\<close>

text \<open>C5: every sample carries the time of its own interrupt. Whatever the interleaving of the interrupt
  thread with starts and stops, readers and other ioctls: the time stamps of the samples that the
  device has sent since probe, with those dropped for want of a chunk, are, in order, the times at
  which the interrupt handler ran, each interrupt giving at most one sample (none when the bus
  failed); the same holds of those stored, and of what readers have fetched. So if the clock does
  not go back the stamps of the samples stored are in ascending order, and strictly so if it
  always advances; and while the thread is at work the variable the handler writes still holds the
  time of the last interrupt.\<close>

theorem sample_times:
  assumes K: "kernel K" and st: "fstarted K w0" and run: "timed K w0 ts w"
  shows "subseq (map (\<lambda>e. s_ts (snd e)) (sent w)) ts \<and>
    subseq (map s_ts (with_fate Stored (sent w))) ts \<and> subseq (map s_ts (with_fate Fetched (gone w))) ts \<and>
    (\<not> sorted ts \<or> sorted (map s_ts (with_fate Stored (sent w)))) \<and>
    (\<not> sorted_wrt (<) ts \<or> sorted_wrt (<) (map s_ts (with_fate Stored (sent w)))) \<and>
    (\<not> unsampled (irq_at w) \<or> ts \<noteq> [] \<and> smpl_ts (drv w) = last ts)"
proof -
  note T = stamps_run [OF assms]
  have all: "subseq (map (\<lambda>e. s_ts (snd e)) (sent w)) ts" using stamps_weaken [OF T] by (simp add: stamps_def)
  note sub = subseq_order.order_trans [OF subseq_fate [of Stored] stamps_weaken [OF T]]
  from fine_reach [OF K st timed_run [OF run]] obtain xs where "acquired w = map snd (gone w) @ xs"
    unfolding fine_inv_def by blast
  then have "subseq (stamps (gone w)) (map s_ts (acquired w))"
    by (simp add: stamps_def comp_def subseq_rev_drop_many)
  from subseq_order.order_trans [OF subseq_fate [of Fetched] this] sub
  have "subseq (map s_ts (fetched w)) ts" using subseq_order.order_trans by blast
  moreover have "\<not> unsampled (irq_at w) \<or> ts \<noteq> [] \<and> smpl_ts (drv w) = last ts" using T by (auto simp: stamps_ok_def)
  ultimately show ?thesis using all sub sorted_wrt_subseq [OF sub] by blast
qed

theorem sample_times_witness:
  "\<exists>w0 ts w. fstarted k0 w0 \<and> timed k0 w0 ts w \<and> length (fetched w) = 1 \<and> subseq [77] ts"
proof -
  from k0_fine_held obtain t w where w: "fstarted k0 (fworld0 t)" "(fstep k0)\<^sup>*\<^sup>* (fworld0 t) w" "ctl_at w = NoCall"
    "fetched w = [\<lparr>s_ts = 77, s_data = frame_smpl (\<lambda>i. of_nat (3 * i))\<rparr>]" by auto
  from run_timed [OF w(2)] obtain ts where ts: "timed k0 (fworld0 t) ts w" by blast
  from sample_times [OF k0_kernel w(1) ts] w(3,4) have "subseq [77] ts" by simp
  moreover have "length (fetched w) = 1" using w(4) by simp
  ultimately show ?thesis using w(1) ts by blast
qed

end
