(* ===== verification/Reg_Race.thy ===== *)
theory Reg_Race
  imports Registers
begin

text \<open>
  Two threads reading registers at the same time. Reading a register takes two exchanges on the
  bus, the command and a NULL command that fetches its answer; the mutex of the driver covers one
  exchange. Here \<open>ads131m08_reg_read\<close> is cut between the two.
\<close>

section \<open>The two exchanges\<close>

definition reg_read_cmd :: "'d kenv \<Rightarrow> byte \<Rightarrow> int \<Rightarrow> 'd drv \<Rightarrow> (int \<times> 'd drv) option" where
  "reg_read_cmd K start_addr cnt s = do {
     (ret, _, _, s) \<leftarrow> adc_trx K (reg_cmd CMD_RREG start_addr cnt) [] 0 None ADC_CH_NUM None s;
     Some (ret, s) }"

definition reg_read_answer :: "'d kenv \<Rightarrow> int \<Rightarrow> u16 list \<Rightarrow> 'd drv \<Rightarrow> (int \<times> u16 list \<times> 'd drv) option" where
  "reg_read_answer K cnt ret_reg s = do {
     (ret, status, rx, s) \<leftarrow> adc_trx K CMD_NULL [] 0 (Some ret_reg) cnt (Some frame2word) s;
     ret_reg \<leftarrow> rx;
     (if ret < 0 then Some (ret, ret_reg, s)
      else if cnt = 1
      then do { w \<leftarrow> status; r \<leftarrow> upd_opt ret_reg 0 w; Some (ret, r, s) }
      else Some (ret, ret_reg, s)) }"

lemma reg_read_stages:
  "ads131m08_reg_read K a cnt ret_reg s = do {
     (ret, s) \<leftarrow> reg_read_cmd K a cnt s;
     (if ret < 0 then Some (ret, ret_reg, s) else reg_read_answer K cnt ret_reg s) }"
  unfolding ads131m08_reg_read_def reg_read_cmd_def reg_read_answer_def
  by (cases "adc_trx K (reg_cmd CMD_RREG a cnt) [] 0 None ADC_CH_NUM None s") (simp_all add: split_def)

section \<open>The device\<close>

text \<open>What the data sheet says: the first word of a frame answers the command of the frame before.
  \<open>cmd_of\<close> is the command the device has seen last, \<open>resp\<close> its answers while no register changes.\<close>

definition answers_previous :: "'d kenv \<Rightarrow> ('d \<Rightarrow> u16) \<Rightarrow> (u16 \<Rightarrow> u16) \<Rightarrow> bool" where
  "answers_previous K cmd_of resp \<longleftrightarrow>
     (\<forall>d f. case spi_sync_transfer K d f of (ret, rxd, d') \<Rightarrow>
        0 \<le> ret \<and> cmd_of d' = dec_word (f ! 0) (f ! 1) \<and> dec_word (rxd 0) (rxd 1) = resp (cmd_of d))"

lemma frame_cmd: "dec_word (trx_frame c ws n ! 0) (trx_frame c ws n ! 1) = c"
  by (simp add: trx_frame_def enc_word_def dec_enc_word)

lemma answered:
  assumes "answers_previous K cmd_of resp"
  obtains ret rxd d' where "spi_sync_transfer K d (trx_frame c ws n) = (ret, rxd, d')" "0 \<le> ret" "cmd_of d' = c"
    "dec_word (rxd 0) (rxd 1) = resp (cmd_of d)"
proof -
  obtain ret rxd d' where io: "spi_sync_transfer K d (trx_frame c ws n) = (ret, rxd, d')"
    by (cases "spi_sync_transfer K d (trx_frame c ws n)")
  with assms [unfolded answers_previous_def, THEN spec, of d, THEN spec, of "trx_frame c ws n"] have
    "0 \<le> ret" "cmd_of d' = c" "dec_word (rxd 0) (rxd 1) = resp (cmd_of d)" by (simp_all add: frame_cmd [simplified])
  with io show thesis by (rule that)
qed

section \<open>One exchange after the other\<close>

definition spi_up :: "'d drv \<Rightarrow> bool" where
  "spi_up s \<longleftrightarrow> spi_hdlr s \<and> (\<exists>L xs. xfer_pool s L xs \<and> xs \<noteq> [])"

lemma spi_upI: "drv_inv s R A F H X bs \<Longrightarrow> spi_hdlr s \<Longrightarrow> spi_up s"
  unfolding spi_up_def using drv_inv_pool [of s R A F H X bs] by (auto simp: drv_inv_def)

lemma spi_up_step:
  assumes "spi_hdlr s" "xs \<noteq> []" "pool_step s L xs evs t ys"
  shows "spi_up t"
  using assms pool_step_pool [OF assms(3)] pool_step_nonempty [OF assms(3,2)] io_only_fields(1) [of s t]
  by (auto simp: spi_up_def pool_step_def)

lemma reg_read_cmd_ok:
  assumes up: "spi_up s" and dev: "answers_previous K cmd_of resp"
  shows "\<exists>ret t. reg_read_cmd K a 1 s = Some (ret, t) \<and> 0 \<le> ret \<and> spi_up t \<and> cmd_of (dev t) = reg_cmd CMD_RREG a 1"
proof -
  from up obtain L xs where p: "xfer_pool s L xs" "xs \<noteq> []" "spi_hdlr s" by (auto simp: spi_up_def)
  have w: "trx_words 0 8 = 10" by (simp add: trx_words_def)
  obtain ret rxd d where io: "spi_sync_transfer K (dev s) (trx_frame (reg_cmd CMD_RREG a 1) [] 10) = (ret, rxd, d)"
    "0 \<le> ret" "cmd_of d = reg_cmd CMD_RREG a 1" by (rule answered [OF dev])
  from adc_trx_ok [OF p, of 0 8 "[]" None None K "reg_cmd CMD_RREG a 1" ret rxd d] io(1) w obtain t ys where
    t: "adc_trx K (reg_cmd CMD_RREG a 1) [] 0 None 8 None s
      = Some (ret, if ret < 0 then None else Some (dec_word (rxd 0) (rxd 1)), None, t)"
    "pool_step s L xs [KSpi (trx_frame (reg_cmd CMD_RREG a 1) [] 10)] t ys" "dev t = d"
    by (auto simp: trx_rx_def)
  have "reg_read_cmd K a 1 s = Some (ret, t)" using t(1) by (simp add: reg_read_cmd_def ADC_CH_NUM_def)
  with io(2,3) t(3) spi_up_step [OF p(3,2) t(2)] show ?thesis by blast
qed

lemma reg_read_answer_ok:
  assumes up: "spi_up s" and dev: "answers_previous K cmd_of resp"
  shows "\<exists>ret t. reg_read_answer K 1 [v] s = Some (ret, [resp (cmd_of (dev s))], t) \<and> 0 \<le> ret \<and> spi_up t \<and>
    cmd_of (dev t) = CMD_NULL"
proof -
  from up obtain L xs where p: "xfer_pool s L xs" "xs \<noteq> []" "spi_hdlr s" by (auto simp: spi_up_def)
  have w: "trx_words 0 1 = 3" by (simp add: trx_words_def)
  obtain ret rxd d where io: "spi_sync_transfer K (dev s) (trx_frame CMD_NULL [] 3) = (ret, rxd, d)" "0 \<le> ret"
    "cmd_of d = CMD_NULL" "dec_word (rxd 0) (rxd 1) = resp (cmd_of (dev s))" by (rule answered [OF dev])
  from adc_trx_ok [OF p, of 0 1 "[]" "Some [v]" "Some frame2word" K CMD_NULL ret rxd d] io(1) w obtain t ys where
    t: "adc_trx K CMD_NULL [] 0 (Some [v]) 1 (Some frame2word) s = Some (ret,
        if ret < 0 then None else Some (dec_word (rxd 0) (rxd 1)),
        if ret < 0 then Some [v] else trx_rx (Some [v]) 1 rxd, t)"
    "pool_step s L xs [KSpi (trx_frame CMD_NULL [] 3)] t ys" "dev t = d" by auto
  have "reg_read_answer K 1 [v] s = Some (ret, [resp (cmd_of (dev s))], t)"
    using t(1) io(2,4) by (simp add: reg_read_answer_def trx_rx_def rx_words_def upd_opt_def)
  with io(2,3) t(3) spi_up_step [OF p(3,2) t(2)] show ?thesis by blast
qed

section \<open>The property\<close>

text \<open>C16: reading a register is not atomic. With a device that answers each command in the following
  frame, a register read by itself returns the register asked for. But when two threads read (the
  acquisition is stopped; one open file can be shared, and nothing serialises ioctls) and the
  second one's command goes out between the first one's two exchanges, the first is given the
  second one's register, and the second the answer to the first one's NULL command; both succeed.\<close>

theorem reg_read_race:
  assumes I: "drv_inv s R A F H X bs" "spi_hdlr s" and dev: "answers_previous K cmd_of resp"
  shows "(\<exists>r t. ads131m08_reg_read K a 1 [v] s = Some (r, [resp (reg_cmd CMD_RREG a 1)], t) \<and> 0 \<le> r) \<and>
    (\<exists>r1 s1 r2 s2 r3 s3 r4 s4. reg_read_cmd K a 1 s = Some (r1, s1) \<and> reg_read_cmd K b 1 s1 = Some (r2, s2) \<and>
       reg_read_answer K 1 [v] s2 = Some (r3, [resp (reg_cmd CMD_RREG b 1)], s3) \<and>
       reg_read_answer K 1 [v'] s3 = Some (r4, [resp CMD_NULL], s4) \<and> 0 \<le> r1 \<and> 0 \<le> r2 \<and> 0 \<le> r3 \<and> 0 \<le> r4)"
proof -
  have up: "spi_up s" by (rule spi_upI [OF I])
  from reg_read_cmd_ok [OF up dev, of a] obtain r1 s1 where 1: "reg_read_cmd K a 1 s = Some (r1, s1)" "0 \<le> r1"
    "spi_up s1" "cmd_of (dev s1) = reg_cmd CMD_RREG a 1" by blast
  from reg_read_cmd_ok [OF 1(3) dev, of b] obtain r2 s2 where 2: "reg_read_cmd K b 1 s1 = Some (r2, s2)" "0 \<le> r2"
    "spi_up s2" "cmd_of (dev s2) = reg_cmd CMD_RREG b 1" by blast
  from reg_read_answer_ok [OF 2(3) dev, of v] 2(4) obtain r3 s3 where
    3: "reg_read_answer K 1 [v] s2 = Some (r3, [resp (reg_cmd CMD_RREG b 1)], s3)" "0 \<le> r3" "spi_up s3"
      "cmd_of (dev s3) = CMD_NULL" by auto
  from reg_read_answer_ok [OF 3(3) dev, of v'] 3(4) obtain r4 s4 where
    4: "reg_read_answer K 1 [v'] s3 = Some (r4, [resp CMD_NULL], s4)" "0 \<le> r4" by auto
  from reg_read_answer_ok [OF 1(3) dev, of v] 1(4) obtain r t where
    "reg_read_answer K 1 [v] s1 = Some (r, [resp (reg_cmd CMD_RREG a 1)], t)" "0 \<le> r" by auto
  with 1(1,2) have "ads131m08_reg_read K a 1 [v] s = Some (r, [resp (reg_cmd CMD_RREG a 1)], t) \<and> 0 \<le> r"
    by (simp add: reg_read_stages)
  with 1(1,2) 2(1,2) 3(1,2) 4 show ?thesis by blast
qed

text \<open>A device that remembers the last command and answers with that word.\<close>

definition k_echo :: "u16 kenv" where
  "k_echo = k_base\<lparr>spi_sync_transfer := (\<lambda>d f. (0, (\<lambda>i. if i = 0 then UPPER d else if i = 1 then LOWER d else 0),
     dec_word (f ! 0) (f ! 1)))\<rparr>"

lemma k_echo_answers: "answers_previous k_echo id id"
  by (simp add: answers_previous_def k_echo_def dec_enc_word)

lemma k_echo_up: "\<exists>(s :: u16 drv) X bs. drv_inv s [] [] [0..<CHUNK_BUF_CNT] [] X bs \<and> spi_hdlr s"
proof -
  have w: "willing k_echo" and cl: "\<And>d. fst (class_create k_echo d) \<noteq> 0" by (simp_all add: willing_def spi_mode_setup_def k_echo_def k_base_def)
  from probe_ok [OF drv_off_empty [of 0] cl] probe_willing [OF w drv_off_empty [of 0]] obtain t evs where
    "probe_ready k_echo (drv_off 0) t evs" by auto
  then show ?thesis by (auto simp: probe_ready_def sys_inv_def)
qed

theorem reg_read_race_witness:
  "\<exists>(s :: u16 drv) r t r1 s1 r2 s2 r3 s3. ads131m08_reg_read k_echo 2 1 [0] s = Some (r, [0xA100], t) \<and>
     reg_read_cmd k_echo 2 1 s = Some (r1, s1) \<and> reg_read_cmd k_echo 3 1 s1 = Some (r2, s2) \<and>
     reg_read_answer k_echo 1 [0] s2 = Some (r3, [0xA180], s3)"
proof -
  obtain s :: "u16 drv" and X bs where s: "drv_inv s [] [] [0..<CHUNK_BUF_CNT] [] X bs" "spi_hdlr s" using k_echo_up by blast
  have c: "reg_cmd CMD_RREG 2 1 = 0xA100" "reg_cmd CMD_RREG 3 1 = 0xA180" by (simp_all add: reg_cmd_def CMD_RREG_def)
  from reg_read_race [OF s k_echo_answers, of 2 0 3 0, unfolded c id_apply] show ?thesis by blast
qed

end
