(* ===== verification/Footprint.thy ===== *)
theory Footprint
  imports Lifecycle
begin

text \<open>
  Memory outside the device-managed allocations: between probe and remove no operation of the
  driver allocates or releases a list element. Every operation is shown to keep \<open>mem\<close>, by
  following the code; nothing is assumed of the state it runs in.
\<close>

definition mem :: "'d drv \<Rightarrow> obj set \<times> nat" where
  "mem s = (dom (elms s), next_xfer s)"

lemma mem_upd [simp]:
  "mem (s\<lparr>hdrs := D\<rparr>) = mem s" "mem (s\<lparr>dev := d\<rparr>) = mem s" "mem (s\<lparr>klog := lg\<rparr>) = mem s"
  "mem (s\<lparr>chunk_buf_list := B\<rparr>) = mem s" "mem (s\<lparr>xmem := M\<rparr>) = mem s" "mem (s\<lparr>run_stat := r\<rparr>) = mem s"
  "mem (s\<lparr>chunk_sz := z\<rparr>) = mem s" "mem (s\<lparr>drop_cnt := c\<rparr>) = mem s" "mem (s\<lparr>smpl_ts := ts\<rparr>) = mem s"
  "mem (s\<lparr>irq_registered := b\<rparr>) = mem s" "mem (s\<lparr>open_cnt := n\<rparr>) = mem s" "mem (log_ev e s) = mem s"
  by (simp_all add: mem_def)

named_theorems mem_dest "an operation that returned kept the unmanaged memory"

section \<open>Lists\<close>

lemma upd_elm_mem [mem_dest]: "upd_elm a f s = Some t \<Longrightarrow> mem t = mem s" for s :: "'d drv"
  by (auto simp: upd_elm_def mem_def split: option.splits if_splits)

lemma upd_hdr_mem [mem_dest]: "upd_hdr l f s = Some t \<Longrightarrow> mem t = mem s" for s :: "'d drv"
  by (auto simp: upd_hdr_def mem_def split: option.splits)

lemmas mem_split = Option.bind_eq_Some_conv Let_def kcall_def

lemma list_append_mem [mem_dest]: "list_append l a s = Some t \<Longrightarrow> mem t = mem s" for s :: "'d drv"
  by (auto simp: list_append_def mem_split dest!: mem_dest split: option.splits if_splits)

lemma list_fetch_mem [mem_dest]: "list_fetch l s = Some (r, t) \<Longrightarrow> mem t = mem s" for s :: "'d drv"
  by (auto simp: list_fetch_def mem_split dest!: mem_dest split: option.splits)

lemma cleanup_loop_mem:
  fixes s :: "'d drv"
  assumes "cleanup_loop l f s = Some t" and f: "\<And>a s t. f a s = Some t \<Longrightarrow> mem t = mem s"
  shows "mem t = mem s"
proof -
  have "(\<forall>a s t. f a s = Some t \<longrightarrow> mem t = mem s) \<longrightarrow> mem t = mem s"
    by (rule cleanup_loop.raw_induct [OF _ assms(1), where P = "\<lambda>l f s t. (\<forall>a s t. f a s = Some t \<longrightarrow> mem t = mem s) \<longrightarrow> mem t = mem s"])
      (auto dest!: list_fetch_mem split: option.splits; fastforce)
  with f show ?thesis by blast
qed

lemma list_cleanup_mem:
  fixes s :: "'d drv"
  assumes "list_cleanup l (Some f) s = Some t" and "\<And>a s t. f a s = Some t \<Longrightarrow> mem t = mem s"
  shows "mem t = mem s"
  using assms by (auto simp: list_cleanup_def split: option.splits dest: cleanup_loop_mem)

section \<open>Buffers and the bus\<close>

lemma upd_buf_mem [mem_dest]: "upd_buf b f s = Some t \<Longrightarrow> mem t = mem s"
  by (auto simp: upd_buf_def split: option.splits if_splits)

lemma upd_xmem_mem [mem_dest]: "upd_xmem x f s = Some t \<Longrightarrow> mem t = mem s"
  by (auto simp: upd_xmem_def split: option.splits)

lemma upd_smpl_mem [mem_dest]: "upd_smpl p f s = Some t \<Longrightarrow> mem t = mem s"
  by (auto simp: upd_smpl_def mem_split dest!: mem_dest split: prod.splits if_splits)

lemma spi_sync_mem [simp]: "mem (snd (snd (spi_sync K tx s))) = mem s"
  by (simp add: spi_sync_def split: prod.splits)

lemma spi_sync_memD [mem_dest]: "spi_sync K tx s = (ret, rx, t) \<Longrightarrow> mem t = mem s"
  using spi_sync_mem [of K tx s] by simp

lemma iface_wakeup_mem [mem_dest]: "ads131m08_iface_wakeup s = Some t \<Longrightarrow> mem t = mem s"
  by (auto simp: ads131m08_iface_wakeup_def split: if_splits)

lemma data_return_mem [mem_dest]: "ads131m08_data_return data s = Some t \<Longrightarrow> mem t = mem s"
  by (auto simp: ads131m08_data_return_def mem_split dest!: mem_dest split: option.splits)

lemma data_cleanup_mem [mem_dest]: "ads131m08_data_cleanup s = Some t \<Longrightarrow> mem t = mem s"
  by (auto simp: ads131m08_data_cleanup_def mem_split dest!: list_cleanup_mem dest: data_return_mem split: if_splits)

lemma adc_trx_mem [mem_dest]:
  assumes "adc_trx K cmd tx tc rx rc conv s = Some (ret, st, r, t)"
  shows "mem t = mem s"
  using assms unfolding adc_trx_def Let_def get_xfer_buf_def return_xfer_buf_def
  by (auto elim!: bind_SomeE dest!: mem_dest split: if_split_asm option.split_asm prod.split_asm)

lemma read_stat_mem [mem_dest]: "read_stat K s = Some (ret, st, t) \<Longrightarrow> mem t = mem s"
  by (auto simp: read_stat_def elim!: bind_SomeE dest!: mem_dest split: prod.split_asm)

lemma reg_read_mem: "ads131m08_reg_read K a n r s = Some (ret, r', t) \<Longrightarrow> mem t = mem s"
  by (auto simp: ads131m08_reg_read_def elim!: bind_SomeE dest!: mem_dest split: prod.split_asm if_split_asm)

lemma reg_write_mem: "ads131m08_reg_write K a n r s = Some (ret, r', t) \<Longrightarrow> mem t = mem s"
  by (auto simp: ads131m08_reg_write_def elim!: bind_SomeE dest!: mem_dest split: prod.split_asm if_split_asm)

lemma cmd_strobe_mem [mem_dest]: "cmd_strobe K cmd ws n us s = Some (ret, t) \<Longrightarrow> mem t = mem s"
  by (auto simp: cmd_strobe_def elim!: bind_SomeE dest!: mem_dest split: prod.split_asm if_split_asm)

lemma dev_cmds_mem [mem_dest]:
  "ads131m08_cmd_standby K s = Some (ret, t) \<Longrightarrow> mem t = mem s"
  "ads131m08_cmd_wakeup K s = Some (ret, t) \<Longrightarrow> mem t = mem s"
  "ads131m08_cmd_lock K s = Some (ret, t) \<Longrightarrow> mem t = mem s"
  "ads131m08_cmd_unlock K s = Some (ret, t) \<Longrightarrow> mem t = mem s"
  by (simp_all add: ads131m08_cmd_standby_def ads131m08_cmd_wakeup_def ads131m08_cmd_lock_def
      ads131m08_cmd_unlock_def cmd_strobe_mem)

lemma cmd_reset_mem [mem_dest]: "cmd_reset K s = Some (ret, t) \<Longrightarrow> mem t = mem s"
  by (auto simp: cmd_reset_def ads131m08_cmd_reset_def elim!: bind_SomeE dest!: mem_dest
      split: prod.split_asm if_split_asm)

section \<open>Acquisition\<close>

lemma chunk_moves_mem [mem_dest]:
  "ads131m08_chunk_buf_ready b s = Some t \<Longrightarrow> mem t = mem s"
  "ads131m08_chunk_buf_active b s = Some t \<Longrightarrow> mem t = mem s"
  by (auto simp: chunk_buf_ready_eq ads131m08_chunk_buf_active_def elim!: bind_SomeE dest!: mem_dest)

lemma xfer_complete_mem [mem_dest]: "xfer_complete b s = Some t \<Longrightarrow> mem t = mem s"
  unfolding xfer_complete_def return_xfer_buf_def
  by (auto elim!: bind_SomeE dest!: mem_dest split: prod.split_asm option.split_asm if_split_asm)

lemma read_data_mem [mem_dest]: "ads131m08_read_data K b s = Some (ret, t) \<Longrightarrow> mem t = mem s"
  unfolding ads131m08_read_data_def get_xfer_buf_def return_xfer_buf_def Let_def
  by (auto elim!: bind_SomeE dest!: mem_dest split: prod.split_asm option.split_asm if_split_asm)

lemma read_discard_mem [mem_dest]: "ads131m08_read_data_discard K s = (ret, t) \<Longrightarrow> mem t = mem s"
  by (auto simp: ads131m08_read_data_discard_def dest!: mem_dest split: prod.split_asm if_split_asm)

lemma irq_thread_mem [mem_dest]: "ads131m08_irq_thread K s = Some t \<Longrightarrow> mem t = mem s"
  unfolding ads131m08_irq_thread_def Let_def
  by (auto elim!: bind_SomeE dest!: mem_dest split: prod.split_asm option.split_asm if_split_asm)

lemma isr_mem [simp]: "mem (ads131m08_isr K s) = mem s"
  by (simp add: ads131m08_isr_def kcall_def split: prod.splits)

lemma set_irq_mem [mem_dest]: "ads131m08_gpio_set_irq K s = (ret, t) \<Longrightarrow> mem t = mem s"
  by (auto simp: ads131m08_gpio_set_irq_def kcall_def split: prod.split_asm if_split_asm)

lemma clr_irq_mem [simp]: "mem (ads131m08_gpio_clr_irq s) = mem s"
  by (simp add: ads131m08_gpio_clr_irq_def)

lemma run_cmd_mem [mem_dest]: "ads131m08_run_cmd K run s = Some (ret, t) \<Longrightarrow> mem t = mem s"
  unfolding ads131m08_run_cmd_def Let_def
  by (auto elim!: bind_SomeE dest!: mem_dest split: prod.split_asm if_split_asm)

section \<open>System calls\<close>

lemma open_mem [simp]: "mem (snd (ads131m08_open s)) = mem s"
  by (simp add: ads131m08_open_def)

lemma release_mem [mem_dest]: "ads131m08_release K s = Some (ret, t) \<Longrightarrow> mem t = mem s"
  by (auto simp: ads131m08_release_def elim!: bind_SomeE dest!: mem_dest)

lemma data_get_mem [mem_dest]: "ads131m08_data_get s = Some (r, t) \<Longrightarrow> mem t = mem s"
  by (auto simp: ads131m08_data_get_def dest!: mem_dest)

lemma read_copy_mem [mem_dest]: "read_copy K n ob s = Some (ret, t) \<Longrightarrow> mem t = mem s"
  unfolding read_copy_def Let_def kcall_def
  by (auto elim!: bind_SomeE dest!: mem_dest split: prod.split_asm if_split_asm)

lemma for_each_mem:
  assumes "for_each f xs s = Some t" and f: "\<And>x s t. f x s = Some t \<Longrightarrow> mem t = mem s"
  shows "mem t = mem s"
  using assms(1)
proof (induction xs arbitrary: s)
  case (Cons x xs)
  then obtain u where "f x s = Some u" "for_each f xs u = Some t" by (auto elim: bind_SomeE)
  with Cons.IH [of u] f [of x s u] show ?case by simp
qed simp

lemma resize_mem [mem_dest]: "ads131m08_data_resize_chunk_buf z s = Some t \<Longrightarrow> mem t = mem s"
  unfolding ads131m08_data_resize_chunk_buf_def Let_def
  by (auto elim!: bind_SomeE dest!: for_each_mem dest: upd_buf_mem split: if_split_asm)

lemma ioctl_chunk_sz_mem [mem_dest]: "ioctl_chunk_sz z s = Some (ret, t) \<Longrightarrow> mem t = mem s"
  by (auto simp: ioctl_chunk_sz_def elim!: bind_SomeE dest!: mem_dest split: if_split_asm)

lemma cmd_stat_mem [mem_dest]: "cmd_stat K a s = Some (ret, t) \<Longrightarrow> mem t = mem s"
  by (auto simp: cmd_stat_def Let_def dest!: mem_dest split: if_split_asm)

lemma ioctl_reg_mem:
  assumes "ioctl_reg K a rd f s = Some (ret, t)"
    and f: "\<And>a n r s ret r' t. f a n r s = Some (ret, r', t) \<Longrightarrow> mem t = mem s"
  shows "mem t = mem s"
  using assms(1) unfolding ioctl_reg_def ioctl_reg_call_def Let_def kcall_def
  by (auto elim!: bind_SomeE dest!: f split: prod.split_asm option.split_asm if_split_asm)

lemma ioctl_mem [mem_dest]: "ads131m08_ioctl K cmd a s = Some (ret, t) \<Longrightarrow> mem t = mem s"
  unfolding ads131m08_ioctl_def ioctl_rreg_def ioctl_wreg_def
  by (auto dest!: mem_dest dest: ioctl_reg_mem [OF _ reg_read_mem] ioctl_reg_mem [OF _ reg_write_mem]
      split: if_split_asm ioctl_nr.split_asm)

section \<open>The whole driver\<close>

lemma step_mem: "step K w w' \<Longrightarrow> mem (drv w') = mem (drv w)"
  by (induction rule: step.induct) (auto simp: after_cmd_def dest!: mem_dest)

lemma run_mem:
  assumes "(\<lambda>w w'. kernel K \<and> step K w w')\<^sup>*\<^sup>* w w'"
  shows "mem (drv w') = mem (drv w)"
  using assms by (induction rule: rtranclp_induct) (auto dest: step_mem)

end
