(* ===== verification/Rebind.thy ===== *)
theory Rebind
  imports Footprint
begin

text \<open>
  Binding the driver to its device and unbinding it again: what one session leaves behind, any
  number of sessions in a row, and a device file that outlives its session.
\<close>

section \<open>The tables the kernel calls through\<close>

text \<open>The SPI core binds the driver to a device whose device-tree \<open>compatible\<close> string is in the
  match table, or whose name is in the id table; the matching is the core's. The empty entries that
  end the C arrays are left out, and so is \<open>THIS_MODULE\<close>, the owner of the file operations.\<close>

definition DRIVER_NAME :: string where "DRIVER_NAME = ''spi-ads131m08''"

definition ads131m08_of_match :: "string list" where "ads131m08_of_match = [''ti,ads131m08'']"

definition ads131m08_id :: "(string \<times> nat) list" where "ads131m08_id = [(''ads131m08'', 0)]"

record 'd spi_driver =
  sd_name :: string
  sd_of_match_table :: "string list"
  sd_id_table :: "(string \<times> nat) list"
  sd_probe :: "'d drv \<Rightarrow> (int \<times> 'd drv) option"
  sd_remove :: "'d drv \<Rightarrow> 'd drv option"

definition ads131m08_driver :: "'d kenv \<Rightarrow> 'd spi_driver" where
  "ads131m08_driver K = \<lparr>sd_name = DRIVER_NAME, sd_of_match_table = ads131m08_of_match,
     sd_id_table = ads131m08_id, sd_probe = ads131m08_probe K, sd_remove = ads131m08_remove K\<rparr>"

record 'd file_operations =
  fo_open :: "'d drv \<Rightarrow> int \<times> 'd drv"
  fo_release :: "'d drv \<Rightarrow> (int \<times> 'd drv) option"
  fo_read :: "(('d drv \<Rightarrow> bool \<times> 'd drv) \<times> ('d drv \<Rightarrow> 'd drv)) list \<Rightarrow> nat \<Rightarrow> 'd drv \<Rightarrow> (read_out \<times> 'd drv) option"
  fo_write :: "'d drv \<Rightarrow> int \<times> 'd drv"
  fo_poll :: "'d drv \<Rightarrow> (32 word) option"
  fo_unlocked_ioctl :: "ioctl_nr \<Rightarrow> u64 \<Rightarrow> 'd drv \<Rightarrow> (int \<times> 'd drv) option"

definition ads131m08_fops :: "'d kenv \<Rightarrow> 'd file_operations" where
  "ads131m08_fops K = \<lparr>fo_open = ads131m08_open, fo_release = ads131m08_release K, fo_read = ads131m08_read K,
     fo_write = ads131m08_write, fo_poll = ads131m08_poll, fo_unlocked_ioctl = ads131m08_ioctl K\<rparr>"

lemma tables [simp]:
  "sd_probe (ads131m08_driver K) = ads131m08_probe K" "sd_remove (ads131m08_driver K) = ads131m08_remove K"
  "fo_open (ads131m08_fops K) = ads131m08_open" "fo_release (ads131m08_fops K) = ads131m08_release K"
  "fo_read (ads131m08_fops K) = ads131m08_read K" "fo_write (ads131m08_fops K) = ads131m08_write"
  "fo_poll (ads131m08_fops K) = ads131m08_poll" "fo_unlocked_ioctl (ads131m08_fops K) = ads131m08_ioctl K"
  by (simp_all add: ads131m08_driver_def ads131m08_fops_def)

section \<open>Between remove and the next probe\<close>

text \<open>After \<open>remove\<close> the driver core releases what was allocated with \<open>devm_kzalloc\<close>: the driver
  data, the array of chunk buffers and the list headers. Memory from \<open>kzalloc\<close> stays, and the
  static variables of the module keep their values, among them pointers into released memory.\<close>

definition devres_released :: "'d drv \<Rightarrow> 'd drv \<Rightarrow> bool" where
  "devres_released s t \<longleftrightarrow> hdrs t = (\<lambda>_. None) \<and> chunk_buf_list t = None \<and> (\<forall>b. elms t (Chunk b) = None) \<and>
     (\<forall>x. elms t (Xfer x) = elms s (Xfer x)) \<and> xmem t = xmem s \<and> next_xfer t = next_xfer s \<and>
     ads131m08_data t = ads131m08_data s \<and> ready_list t = ready_list s \<and> active_list t = active_list s \<and>
     free_list t = free_list s \<and> xfer_list t = xfer_list s \<and> run_stat t = run_stat s \<and> chunk_sz t = chunk_sz s \<and>
     spi_hdlr t = spi_hdlr s \<and> irq_registered t = irq_registered s \<and> open_cnt t = open_cnt s"

text \<open>A state in which no list exists: before the first probe, and after each session.\<close>

definition unbound :: "'d drv \<Rightarrow> bool" where
  "unbound s \<longleftrightarrow> heap_rep s (\<lambda>_. None) \<and> fresh_xfers s"

definition xfers :: "'d drv \<Rightarrow> nat set" where
  "xfers s = {x. Xfer x \<in> dom (elms s)}"

lemma mem_xfers: "mem t = mem s \<Longrightarrow> xfers t = xfers s \<and> next_xfer t = next_xfer s"
  by (simp add: mem_def xfers_def)

lemma fresh_xfers_iff: "fresh_xfers s \<longleftrightarrow> (\<forall>x \<in> xfers s. x < next_xfer s)"
  by (auto simp: fresh_xfers_def xfers_def not_le [symmetric])

section \<open>What probe allocates\<close>

lemma gpio_init_mem [mem_dest]: "ads131m08_gpio_init K s = (ret, t) \<Longrightarrow> mem t = mem s"
  by (auto simp: ads131m08_gpio_init_def kcall_def Let_def mem_def split: prod.split_asm if_split_asm)

lemma iface_init_mem [mem_dest]:
  assumes "ads131m08_iface_init K s = (ret, t)"
  shows "mem t = mem s"
proof -
  have "iface_only s t" using iface_init_ok [of K s] assms by auto
  then show ?thesis by (auto simp: iface_only_def mem_def)
qed

lemma adc_rst_mem [simp]: "mem (ads131m08_adc_rst s) = mem s"
  by (simp add: ads131m08_adc_rst_def)

lemma err_ret:
  "err_spi ret s = Some (r, t) \<Longrightarrow> r = ret" "err_gpio ret s = Some (r, t) \<Longrightarrow> r = ret"
  "err_iface ret s = Some (r, t) \<Longrightarrow> r = ret"
  by (auto simp: err_spi_def err_gpio_def err_iface_def elim!: bind_SomeE)

lemma probe_tail_mem: "probe_tail K s = Some (SUCCESS, t) \<Longrightarrow> mem t = mem s"
  unfolding probe_tail_def
  by (auto simp: SUCCESS_def elim!: bind_SomeE dest!: mem_dest dest: err_ret split: prod.split_asm if_split_asm)

lemma probe_mem:
  assumes U: "unbound s" and p: "ads131m08_probe K s = Some (SUCCESS, t)"
  shows "xfers t = xfers s \<union> {next_xfer s..<next_xfer s + XFER_BUF_NUM} \<and> next_xfer t = next_xfer s + XFER_BUF_NUM"
proof -
  have R: "heap_rep s (\<lambda>_. None)" and fr: "fresh_xfers s" using U by (simp_all add: unbound_def)
  obtain oks d where al: "data_allocs K (dev s) = (oks, d)" by (cases "data_allocs K (dev s)")
  have len: "length oks = 5" using al by (auto simp: data_allocs_def split: prod.splits)
  have ok: "False \<notin> set oks"
    using data_init_fail [OF al] p by (auto simp: probe_unfold ENOMEM_def SUCCESS_def)
  have "oks = replicate 5 True" using len ok by (intro replicate_eqI) (auto intro: ccontr)
  with al have al5: "data_allocs K (dev s) = (replicate 5 True, d)" by simp
  from data_init_ok [OF R al5] obtain s1 where s1: "ads131m08_data_init K s = Some (SUCCESS, s1)"
    "data_inv s1 [] [] [0..<CHUNK_BUF_CNT] [] None (replicate CHUNK_BUF_CNT fresh_chunk_buf)"
    "dev s1 = d" "next_xfer s1 = next_xfer s" "\<And>x. Xfer x \<in> dom (elms s1) \<longleftrightarrow> Xfer x \<in> dom (elms s)" by blast
  obtain sr d2 where ss: "spi_mode_setup K d = (sr, d2)" by (cases "spi_mode_setup K d")
  let ?s2 = "s1\<lparr>dev := d2\<rparr>"
  obtain b d3 where dm: "devm_kzalloc K d2 = (b, d3)" by (cases "devm_kzalloc K d2")
  obtain j d4 where kz: "kz_ok K XFER_BUF_NUM d3 = (j, d4)" by (cases "kz_ok K XFER_BUF_NUM d3")
  have x2: "xfers ?s2 = xfers s" "next_xfer ?s2 = next_xfer s" using s1(4,5) by (simp_all add: xfers_def)
  have D2: "data_inv ?s2 [] [] [0..<CHUNK_BUF_CNT] [] None (replicate CHUNK_BUF_CNT fresh_chunk_buf)"
    using s1(2) by (simp add: data_inv_def)
  have fr2: "fresh_xfers ?s2" using fr unfolding fresh_xfers_iff x2 .
  obtain r3 s3 where i: "ads131m08_spi_init K ?s2 = Some (r3, s3)" "0 \<le> r3" and t: "probe_tail K s3 = Some (SUCCESS, t)"
    using p s1(1,3) ss by (auto simp: probe_unfold kcall_def SUCCESS_def elim!: bind_SomeE split: if_splits)
  have b: b using i dm new_list_fail [of K ?s2 d3 XferL] by (cases b) (auto simp: ads131m08_spi_init_def xfer_buf_init_def ENOMEM_def)
  with dm have dm2: "devm_kzalloc K (dev ?s2) = (True, d3)" by simp
  from spi_init_ok [OF D2 fr2 dm2 kz] i have j: "j = XFER_BUF_NUM"
    and e: "dom (elms s3) = dom (elms ?s2) \<union> Xfer ` set [next_xfer ?s2..<next_xfer ?s2 + j]"
      "next_xfer s3 = next_xfer ?s2 + j"
    by (auto simp: ENOMEM_def split: if_splits)
  have "xfers s3 = xfers ?s2 \<union> {next_xfer ?s2..<next_xfer ?s2 + j}" unfolding xfers_def e(1) by auto
  with mem_xfers [OF probe_tail_mem [OF t]] e(2) j x2 show ?thesis by simp
qed

section \<open>One session\<close>

text \<open>A session: a successful probe, then any run of the driver (interrupts, opens, releases, ioctls,
  readers), then remove and the release of the managed memory.\<close>

definition bound_session :: "'d kenv \<Rightarrow> 'd drv \<Rightarrow> 'd drv \<Rightarrow> bool" where
  "bound_session K s u \<longleftrightarrow> (\<exists>w0 w t. sd_probe (ads131m08_driver K) s = Some (SUCCESS, drv w0) \<and>
     held w0 = [] \<and> sent w0 = [] \<and> gone w0 = [] \<and> (\<lambda>w w'. kernel K \<and> step K w w')\<^sup>*\<^sup>* w0 w \<and>
     sd_remove (ads131m08_driver K) (drv w) = Some t \<and> devres_released t u)"

lemma released_rep:
  assumes D: "data_inv t R A F H (Some []) bs" and u: "devres_released t u"
  shows "heap_rep u (\<lambda>_. None)"
proof -
  have "e_parent e = None" if "elms u (Xfer x) = Some e" for x e
  proof (rule ccontr)
    assume "e_parent e \<noteq> None"
    then obtain l where l: "e_parent e = Some l" by blast
    have "elms t (Xfer x) = Some e" using that u by (simp add: devres_released_def)
    with D l obtain xs where "drv_lists R A F (Some []) l = Some xs" "Xfer x \<in> set xs"
      unfolding data_inv_def rep_def by blast
    then show False by (cases l) auto
  qed
  moreover have "elms u (Chunk b) = None" for b using u by (simp add: devres_released_def)
  ultimately have "e_parent e \<noteq> Some l" if "elms u a = Some e" for a e l using that by (cases a) auto
  with u show ?thesis by (auto simp: rep_def devres_released_def)
qed

lemma remove_released:
  assumes I: "sys_inv s R A F H X bs" and u: "\<exists>t. ads131m08_remove K s = Some t \<and> devres_released t u"
  shows "heap_rep u (\<lambda>_. None) \<and> xfers u = xfers s - set X \<and> next_xfer u = next_xfer s"
proof -
  obtain ret rxd d where io: "spi_sync_transfer K (dev s) (trx_frame CMD_STANDBY [] 1) = (ret, rxd, d)"
    by (cases "spi_sync_transfer K (dev s) (trx_frame CMD_STANDBY [] 1)")
  from remove_ok [OF I io] u obtain t R' A' F' bs' where t: "devres_released t u"
    "data_inv t R' A' F' H (Some []) bs'" "dom (elms t) = dom (elms s) - Xfer ` set X" "next_xfer t = next_xfer s"
    by auto
  have "xfers u = xfers t" using t(1) by (auto simp: xfers_def devres_released_def)
  moreover have "xfers t = xfers s - set X" unfolding xfers_def t(3) by auto
  ultimately show ?thesis using released_rep [OF t(2,1)] t(1,4) by (simp add: devres_released_def)
qed

lemma session_clean:
  assumes U: "unbound s" and K: "kernel K" and ses: "bound_session K s u"
  shows "unbound u \<and> xfers u = xfers s"
proof -
  from ses obtain w0 w where p: "ads131m08_probe K s = Some (SUCCESS, drv w0)"
    and w0: "held w0 = []" "sent w0 = []" "gone w0 = []"
    and run: "(\<lambda>w w'. kernel K \<and> step K w w')\<^sup>*\<^sup>* w0 w"
    and u: "\<exists>t. ads131m08_remove K (drv w) = Some t \<and> devres_released t u"
    unfolding bound_session_def tables by blast
  let ?n = "next_xfer s" let ?N = "{?n..<?n + XFER_BUF_NUM}"
  have R: "heap_rep s (\<lambda>_. None)" "fresh_xfers s" using U by (simp_all add: unbound_def)
  have "world_on (mset [?n..<?n + XFER_BUF_NUM]) w0"
    using probed_world [OF R p w0] K by (simp add: kernel_def)
  with pool.reach_inv [of K "mset [?n..<?n + XFER_BUF_NUM]" w0 w] run K
  have "world_on (mset [?n..<?n + XFER_BUF_NUM]) w" by simp
  then obtain R' A F X bs where I: "sys_inv (drv w) R' A F (held w) X bs"
    and X: "mset X = mset [?n..<?n + XFER_BUF_NUM]" unfolding world_on_def by blast
  from remove_released [OF I u] have r: "heap_rep u (\<lambda>_. None)" "xfers u = xfers (drv w) - set X"
    "next_xfer u = next_xfer (drv w)" by simp_all
  have x: "xfers (drv w) = xfers s \<union> ?N" "next_xfer (drv w) = ?n + XFER_BUF_NUM"
    using mem_xfers [OF run_mem [OF run]] probe_mem [OF U p] by simp_all
  have "xfers s \<inter> ?N = {}" using R(2) by (auto simp: fresh_xfers_iff)
  then have "xfers u = xfers s" using r(2) x(1) mset_eq_setD [OF X] by auto
  moreover from this have "fresh_xfers u" using R(2) r(3) x(2) unfolding fresh_xfers_iff by force
  ultimately show ?thesis using r(1) by (simp add: unbound_def)
qed

text \<open>The contract of Inv_System once more, with whole sessions as the steps.\<close>

interpretation ses: inv_system "\<lambda>s. unbound s \<and> xfers s = M" "\<lambda>s u. \<exists>K. kernel K \<and> bound_session K s u"
    "\<lambda>s. unbound s \<and> xfers s = M" for M
  by unfold_locales (use session_clean in blast)+

text \<open>C9: binding and unbinding any number of times. A session is a successful probe, any run of
  interrupts, opens, releases, ioctls and readers, remove, and the release of the managed memory;
  after any number of sessions, each with its own kernel and device behaviour, no list is left, the
  transfer buffers still allocated are those of the start, so a session leaks none and frees none
  it did not allocate, and probe succeeds again with a kernel that grants every request.\<close>

theorem rebind_clean:
  assumes "unbound s" "(\<lambda>s u. \<exists>K. kernel K \<and> bound_session K s u)\<^sup>*\<^sup>* s u"
  shows "unbound u \<and> xfers u = xfers s \<and>
    (\<forall>K. willing K \<longrightarrow> (\<exists>t. sd_probe (ads131m08_driver K) u = Some (SUCCESS, t) \<and>
       xfers t = xfers s \<union> {next_xfer u..<next_xfer u + XFER_BUF_NUM}))"
proof -
  have U: "unbound u" "xfers u = xfers s" using ses.reach_inv [OF _ assms(2), of "xfers s"] assms(1) by simp_all
  then have R: "heap_rep u (\<lambda>_. None)" "fresh_xfers u" by (simp_all add: unbound_def)
  have "\<exists>t. ads131m08_probe K u = Some (SUCCESS, t) \<and> xfers t = xfers s \<union> {next_xfer u..<next_xfer u + XFER_BUF_NUM}"
    if K: "willing K" for K
  proof -
    from probe_willing [OF K R] obtain t where "ads131m08_probe K u = Some (SUCCESS, t)" by blast
    with probe_mem [OF U(1), of K t] U(2) show ?thesis by blast
  qed
  with U show ?thesis by simp
qed

text \<open>What the release does to a state, as a function.\<close>

definition release_managed :: "'d drv \<Rightarrow> 'd drv" where
  "release_managed s = s\<lparr>elms := (\<lambda>a. case a of Chunk b \<Rightarrow> None | Xfer x \<Rightarrow> elms s a), hdrs := (\<lambda>_. None),
     chunk_buf_list := None\<rparr>"

lemma release_managed_ok: "devres_released s (release_managed s)"
  by (simp add: devres_released_def release_managed_def)

lemma k0_bound: "\<exists>s u. unbound s \<and> bound_session k0 s u"
proof -
  obtain w0 w F X bs where w: "started k0 w0" "(\<lambda>w w'. kernel k0 \<and> step k0 w w')\<^sup>*\<^sup>* w0 w"
    "sys_inv (drv w) [] [0] F [] X bs" using k0_run by metis
  from w(1) obtain s where s: "unbound s" "ads131m08_probe k0 s = Some (SUCCESS, drv w0)"
    "held w0 = []" "sent w0 = []" "gone w0 = []" by (auto simp: started_def unbound_def)
  from remove_ok [OF w(3) k0_spi] obtain t where "ads131m08_remove k0 (drv w) = Some t" by blast
  with s w(2) release_managed_ok [of t] show ?thesis unfolding bound_session_def tables by blast
qed

theorem rebind_clean_witness:
  "\<exists>(s :: unit drv) u t. bound_session k0 s u \<and> xfers u = xfers s \<and> ads131m08_probe k0 u = Some (SUCCESS, t)"
proof -
  obtain s u where su: "unbound s" "bound_session k0 s u" using k0_bound by blast
  then have "(\<lambda>s u. \<exists>K. kernel K \<and> bound_session K s u)\<^sup>*\<^sup>* s u" using k0_kernel by blast
  from rebind_clean [OF su(1) this, unfolded tables] k0_willing su(2) show ?thesis by blast
qed

section \<open>A file that outlives its session\<close>

text \<open>The static pointers still name the released lists and buffers.\<close>

lemma dangling:
  assumes I: "sys_inv s R A F H X bs" and r: "ads131m08_remove K s = Some t" and u: "devres_released t u"
  shows "ads131m08_data u" "ready_list u = Some ReadyL" "run_stat u = ADC_STOP" "\<not> spi_hdlr u"
    "hdrs u ReadyL = None" "chunk_buf_list u = None"
proof -
  obtain ret rxd d where io: "spi_sync_transfer K (dev s) (trx_frame CMD_STANDBY [] 1) = (ret, rxd, d)"
    by (cases "spi_sync_transfer K (dev s) (trx_frame CMD_STANDBY [] 1)")
  from remove_ok [OF I io] r have "run_stat t = ADC_STOP" "\<not> spi_hdlr t"
    "\<exists>R A F bs. data_inv t R A F H (Some []) bs" by auto
  with u show "ads131m08_data u" "ready_list u = Some ReadyL" "run_stat u = ADC_STOP" "\<not> spi_hdlr u"
    "hdrs u ReadyL = None" "chunk_buf_list u = None"
    by (auto simp: devres_released_def data_inv_def)
qed

text \<open>C15: a use after free. Remove does not end open files, and the release of the managed memory
  does not wait for them. On a file opened before, read, poll, the WAKEUP ioctl and a CHUNK_SZ
  ioctl with a positive size then go through the released list headers or buffers, and so does a
  read that had fetched a chunk and now copies it; closing the file and STANDBY do not, and RESET
  fails with -ENODEV.\<close>

theorem stale_file_faults:
  assumes I: "sys_inv s R A F H X bs" and r: "sd_remove (ads131m08_driver K) s = Some t" and u: "devres_released t u"
    and w: "w u = (sig, u)" and cnt: "SMPL_SIZE \<le> cnt" and sz: "0 < c_int_of_ulong sz"
  shows "fo_read (ads131m08_fops K) ((w, v) # ws) cnt u = None \<and> read_copy K cnt (Chunk b) u = None \<and>
    fo_poll (ads131m08_fops K) u = None \<and>
    fo_unlocked_ioctl (ads131m08_fops K) CMD_WAKEUP_nr arg u = None \<and>
    fo_unlocked_ioctl (ads131m08_fops K) CMD_CHUNK_SZ_nr sz u = None \<and>
    fo_release (ads131m08_fops K) u = Some (0, u\<lparr>open_cnt := 0\<rparr>) \<and>
    fo_unlocked_ioctl (ads131m08_fops K) CMD_STANDBY_nr arg u = Some (SUCCESS, u) \<and>
    fo_unlocked_ioctl (ads131m08_fops K) CMD_RESET_nr arg u = Some (- ENODEV, u)"
proof -
  note d = dangling [OF I r [unfolded tables] u]
  have ne: "ADC_STOP \<noteq> ADC_RUN" "ADC_RUN \<noteq> 0" "ADC_STOP = 0" by (simp_all add: ADC_STOP_def ADC_RUN_def)
  have c: "ads131m08_data_smpl_cnt fc ac u = None" for fc ac
    using d by (cases "map_option Some (list_get_cnt (free_list u) u)"; cases "map_option Some (list_get_cnt (active_list u) u)")
      (simp_all add: ads131m08_data_smpl_cnt_def list_get_cnt_def)
  have f: "list_fetch (Some ReadyL) u = None" using d by (simp add: list_fetch_def)
  have cl: "ads131m08_data_cleanup u = None"
    using d f by (simp add: ads131m08_data_cleanup_def list_cleanup_def cleanup_loop.simps)
  have "sz \<noteq> 0" using sz by (auto simp: c_int_of_ulong_def)
  then have z: "0 < sz" by (simp add: word_neq_0_conv)
  have up: "[0..<CHUNK_BUF_CNT] = 0 # [1..<CHUNK_BUF_CNT]" by (simp add: CHUNK_BUF_CNT_def upt_rec)
  have rs: "ads131m08_data_resize_chunk_buf (c_int_of_ulong sz) u = None"
    using sz d unfolding ads131m08_data_resize_chunk_buf_def up by (simp add: upd_buf_def Let_def)
  have "ads131m08_read K ((w, v) # ws) cnt u = None"
    using cnt w c by (simp add: ads131m08_read_def wait_cond_def)
  moreover have "read_copy K cnt (Chunk b) u = None" using d by (simp add: read_copy_def get_buf_def)
  moreover have "ads131m08_poll u = None" by (simp add: ads131m08_poll_def c)
  moreover have "ads131m08_ioctl K CMD_WAKEUP_nr arg u = None"
    using d ne cl by (simp add: ads131m08_ioctl_def ads131m08_run_cmd_def ads131m08_run_stat_def)
  moreover have "ads131m08_ioctl K CMD_CHUNK_SZ_nr sz u = None"
    using d ne z rs by (simp add: ads131m08_ioctl_def ioctl_chunk_sz_def ads131m08_run_stat_def)
  moreover have "ads131m08_release K u = Some (0, u\<lparr>open_cnt := 0\<rparr>)"
    "ads131m08_ioctl K CMD_STANDBY_nr arg u = Some (SUCCESS, u)"
    using d ne by (simp_all add: ads131m08_release_def ads131m08_ioctl_def ads131m08_run_cmd_def ads131m08_run_stat_def)
  moreover have "ads131m08_ioctl K CMD_RESET_nr arg u = Some (- ENODEV, u)"
    using d ne by (simp add: ads131m08_ioctl_def cmd_reset_def ads131m08_cmd_reset_def cmd_strobe_def adc_trx_def
        ads131m08_run_stat_def ENODEV_def)
  ultimately show ?thesis by simp
qed

theorem stale_file_faults_witness:
  "\<exists>(s :: unit drv) t. run_stat s = ADC_RUN \<and> ads131m08_remove k0 s = Some t \<and>
     ads131m08_read k0 [(\<lambda>s. (False, s), \<lambda>s. s)] 4000 (release_managed t) = None \<and>
     ads131m08_poll (release_managed t) = None"
proof -
  obtain s :: "unit drv" and X bs where s: "sys_inv s [0] [] [1..<CHUNK_BUF_CNT] [] X bs" "run_stat s = ADC_RUN"
    using k0_ready by blast
  from remove_ok [OF s(1) k0_spi] obtain t where t: "sd_remove (ads131m08_driver k0) s = Some t" by auto
  have "SMPL_SIZE \<le> 4000" "0 < c_int_of_ulong 1" by (simp_all add: SMPL_SIZE_def c_int_of_ulong_def)
  from stale_file_faults [where w = "\<lambda>s. (False, s)" and v = "\<lambda>s. s" and ws = "[]", OF s(1) t release_managed_ok refl this]
  show ?thesis using s(2) t by auto
qed

end
