(* ===== verification/Append_Atomic.thy ===== *)
theory Append_Atomic
  imports Linked_List
begin

text \<open>
  Why \<open>list_append\<close> of \<open>src/list.c\<close> may be taken as one step although it writes two fields of the
  element before it takes the lock of the list: an element that is being appended belongs to the
  appending thread until it is linked, so what other threads do to the lists in between commutes
  with those writes. \<open>list_fetch\<close> and \<open>list_get_cnt\<close> do all their work under the lock.
\<close>

section \<open>The two parts of an append\<close>

definition append_prep :: "'l \<Rightarrow> 'a \<Rightarrow> ('l, 'a, 'z) lheap_scheme \<Rightarrow> ('l, 'a, 'z) lheap_scheme option" where
  "append_prep l a h = upd_elm a (\<lambda>e. e\<lparr>e_parent := Some l, e_next := None\<rparr>) h"

definition append_link :: "'l \<Rightarrow> 'a \<Rightarrow> ('l, 'a, 'z) lheap_scheme \<Rightarrow> ('l, 'a, 'z) lheap_scheme option" where
  "append_link l a h = do {
     d \<leftarrow> hdrs h l;
     h \<leftarrow> (if l_head d = None then do {
             h \<leftarrow> upd_elm a (\<lambda>e. e\<lparr>e_prev := None\<rparr>) h;
             upd_hdr l (\<lambda>d. d\<lparr>l_head := Some a, l_tail := Some a\<rparr>) h
           } else do {
             h \<leftarrow> upd_elm a (\<lambda>e. e\<lparr>e_prev := l_tail d\<rparr>) h;
             t \<leftarrow> l_tail d;
             h \<leftarrow> upd_elm t (\<lambda>e. e\<lparr>e_next := Some a\<rparr>) h;
             upd_hdr l (\<lambda>d. d\<lparr>l_tail := Some a\<rparr>) h
           });
     upd_hdr l (\<lambda>d. d\<lparr>l_count := int32 (l_count d + 1)\<rparr>) h }"

lemma append_parts: "list_append (Some l) (Some a) h = do { h \<leftarrow> append_prep l a h; append_link l a h }"
  by (simp add: list_append_def append_prep_def append_link_def)

section \<open>Elements in preparation\<close>

text \<open>\<open>prepared P h\<close>: the heap \<open>h\<close> after the first part of the appends \<open>P\<close>.\<close>

definition prepared :: "('a \<rightharpoonup> 'l) \<Rightarrow> ('l, 'a, 'z) lheap_scheme \<Rightarrow> ('l, 'a, 'z) lheap_scheme" where
  "prepared P h = h\<lparr>elms := (\<lambda>a. case P a of
     None \<Rightarrow> elms h a | Some l \<Rightarrow> map_option (\<lambda>e. e\<lparr>e_parent := Some l, e_next := None\<rparr>) (elms h a))\<rparr>"

lemma prepared_simps [simp]:
  "hdrs (prepared P h) = hdrs h" "P a = None \<Longrightarrow> elms (prepared P h) a = elms h a"
  "P a = Some l \<Longrightarrow> elms (prepared P h) a = map_option (\<lambda>e. e\<lparr>e_parent := Some l, e_next := None\<rparr>) (elms h a)"
  "prepared (\<lambda>_. None) h = h"
  by (simp_all add: prepared_def)

lemma prepared_hdr: "upd_hdr l f (prepared P h) = map_option (prepared P) (upd_hdr l f h)"
  by (cases h) (auto simp: upd_hdr_def prepared_def fun_eq_iff split: option.split)

lemma prepared_elm: "P a = None \<Longrightarrow> upd_elm a f (prepared P h) = map_option (prepared P) (upd_elm a f h)"
  by (cases h) (auto simp: upd_elm_def prepared_def fun_eq_iff split: option.split)

lemma prep_ok:
  assumes "elms h a = Some e" "P a = None"
  shows "append_prep l a (prepared P h) = Some (prepared (P(a \<mapsto> l)) h)"
  using assms by (cases h) (auto simp: append_prep_def upd_elm_def prepared_def fun_eq_iff)

text \<open>Linking one of them gives what the whole append gives, with the others still prepared.\<close>

lemma prepared_swap:
  assumes "P a = Some l" "elms h a = Some e"
  obtains h1 where "append_prep l a h = Some h1" "prepared P h = prepared (P(a := None)) h1" "hdrs h1 = hdrs h"
    "\<And>b. b \<noteq> a \<Longrightarrow> elms h1 b = elms h b"
proof -
  have "append_prep l a h = Some (prepared [a \<mapsto> l] h)"
    using prep_ok [where P = "\<lambda>_. None", OF assms(2)] by simp
  moreover have "prepared P h = prepared (P(a := None)) (prepared [a \<mapsto> l] h)"
    using assms by (cases h) (auto simp: prepared_def fun_eq_iff split: option.split)
  ultimately show thesis by (intro that [of "prepared [a \<mapsto> l] h"]) simp_all
qed

lemma link_ok:
  assumes R: "heap_rep h L" and l: "L l = Some xs" and a: "P a = Some l"
    and lo: "\<And>b. P b \<noteq> None \<Longrightarrow> loose (elms h) b"
  obtains g where "list_append (Some l) (Some a) h = Some g" "heap_rep g (L(l \<mapsto> xs @ [a]))"
    "append_link l a (prepared P h) = Some (prepared (P(a := None)) g)"
    "\<And>b. loose (elms g) b \<longleftrightarrow> loose (elms h) b \<and> b \<noteq> a"
proof -
  let ?P = "P(a := None)"
  have la: "loose (elms h) a" using lo a by simp
  then obtain e where "elms h a = Some e" by (auto simp: loose_def)
  from prepared_swap [where P = P, OF a this] obtain h1 where h1: "append_prep l a h = Some h1"
    "prepared P h = prepared ?P h1" "hdrs h1 = hdrs h" by blast
  from lq.append_law [OF R l la] obtain g where g: "list_append (Some l) (Some a) h = Some g"
    "heap_rep g (L(l \<mapsto> xs @ [a]))" "\<forall>b. loose (elms g) b \<longleftrightarrow> loose (elms h) b \<and> b \<noteq> a" by blast
  have k: "append_link l a h1 = Some g" using g(1) h1(1) by (simp add: append_parts)
  have d: "hdrs h l = Some \<lparr>l_count = int32 (int (length xs)), l_head = first_or xs None, l_tail = last_or None xs\<rparr>"
    by (rule rep_hdr [OF R l])
  have tl: "?P t = None" if "last_or None xs = Some t" for t
  proof (cases "P t")
    case (Some k)
    with loose_notin [OF R lo l, of t] that show ?thesis by (cases xs rule: rev_cases) auto
  qed simp
  note move = prepared_elm prepared_hdr bind_map_option map_option_bind comp_def
  have "append_link l a (prepared ?P h1) = map_option (prepared ?P) (append_link l a h1)"
  proof (cases xs rule: rev_cases)
    case Nil
    with d h1(3) show ?thesis by (simp add: append_link_def move)
  next
    case (snoc ys t)
    then have "?P t = None" using tl by simp
    with snoc d h1(3) show ?thesis by (simp add: append_link_def move)
  qed
  with k h1(2) have "append_link l a (prepared P h) = Some (prepared ?P g)" by simp
  with g show thesis by (intro that [of g]) auto
qed

text \<open>A fetch does not see them.\<close>

lemma fetch_ok:
  assumes R: "heap_rep h L" and l: "L l = Some xs" and lo: "\<And>b. P b \<noteq> None \<Longrightarrow> loose (elms h) b"
  shows "list_fetch (Some l) (prepared P h) = map_option (map_prod id (prepared P)) (list_fetch (Some l) h)"
proof -
  have d: "hdrs h l = Some \<lparr>l_count = int32 (int (length xs)), l_head = first_or xs None, l_tail = last_or None xs\<rparr>"
    by (rule rep_hdr [OF R l])
  have P: "P x = None" if "x \<in> set xs" for x
    using loose_notin [OF R lo l] that by (cases "P x") auto
  note move = prepared_elm prepared_hdr bind_map_option map_option_bind comp_def
  show ?thesis
  proof (cases xs)
    case Nil
    with d show ?thesis by (simp add: list_fetch_def)
  next
    case (Cons x ys)
    have "seg (elms h) l None (x # ys) None" using rep_seg [OF R l] Cons by simp
    then obtain e where e: "elms h x = Some e" "e_next e = first_or ys None" by auto
    have "P x = None" using P Cons by simp
    moreover have "P y = None" if "first_or ys None = Some y" for y
      using P Cons that by (cases ys) auto
    ultimately show ?thesis using d e Cons
      by (cases ys) (simp_all add: list_fetch_def move)
  qed
qed

section \<open>Interleavings\<close>

text \<open>Events of any number of threads: the two parts of an append, and fetches.\<close>

datatype ('l, 'a) list_ev = Prep 'l 'a | Link 'l 'a | Fetch 'l

fun evs_exec ::
  "('l, 'a) list_ev list \<Rightarrow> ('l, 'a, 'z) lheap_scheme \<Rightarrow> ('a option list \<times> ('l, 'a, 'z) lheap_scheme) option" where
  "evs_exec [] h = Some ([], h)"
| "evs_exec (Prep l a # evs) h = do { h \<leftarrow> append_prep l a h; evs_exec evs h }"
| "evs_exec (Link l a # evs) h = do { h \<leftarrow> append_link l a h; evs_exec evs h }"
| "evs_exec (Fetch l # evs) h = do {
     (r, h) \<leftarrow> list_fetch (Some l) h;
     (rs, h) \<leftarrow> evs_exec evs h;
     Some (r # rs, h) }"

text \<open>The same events with whole appends at the place of their second part.\<close>

fun atomic_exec ::
  "('l, 'a) list_ev list \<Rightarrow> ('l, 'a, 'z) lheap_scheme \<Rightarrow> ('a option list \<times> ('l, 'a, 'z) lheap_scheme) option" where
  "atomic_exec [] h = Some ([], h)"
| "atomic_exec (Prep l a # evs) h = atomic_exec evs h"
| "atomic_exec (Link l a # evs) h = do { h \<leftarrow> list_append (Some l) (Some a) h; atomic_exec evs h }"
| "atomic_exec (Fetch l # evs) h = do {
     (r, h) \<leftarrow> list_fetch (Some l) h;
     (rs, h) \<leftarrow> atomic_exec evs h;
     Some (r # rs, h) }"

text \<open>On sequences: \<open>L\<close> the lists, \<open>P\<close> the appends under way, \<open>F\<close> the elements in the hands of
  threads. A thread appends an element it holds, and finishes the append it began; each fetch
  hands its element to the caller.\<close>

fun evs_spec ::
  "('l, 'a) list_ev list \<Rightarrow> ('l \<Rightarrow> 'a list option) \<Rightarrow> ('a \<rightharpoonup> 'l) \<Rightarrow> 'a set
     \<Rightarrow> ('a option list \<times> ('l \<Rightarrow> 'a list option) \<times> ('a \<rightharpoonup> 'l)) option" where
  "evs_spec [] L P F = Some ([], L, P)"
| "evs_spec (Prep l a # evs) L P F = (if a \<in> F then evs_spec evs L (P(a \<mapsto> l)) (F - {a}) else None)"
| "evs_spec (Link l a # evs) L P F =
     (if P a = Some l then do { xs \<leftarrow> L l; evs_spec evs (L(l \<mapsto> xs @ [a])) (P(a := None)) F } else None)"
| "evs_spec (Fetch l # evs) L P F = do {
     xs \<leftarrow> L l;
     (rs, q) \<leftarrow> (case xs of [] \<Rightarrow> evs_spec evs L P F | x # ys \<Rightarrow> evs_spec evs (L(l \<mapsto> ys)) P (insert x F));
     Some (first_or xs None # rs, q) }"

text \<open>The events have the same results and leave the same lists either way.\<close>

definition evs_agree ::
  "('l, 'a) list_ev list \<Rightarrow> ('a \<rightharpoonup> 'l) \<Rightarrow> ('l, 'a, 'z) lheap_scheme \<Rightarrow> 'a option list \<Rightarrow> ('l \<Rightarrow> 'a list option)
     \<Rightarrow> ('a \<rightharpoonup> 'l) \<Rightarrow> bool" where
  "evs_agree evs P h rs L' P' \<longleftrightarrow> (\<exists>t. atomic_exec evs h = Some (rs, t) \<and>
     evs_exec evs (prepared P h) = Some (rs, prepared P' t) \<and> heap_rep t L')"

lemma agree_link:
  assumes "list_append (Some l) (Some a) h = Some g" "append_link l a (prepared P h) = Some (prepared (P(a := None)) g)"
    "evs_agree evs (P(a := None)) g rs L' P'"
  shows "evs_agree (Link l a # evs) P h rs L' P'"
  using assms by (auto simp: evs_agree_def)

lemma agree_fetch:
  assumes R: "heap_rep h L" and l: "L l = Some xs" and lo: "\<And>b. P b \<noteq> None \<Longrightarrow> loose (elms h) b"
    and g: "list_fetch (Some l) h = Some (r, g)" and evs: "evs_agree evs P g rs L' P'"
  shows "evs_agree (Fetch l # evs) P h (r # rs) L' P'"
  using fetch_ok [where P = P, OF R l lo] g evs by (auto simp: evs_agree_def)

lemma evs_ok:
  assumes "evs_spec evs L P F = Some (rs, L', P')" "heap_rep h L"
    and "\<And>b. P b \<noteq> None \<or> b \<in> F \<Longrightarrow> loose (elms h) b" "\<And>b. b \<in> F \<Longrightarrow> P b = None"
  shows "evs_agree evs P h rs L' P'"
  using assms
proof (induction evs L P F arbitrary: h rs rule: evs_spec.induct)
  case (1 L P F)
  then show ?case by (auto simp: evs_agree_def)
next
  case (2 l a evs L P F)
  then have a: "a \<in> F" and s: "evs_spec evs L (P(a \<mapsto> l)) (F - {a}) = Some (rs, L', P')" by (auto split: if_splits)
  have "loose (elms h) a" using 2(4) a by blast
  then obtain e where "elms h a = Some e" by (auto simp: loose_def)
  from prep_ok [where P = P, OF this 2(5) [OF a]] have p: "append_prep l a (prepared P h) = Some (prepared (P(a \<mapsto> l)) h)" .
  have "evs_agree evs (P(a \<mapsto> l)) h rs L' P'"
    by (rule 2(1) [OF a s 2(3)]) (use 2(4,5) a in \<open>auto split: if_splits\<close>)
  with p show ?case by (simp add: evs_agree_def)
next
  case (3 l a evs L P F)
  then obtain xs where a: "P a = Some l" and l: "L l = Some xs"
    and s: "evs_spec evs (L(l \<mapsto> xs @ [a])) (P(a := None)) F = Some (rs, L', P')"
    by (auto split: if_splits elim!: bind_SomeE)
  have lo: "loose (elms h) b" if "P b \<noteq> None" for b using 3(4) that by blast
  from link_ok [where P = P, OF 3(3) l a lo] obtain g where g: "list_append (Some l) (Some a) h = Some g"
    "append_link l a (prepared P h) = Some (prepared (P(a := None)) g)" "heap_rep g (L(l \<mapsto> xs @ [a]))"
    "\<And>b. loose (elms g) b \<longleftrightarrow> loose (elms h) b \<and> b \<noteq> a" by blast
  have "evs_agree evs (P(a := None)) g rs L' P'"
    by (rule 3(1) [OF a l s g(3)]) (use 3(4,5) a g(4) in \<open>auto split: if_splits\<close>)
  with g(1,2) show ?case by (rule agree_link)
next
  case (4 l evs L P F)
  then obtain xs where l: "L l = Some xs" by (auto elim!: bind_SomeE)
  have lo: "loose (elms h) b" if "P b \<noteq> None" for b using 4(5) that by blast
  note fetch = agree_fetch [OF 4(4) l lo]
  show ?case
  proof (cases xs)
    case Nil
    from 4(3) l Nil obtain rs' where s: "evs_spec evs L P F = Some (rs', L', P')" "rs = None # rs'"
      by (auto elim!: bind_SomeE)
    with fetch lq.fetch_empty [OF 4(4) l [unfolded Nil]] 4(1) [OF l Nil s(1) 4(4-6)] show ?thesis by simp
  next
    case (Cons x ys)
    from 4(3) l Cons obtain rs' where s: "evs_spec evs (L(l \<mapsto> ys)) P (insert x F) = Some (rs', L', P')"
      "rs = Some x # rs'" by (auto elim!: bind_SomeE)
    from lq.fetch_law [OF 4(4) l [unfolded Cons]] obtain g where g: "list_fetch (Some l) h = Some (Some x, g)"
      "heap_rep g (L(l \<mapsto> ys))" "\<forall>b. loose (elms g) b \<longleftrightarrow> loose (elms h) b \<or> b = x" by blast
    have x: "P x = None" using loose_notin [OF 4(4) lo l] Cons by (cases "P x") auto
    have "evs_agree evs P g rs' L' P'" by (rule 4(2) [OF l Cons s(1) g(2)]) (use 4(5,6) g(3) x in auto)
    with fetch g(1) s(2) show ?thesis by simp
  qed
qed

text \<open>C34: \<open>list_append\<close> is atomic. It writes the parent and next fields of the element before it takes the
  lock of the list. For any interleaving of the two parts of appends, by any number of threads,
  with fetches, where a thread appends only elements it holds: nothing faults, and the fetches
  return what they return when each append runs whole at the moment of its locked part; the final
  heap differs from that of the whole appends only in the elements whose append is under way
  (not at all if none is), and the lists are the sequences that queues would hold.\<close>

theorem list_append_atomic:
  assumes "heap_rep h L" "\<And>a. a \<in> F \<Longrightarrow> loose (elms h) a" "evs_spec evs L (\<lambda>_. None) F = Some (rs, L', P)"
  shows "\<exists>t. atomic_exec evs h = Some (rs, t) \<and> evs_exec evs h = Some (rs, prepared P t) \<and>
    (P = (\<lambda>_. None) \<longrightarrow> evs_exec evs h = Some (rs, t)) \<and>
    (\<forall>l xs. L' l = Some xs \<longrightarrow> list_foreach (Some l) None t = Some xs)"
proof -
  have "evs_agree evs (\<lambda>_. None) h rs L' P" by (rule evs_ok [OF assms(3,1)]) (use assms(2) in auto)
  then obtain t where
    t: "atomic_exec evs h = Some (rs, t)" "evs_exec evs h = Some (rs, prepared P t)" "heap_rep t L'" by (auto simp: evs_agree_def)
  then show ?thesis using rep_foreach [OF t(3)] by auto
qed

theorem list_append_atomic_witness:
  "\<exists>t. evs_exec [Prep 0 1, Prep 0 2, Link 0 2, Fetch 0, Link 0 1, Prep 0 2, Fetch 0, Link 0 2] heap0
      = Some ([Some 2, Some 1], t) \<and>
    atomic_exec [Prep 0 1, Prep 0 2, Link 0 2, Fetch 0, Link 0 1, Prep 0 2, Fetch 0, Link 0 2] heap0
      = Some ([Some 2, Some 1], t) \<and> list_foreach (Some 0) None t = Some [2]"
proof -
  have lo: "loose (elms heap0) a" if "a \<in> {1, 2}" for a using heap0_rep(2,3) that by auto
  have s: "evs_spec [Prep 0 1, Prep 0 2, Link 0 2, Fetch 0, Link 0 1, Prep 0 2, Fetch 0, Link 0 2]
      [0 \<mapsto> []] (\<lambda>_. None) {1, 2 :: nat} = Some ([Some 2, Some 1], [0 \<mapsto> [2]], (\<lambda>_. None))"
    by (simp add: fun_upd_def) (simp add: fun_eq_iff)
  from list_append_atomic [OF heap0_rep(1) lo s] show ?thesis by auto
qed

end
