(* ===== verification/Spec2Isabelle.thy ===== *)
theory Spec2Isabelle
  imports Linked_List Ring_Queue Frame Run_Control Registers Lifecycle User_List User_Spi Shell_Driver Wakeups Races End_To_End
    Sample_Times Reg_Race Rebind Append_Atomic
begin

text \<open>
  \<^bold>\<open>The program.\<close> A Linux driver (SPI character device) for the ADS131M08, an eight-channel
  24-bit ADC. On the falling edge of the data-ready line an interrupt handler stores the time and
  its thread clocks one sample (a status word and eight 24-bit words) out of the device into a
  chunk buffer. Chunk buffers circulate between three lists, free, active and ready; SPI transfer
  buffers between a pool and the transfer in progress. A reader takes whole ready chunks through
  \<open>read\<close>; \<open>ioctl\<close> starts and stops the acquisition, accesses registers and sets the chunk size.

  \<^bold>\<open>The model.\<close> One HOL function per C function, under its own name, over an explicit state
  record \<open>drv\<close> that holds the static variables and the memory behind their pointers. The result
  is \<open>None\<close> where the C code would go through a null or freed pointer, leave an array, or not
  return; error codes are integers as in the source. The kernel and the device are not part of
  the repository: they are the fields of the record \<open>kenv\<close>, arbitrary functions of a state of
  their own, of which only \<open>kernel\<close> (theory System: \<open>request_threaded_irq\<close> returns no positive value
  and \<open>class_create\<close> no NULL) is assumed where a theorem says so. That user memory does not change
  during a register ioctl (\<open>fetch_stable\<close>) is a hypothesis of its own, only for those ioctls.
  \<^item> Linked_List: \<open>src/list.c\<close>, doubly linked lists with parent pointers on a heap; \<open>rep\<close> relates
    heaps to functional lists; Fifo_Interface is the contract its clients use, interpreted there.
    Append_Atomic cuts \<open>list_append\<close> where it takes the lock and shows that nobody can tell.
  \<^item> Ring_Queue: \<open>src/queue.c\<close>, the array queue of the repository (not in the module).
  \<^item> Frame: the frame codecs of \<open>src/ads131m08_spi.c\<close> on 8, 16 and 32-bit words.
  \<^item> Driver_State: buffers, lists, variables, kernel (\<open>src/ads131m08.h\<close>).
  \<^item> Spi_Xfer: transfer pool, \<open>adc_trx\<close>, registers and commands; Sample_Io: \<open>ads131m08_read_data\<close>
    and its completion (\<open>src/ads131m08_spi.c\<close>).
  \<^item> Chunk_Buf: the buffers of \<open>src/ads131m08_data.c\<close>, their ownership invariant \<open>data_inv\<close>;
    Acquire: interrupt, start and stop, the report of \<open>/proc\<close>; Gpio: \<open>src/ads131m08_gpio.c\<close>.
  \<^item> Iface: \<open>src/ads131m08_iface.c\<close>; Probe: \<open>src/ads131m08_main.c\<close>.
  \<^item> System: the driver as a transition system, one handler a step, by the locale of Inv_System. Two
    histories run along and only grow: \<open>sent\<close>, every sample the device has clocked out to the
    interrupt thread, stored in a chunk or dropped for want of one, and \<open>gone\<close>, every stored sample
    that has left the lists, fetched by a reader or discarded by a start or stop.
  \<^item> Stages: \<open>ads131m08_irq_thread\<close> and \<open>ads131m08_run_cmd\<close> cut into stages (\<open>irq_next\<close>, \<open>ctl_next\<close>)
    with a program counter each; composed they are those functions again. Where the order of two
    statements shows only to whoever runs between them the function is a list of its statements
    (\<open>chunk_buf_ready_stmts\<close>, \<open>stop_stmts\<close>), of which the stages take one each. Irq_Stages and Ctl_Stages
    give the invariant at every stage, Interleaving the transition system in which the stages, any
    number of readers, opens and other ioctls alternate (the same locale, interpreted again),
    Concurrent its theorems; Sample_Times follows the times of the interrupts into the samples, Wakeups
    a sleeping reader, Races and Reg_Race (\<open>ads131m08_reg_read\<close> cut between its two exchanges) what
    goes wrong with two command threads.
  \<^item> Footprint: the memory no operation between probe and remove touches; Rebind: the driver and file
    operation tables, whole sessions of probe, a run of System, and remove, and files left open.
  \<^item> User_List and User_Spi: \<open>list.c\<close> and \<open>linux_spi.c\<close> of \<open>src/test_program\<close>, the same list
    contract interpreted a second time, and the wrapper over a spidev parameter.
  \<^item> Ioctl_Code: the request words of \<open>ads131m08_ioctl.h\<close> and \<open>print_ioctl_cmd.c\<close>. Shell:
    \<open>src/test_program/test.c\<close>, tokeniser, command table, handlers, both loops and \<open>main\<close>, over the interface
    Reg_Service, which Shell_Driver interprets with the ioctls of the driver. End_To_End lets the
    sample printer read from the driver of Interleaving.

  \<^bold>\<open>What is shown.\<close> Every operation is total and keeps the invariant on every branch, kernel errors
  included (\<open>data_inv\<close>, \<open>drv_inv\<close>, \<open>sys_inv\<close>: each chunk buffer has one owner, the list a buffer is
  on fixes its state and index, each transfer buffer comes back). Run_Control refines the
  interrupt thread to an abstract stream of samples and fixes the order of events at start and
  stop; Char_Device covers read, wait, open, release, poll, proc and ioctls; Registers goes from
  the register ioctl to the bytes on the bus, and Shell_Driver from the line typed at the test
  program; Lifecycle covers probe and remove, and Rebind shows that any number of sessions leaves no
  memory behind; this theory concludes over all sequences of
  handlers, and Concurrent over all interleavings of their stages: the samples stored are those
  gone and those still in the driver, in the order sent, nothing faults, the interrupt thread comes to its end, a stopped driver is quiet, no wake-up is lost, each
  sample carries the time of its own interrupt. Shell shows
  that the printing loop prints exactly the samples read, End_To_End that these are the samples
  the device sent and the driver stored, in order; User_List that the userland lists agree with the driver's. Defects of the code are theorems too.

  \<^bold>\<open>Bounds.\<close> \<open>int\<close> arithmetic wraps at 32 bits where it can overflow (\<open>int32\<close>, list counts,
  transfer lengths); the drop counter is a 64-bit word. Pointer-chasing loops are
  \<open>partial_function (option)\<close>, so that termination is part of each theorem. \<open>irq_run\<close> and
  \<open>ctl_run\<close> count stages: nine and eleven always suffice (\<open>stages_compose\<close>, \<open>fine_irq_completes\<close>).

  \<^bold>\<open>Assumed of the kernel.\<close> A spinlock or mutex makes what it covers one step: one list or chunk
  operation, one exchange on the bus (for \<open>list_append\<close>, part of which runs before the lock, this is
  proved: Append_Atomic). \<open>IRQF_ONESHOT\<close>: the handler does not run while its thread
  does. \<open>free_irq\<close> waits for the thread. In Interleaving one thread at a time issues commands,
  as the test program does; the driver does not enforce it (Races). After remove the driver core
  releases what was allocated with \<open>devm_kzalloc\<close> (\<open>devres_released\<close>).

  \<^bold>\<open>Not modelled.\<close> Stages within a register write or a reset, within a reader's copy, and within
  probe and remove (one step each). Log messages and module information; the bare lock calls
  \<open>list_lock\<close> and \<open>list_unlock\<close>, which nothing calls; the headers' declarations; generated
  \<open>ads131m08.mod.c\<close> and device trees. The two threads of the test program run by themselves
  (\<open>test_loop\<close>, \<open>cmd_loop\<close>); \<open>test_main\<close> is the code before them.
\<close>

section \<open>Every reachable state of the driver\<close>

lemma reachable_inv:
  assumes "kernel K" "started K w0" "(step K)\<^sup>*\<^sup>* w0 w"
  shows "world_inv w"
proof -
  have "(\<lambda>w w'. kernel K \<and> step K w w') = step K" using assms(1) by simp
  with assms show ?thesis using drv.reach_inv [of K w0 w] by simp
qed

lemma k0_reached:
  "\<exists>w0 w. started k0 w0 \<and> (step k0)\<^sup>*\<^sup>* w0 w \<and> held w = [] \<and> irq_registered (drv w) \<and> run_stat (drv w) = ADC_RUN \<and>
     with_fate Stored (sent w) = [\<lparr>s_ts = 77, s_data = frame_smpl (\<lambda>i. of_nat (3 * i))\<rparr>]"
proof -
  have "(\<lambda>w w'. kernel k0 \<and> step k0 w w') = step k0" using k0_kernel by simp
  with k0_run obtain w0 w where "started k0 w0" "(step k0)\<^sup>*\<^sup>* w0 w" "held w = []" "irq_registered (drv w)"
    "run_stat (drv w) = ADC_RUN" "sent w = [(Stored, \<lparr>s_ts = 77, s_data = frame_smpl (\<lambda>i. of_nat (3 * i))\<rparr>)]" by metis
  then show ?thesis by (intro exI [of _ w0] exI [of _ w]) simp
qed

text \<open>Only a start or stop discards.\<close>

lemma step_gone:
  assumes "step K w w'" "run_stat (drv w') = run_stat (drv w)"
  shows "\<exists>ms. gone w' = gone w @ map (Pair Fetched) ms"
  using assms by (cases rule: step.cases) (auto simp: after_cmd_def intro: exI [of _ "[]"])

text \<open>C7: samples reach the readers in order, each once. From probe on, whatever interrupts, ioctls,
  opens, releases and readers do in whatever order: the eight chunk buffers are split among the
  ready, active and free lists and the readers' hands, with at most one active; the lists in
  memory are well-formed doubly linked lists of exactly those buffers; and the samples that the
  interrupt thread has stored are, in the order received, those that have left the lists, then
  those in the ready chunks, then those in the active chunk. None of the stored samples is lost,
  duplicated or reordered between the interrupt and the reader's fetch except by a start or stop:
  a step that leaves the run state as it is lets samples go to readers only. And the next run of
  the interrupt thread drops its sample only if no chunk is active or free.\<close>

theorem samples_in_order:
  assumes K: "kernel K" and st: "started K w0" and run: "(step K)\<^sup>*\<^sup>* w0 w"
  shows "(\<exists>R A F X bs. heap_rep (drv w) (drv_lists R A F (Some X)) \<and> chunk_buf_list (drv w) = Some bs \<and>
      mset (R @ A @ F @ held w) = mset [0..<8] \<and> length A \<le> 1 \<and>
      with_fate Stored (sent w) = map snd (gone w) @ concat (map (\<lambda>b. taken (bs ! b)) (R @ A)) \<and>
      (A @ F = [] \<or> with_fate Dropped (irq_samples K (drv w)) = [])) \<and>
    (\<forall>w'. step K w w' \<longrightarrow> run_stat (drv w') = run_stat (drv w) \<longrightarrow> (\<exists>ms. gone w' = gone w @ map (Pair Fetched) ms))"
proof -
  from reachable_inv [OF assms] obtain R A F X bs where
    I: "sys_inv (drv w) R A F (held w) X bs" and h: "acquired w = map snd (gone w) @ pending bs R A"
    by (rule world_invE)
  then have D: "drv_inv (drv w) R A F (held w) X bs" "spi_hdlr (drv w)" by (simp_all add: sys_inv_def)
  obtain ret rxd d where "spi_sync_transfer K (dev (drv w)) (replicate 30 0) = (ret, rxd, d)"
    by (cases "spi_sync_transfer K (dev (drv w)) (replicate 30 0)")
  from irq_samples_eq [OF D this] have "A @ F = [] \<or> with_fate Dropped (irq_samples K (drv w)) = []" by auto
  with I h have "\<exists>R A F X bs. heap_rep (drv w) (drv_lists R A F (Some X)) \<and> chunk_buf_list (drv w) = Some bs \<and>
      mset (R @ A @ F @ held w) = mset [0..<8] \<and> length A \<le> 1 \<and>
      acquired w = map snd (gone w) @ concat (map (\<lambda>b. taken (bs ! b)) (R @ A)) \<and>
      (A @ F = [] \<or> with_fate Dropped (irq_samples K (drv w)) = [])"
    by (intro exI [of _ R] exI [of _ A] exI [of _ F] exI [of _ X] exI [of _ bs])
      (simp add: sys_inv_def drv_inv_def data_inv_def owned_def pending_def CHUNK_BUF_CNT_def)
  then show ?thesis using step_gone [of K w] by blast
qed

theorem samples_in_order_witness:
  "\<exists>w0 w R A bs. started k0 w0 \<and> (step k0)\<^sup>*\<^sup>* w0 w \<and> with_fate Stored (sent w) \<noteq> [] \<and>
     with_fate Stored (sent w) = map snd (gone w) @ concat (map (\<lambda>b. taken (bs ! b)) (R @ A))"
proof -
  from k0_reached obtain w0 w where w: "started k0 w0" "(step k0)\<^sup>*\<^sup>* w0 w"
    "with_fate Stored (sent w) = [\<lparr>s_ts = 77, s_data = frame_smpl (\<lambda>i. of_nat (3 * i))\<rparr>]" by blast
  have ne: "with_fate Stored (sent w) \<noteq> []" by (simp add: w(3))
  from samples_in_order [OF k0_kernel w(1,2)] obtain R A bs where
    "with_fate Stored (sent w) = map snd (gone w) @ concat (map (\<lambda>b. taken (bs ! b)) (R @ A))" by blast
  with w(1,2) ne show ?thesis by blast
qed

text \<open>C8: no operation faults in a reachable state: the interrupt thread, every ioctl with every
  argument, release, the wait and the fetch of a read, the copy of a chunk in a reader's hands,
  poll, the proc file and remove all complete; none dereferences a null or freed pointer, leaves
  an array, or loops. User memory is assumed to stay the same during a register ioctl, RREG or
  WREG (\<open>fetch_stable\<close>; without that the double fetch faults), but not for anything else.\<close>

theorem reachable_no_fault:
  assumes K: "kernel K" and st: "started K w0" and run: "(step K)\<^sup>*\<^sup>* w0 w"
  shows "ads131m08_irq_thread K (drv w) \<noteq> None \<and>
    ((reg_nr cmd \<longrightarrow> fetch_stable K) \<longrightarrow> ads131m08_ioctl K cmd arg (drv w) \<noteq> None) \<and>
    ads131m08_release K (drv w) \<noteq> None \<and> wait_cond (drv w) \<noteq> None \<and> ads131m08_data_get (drv w) \<noteq> None \<and>
    (\<forall>b \<in> set (held w). read_copy K cnt (Chunk b) (drv w) \<noteq> None) \<and>
    ads131m08_poll (drv w) \<noteq> None \<and> proc_show (drv w) \<noteq> None \<and> ads131m08_remove K (drv w) \<noteq> None"
proof -
  from reachable_inv [OF assms] obtain R A F X bs where I: "sys_inv (drv w) R A F (held w) X bs"
    by (rule world_invE)
  then have D: "drv_inv (drv w) R A F (held w) X bs" "spi_hdlr (drv w)" by (simp_all add: sys_inv_def)
  have k: "kenv_ok K" using K by (simp add: kernel_def)
  have "ads131m08_irq_thread K (drv w) \<noteq> None"
    by (cases "spi_sync_transfer K (dev (drv w)) (replicate 30 0)") (use irq_thread_spec [OF D] in fastforce)
  moreover have "ads131m08_ioctl K cmd arg (drv w) \<noteq> None" if "reg_nr cmd \<longrightarrow> fetch_stable K"
    using ioctl_keeps_sys [OF k, of cmd arg "drv w"] that I unfolding keeps_sys_def by (metis option.distinct(1))
  moreover have "ads131m08_release K (drv w) \<noteq> None" using release_sys [OF I k] by auto
  moreover have "wait_cond (drv w) \<noteq> None" using wait_cond_ok [OF D(1)] by simp
  moreover have "ads131m08_data_get (drv w) \<noteq> None"
    using data_get_sys [OF I] by (cases R) auto
  moreover have "read_copy K cnt (Chunk b) (drv w) \<noteq> None" if "b \<in> set (held w)" for b
    using read_copy_sys [OF I that, of K cnt] by auto
  moreover have "ads131m08_poll (drv w) \<noteq> None" using poll_ok [OF D(1)] by simp
  moreover have "proc_show (drv w) \<noteq> None" using proc_show_ok [OF D(1)] by auto
  moreover have "ads131m08_remove K (drv w) \<noteq> None"
    by (cases "spi_sync_transfer K (dev (drv w)) (trx_frame CMD_STANDBY [] 1)") (use remove_ok [OF I] in fastforce)
  ultimately show ?thesis by blast
qed

theorem reachable_no_fault_witness:
  "\<exists>w0 w. started k0 w0 \<and> (step k0)\<^sup>*\<^sup>* w0 w \<and> ads131m08_irq_thread k0 (drv w) \<noteq> None \<and>
     ads131m08_ioctl k0 CMD_STANDBY_nr 0 (drv w) \<noteq> None \<and> ads131m08_remove k0 (drv w) \<noteq> None"
proof -
  from k0_reached obtain w0 w where w: "started k0 w0" "(step k0)\<^sup>*\<^sup>* w0 w" by blast
  have "\<not> reg_nr CMD_STANDBY_nr" by (simp add: reg_nr_def)
  with reachable_no_fault [OF k0_kernel w, of CMD_STANDBY_nr 0] w show ?thesis by blast
qed

end
